(* ===== verification/Prelude.thy ===== *)
theory Prelude
  imports Main "HOL-Library.Word" "HOL-Library.Char_ord" "HOL-Library.List_Lexorder"
    "HOL-Library.Product_Lexorder"
begin

text \<open>
  What every component shares: Rust's integer types, \<^verbatim>\<open>Result\<close> with its
  \<^verbatim>\<open>?\<close> operator, and generic lemmas on lists and words.

  An unsigned integer is a word of its width, so \<^verbatim>\<open>+\<close> and \<^verbatim>\<open>-\<close> wrap as they
  do in the release profile. A signed integer is a word that is ordered by its two's complement
  value (type \<open>sword\<close>); it is a ring, so literals such as \<open>-1\<close> are available, and
  a linear order, so it can key an ordered map. A Rust \<^verbatim>\<open>str\<close> is a HOL string whose
  characters are its bytes, which is also how Rust compares strings.
\<close>

section \<open>Integers\<close>

type_synonym u8 = "8 word"
type_synonym u32 = "32 word"
type_synonym u64 = "64 word"
type_synonym bytes = "u8 list"

typedef (overloaded) 'a sword = "UNIV :: 'a::len word set"
  morphisms sbits SW
  by simp

lemma sbits_SW [simp]: "sbits (SW w) = w"
  by (simp add: SW_inverse)

lemma SW_sbits [simp]: "SW (sbits x) = x"
  by (rule sbits_inverse)

lemma SW_eq_iff [simp]: "SW v = SW w \<longleftrightarrow> v = w"
  by (simp add: SW_inject)

lemma sword_eq_iff: "x = y \<longleftrightarrow> sbits x = sbits y"
  by (simp add: sbits_inject)

type_synonym i32 = "32 sword"
type_synonym i64 = "64 sword"

definition sval :: "'a::len sword \<Rightarrow> int" where
  "sval x = sint (sbits x)"

instantiation sword :: (len) linorder
begin
definition less_eq_sword :: "'a sword \<Rightarrow> 'a sword \<Rightarrow> bool" where
  "less_eq_sword x y \<longleftrightarrow> sval x \<le> sval y"
definition less_sword :: "'a sword \<Rightarrow> 'a sword \<Rightarrow> bool" where
  "less_sword x y \<longleftrightarrow> sval x < sval y"
instance
  by standard (auto simp: less_eq_sword_def less_sword_def sval_def sword_eq_iff
      dest: signed_word_eqI)
end

instantiation sword :: (len) comm_ring_1
begin
definition zero_sword :: "'a sword" where "zero_sword = SW 0"
definition one_sword :: "'a sword" where "one_sword = SW 1"
definition plus_sword :: "'a sword \<Rightarrow> 'a sword \<Rightarrow> 'a sword" where
  "plus_sword x y = SW (sbits x + sbits y)"
definition minus_sword :: "'a sword \<Rightarrow> 'a sword \<Rightarrow> 'a sword" where
  "minus_sword x y = SW (sbits x - sbits y)"
definition uminus_sword :: "'a sword \<Rightarrow> 'a sword" where
  "uminus_sword x = SW (- sbits x)"
definition times_sword :: "'a sword \<Rightarrow> 'a sword \<Rightarrow> 'a sword" where
  "times_sword x y = SW (sbits x * sbits y)"
instance
  by standard
    (auto simp: zero_sword_def one_sword_def plus_sword_def minus_sword_def uminus_sword_def
       times_sword_def sword_eq_iff algebra_simps)
end

lemma sbits_simps [simp]:
  "sbits 0 = 0" "sbits 1 = 1" "sbits (x + y) = sbits x + sbits y"
  "sbits (x - y) = sbits x - sbits y" "sbits (- x) = - sbits x" "sbits (x * y) = sbits x * sbits y"
  by (simp_all add: zero_sword_def one_sword_def plus_sword_def minus_sword_def uminus_sword_def
    times_sword_def)

lemma sbits_of_nat [simp]: "sbits (of_nat n) = of_nat n"
  by (induction n) simp_all

lemma sbits_numeral [simp]: "sbits (numeral n) = numeral n"
proof -
  have "sbits (of_nat (numeral n)) = of_nat (numeral n)"
    by (rule sbits_of_nat)
  then show ?thesis by (simp only: of_nat_numeral)
qed

text \<open>Closed comparisons of signed literals are decided on their values.\<close>

lemmas sword_eval = sword_eq_iff less_eq_sword_def less_sword_def sval_def

lemma unat_of_nat_u64: "n < 2 ^ 64 \<Longrightarrow> unat (of_nat n :: u64) = n"
  by (simp add: unat_of_nat)

lemma unat_of_nat_le_unat: "n \<le> unat (b :: u64) \<Longrightarrow> unat (of_nat n :: u64) = n"
  using unsigned_less [of b, where ?'a = nat] by (intro unat_of_nat_u64) simp

section \<open>Results\<close>

text \<open>\<^verbatim>\<open>Result<T, E>\<close> is the sum type, with the error on the left.\<close>

abbreviation Err :: "'e \<Rightarrow> 'e + 'a" where "Err \<equiv> Inl"
abbreviation Ok :: "'a \<Rightarrow> 'e + 'a" where "Ok \<equiv> Inr"

text \<open>The \<^verbatim>\<open>?\<close> operator: stop at an error, continue with the value otherwise.\<close>

definition rbind :: "'e + 'a \<Rightarrow> ('a \<Rightarrow> 'e + 'b) \<Rightarrow> 'e + 'b" where
  "rbind r f = (case r of Inl e \<Rightarrow> Inl e | Inr x \<Rightarrow> f x)"

lemma rbind_simps [simp]: "rbind (Inl e) f = Inl e" "rbind (Inr x) f = f x"
  by (simp_all add: rbind_def)

lemma rbind_eq_Inr [simp]: "rbind r f = Inr y \<longleftrightarrow> (\<exists>x. r = Inr x \<and> f x = Inr y)"
  by (cases r) simp_all

lemma rbind_eq_Inl: "rbind r f = Inl e \<longleftrightarrow> r = Inl e \<or> (\<exists>x. r = Inr x \<and> f x = Inl e)"
  by (cases r) simp_all

text \<open>A loop whose body may fail: \<^verbatim>\<open>for x in xs { body(&mut s, x)?; }\<close>.\<close>

fun rfold :: "('s \<Rightarrow> 'a \<Rightarrow> 'e + 's) \<Rightarrow> 'a list \<Rightarrow> 's \<Rightarrow> 'e + 's" where
  "rfold f [] s = Inr s"
| "rfold f (x # xs) s = rbind (f s x) (rfold f xs)"

lemma rfold_append: "rfold f (xs @ ys) s = rbind (rfold f xs s) (rfold f ys)"
proof (induction xs arbitrary: s)
  case Nil
  show ?case by simp
next
  case (Cons x xs)
  then show ?case by (cases "f s x") simp_all
qed

text \<open>An invariant of the body is an invariant of the loop.\<close>

lemma rfold_invariant:
  assumes "rfold f xs s = Inr t" and "P s"
    and "\<And>x s t. x \<in> set xs \<Longrightarrow> P s \<Longrightarrow> f s x = Inr t \<Longrightarrow> P t"
  shows "P t"
  using assms
proof (induction xs arbitrary: s)
  case Nil
  then show ?case by simp
next
  case (Cons x xs)
  from Cons.prems(1) obtain u where "f s x = Inr u" and "rfold f xs u = Inr t"
    by auto
  with Cons.prems(2,3) show ?case
    by (intro Cons.IH [of u]) auto
qed

lemma fold_invariant_list:
  assumes "P s" and "\<And>x s. x \<in> set xs \<Longrightarrow> P s \<Longrightarrow> P (f x s)"
  shows "P (fold f xs s)"
  using assms by (induction xs arbitrary: s) auto

section \<open>Lists\<close>

lemma takeWhile_eq_filter_sorted:
  assumes "sorted_wrt R xs" and "\<And>x y. R x y \<Longrightarrow> P y \<Longrightarrow> P x"
  shows "takeWhile P xs = filter P xs"
  using assms(1)
proof (induction xs)
  case Nil
  show ?case by simp
next
  case (Cons x xs)
  then show ?case
  proof (cases "P x")
    case False
    with Cons.prems assms(2) have "\<forall>y \<in> set xs. \<not> P y" by auto
    with False show ?thesis by simp
  qed simp
qed

lemma sorted_wrt_map_fst_filter:
  "sorted_wrt R (map fst xs) \<Longrightarrow> sorted_wrt R (map fst (filter P xs))"
  by (induction xs) auto

end
