(* ===== verification/OMap.thy ===== *)
theory OMap
  imports Prelude
begin

text \<open>
  Ordered maps: the contract the code relies on when it stores rows in \<^verbatim>\<open>im::OrdMap\<close> or
  \<^verbatim>\<open>BTreeMap\<close>, and its realisation by association lists that are strictly sorted by key.
  The list of entries is the iteration order, a \<^verbatim>\<open>range(lo..=hi)\<close> scan keeps the
  entries between the bounds, and two maps with the same lookups are equal, as they are for the
  derived \<^verbatim>\<open>PartialEq\<close>.
\<close>

section \<open>The interface\<close>

locale ordered_map =
  fixes empty :: "'m"
    and get :: "'m \<Rightarrow> 'k::linorder \<Rightarrow> 'v option"
    and put :: "'k \<Rightarrow> 'v \<Rightarrow> 'm \<Rightarrow> 'm"
    and del :: "'k \<Rightarrow> 'm \<Rightarrow> 'm"
    and entries :: "'m \<Rightarrow> ('k \<times> 'v) list"
  assumes get_empty: "get empty k = None"
    and get_put: "get (put k v m) k' = (if k = k' then Some v else get m k')"
    and get_del: "get (del k m) k' = (if k = k' then None else get m k')"
    and get_ext: "(\<And>k. get m k = get n k) \<Longrightarrow> m = n"
    and get_entries: "get m = map_of (entries m)"
    and sorted_entries: "sorted_wrt (<) (map fst (entries m))"
begin

lemma distinct_entries: "distinct (map fst (entries m))"
  using sorted_entries strict_sorted_iff by blast

lemma in_entries_iff: "(k, v) \<in> set (entries m) \<longleftrightarrow> get m k = Some v"
  by (simp add: get_entries distinct_entries)

lemma finite_dom_get: "finite (dom (get m))"
  by (simp add: get_entries finite_dom_map_of)

lemma put_same: "get m k = Some v \<Longrightarrow> put k v m = m"
  by (rule get_ext) (auto simp: get_put)

lemma put_put: "put k v (put k w m) = put k v m"
  by (rule get_ext) (simp add: get_put)

lemma put_commute: "k \<noteq> l \<Longrightarrow> put k v (put l w m) = put l w (put k v m)"
  by (rule get_ext) (auto simp: get_put)

lemma del_absent: "get m k = None \<Longrightarrow> del k m = m"
  by (rule get_ext) (auto simp: get_del)

lemma del_put: "del k (put k v m) = del k m"
  by (rule get_ext) (simp add: get_put get_del)

text \<open>Inserting a list of entries one by one: the last entry of a key wins.\<close>

lemma get_fold_put:
  "get (fold (\<lambda>(k, v). put k v) xs m) k =
    (case map_of (rev xs) k of None \<Rightarrow> get m k | Some v \<Rightarrow> Some v)"
proof (induction xs rule: rev_induct)
  case Nil
  show ?case by simp
next
  case (snoc x xs)
  then show ?case by (cases x) (simp add: get_put)
qed

text \<open>Reinserting the entries of a map into the empty map rebuilds it.\<close>

lemma rebuild: "fold (\<lambda>(k, v). put k v) (entries m) empty = m"
proof (rule get_ext)
  fix k
  have "map_of (rev (entries m)) = map_of (entries m)"
    by (simp add: map_of_inject_set distinct_entries rev_map [symmetric])
  then show "get (fold (\<lambda>(k, v). put k v) (entries m) empty) k = get m k"
    by (simp add: get_fold_put get_empty get_entries [symmetric] split: option.split)
qed

lemma entries_fun: "(\<And>k. get m k = get n k) \<Longrightarrow> entries m = entries n"
  using get_ext by metis

end

section \<open>Sorted association lists\<close>

fun al_put :: "'k::linorder \<Rightarrow> 'v \<Rightarrow> ('k \<times> 'v) list \<Rightarrow> ('k \<times> 'v) list" where
  "al_put k v [] = [(k, v)]"
| "al_put k v ((l, w) # xs) =
    (if k < l then (k, v) # (l, w) # xs
     else if k = l then (k, v) # xs
     else (l, w) # al_put k v xs)"

definition al_del :: "'k \<Rightarrow> ('k \<times> 'v) list \<Rightarrow> ('k \<times> 'v) list" where
  "al_del k xs = filter (\<lambda>(l, w). l \<noteq> k) xs"

lemma fst_set_al_put: "fst ` set (al_put k v xs) = insert k (fst ` set xs)"
  by (induction k v xs rule: al_put.induct) auto

lemma sorted_al_put:
  "sorted_wrt (<) (map fst xs) \<Longrightarrow> sorted_wrt (<) (map fst (al_put k v xs))"
proof (induction k v xs rule: al_put.induct)
  case (1 k v)
  show ?case by simp
next
  case (2 k v l w xs)
  have "\<forall>x \<in> fst ` set (al_put k v xs). l < x" if "\<not> k < l" "k \<noteq> l"
    using that 2(2) by (auto simp: fst_set_al_put)
  with 2 show ?case by (auto intro: less_trans)
qed

lemma map_of_al_put: "map_of (al_put k v xs) l = (if k = l then Some v else map_of xs l)"
  by (induction k v xs rule: al_put.induct) auto

lemma sorted_al_del:
  "sorted_wrt (<) (map fst xs) \<Longrightarrow> sorted_wrt (<) (map fst (al_del k xs))"
  unfolding al_del_def by (rule sorted_wrt_map_fst_filter)

lemma map_of_al_del: "map_of (al_del k xs) l = (if k = l then None else map_of xs l)"
  by (induction xs) (auto simp: al_del_def)

lemma sorted_map_of_inject:
  assumes "sorted_wrt (<) (map fst xs)" and "sorted_wrt (<) (map fst ys)"
    and "map_of xs = map_of (ys :: ('k::linorder \<times> 'v) list)"
  shows "xs = ys"
proof (rule map_sorted_distinct_set_unique [of fst])
  have d: "distinct (map fst xs)" "distinct (map fst ys)"
    using assms(1,2) strict_sorted_iff by blast+
  then show "inj_on fst (set xs \<union> set ys)"
    using assms(3) by (auto simp: inj_on_def) (metis map_of_eq_Some_iff option.inject)+
  show "sorted (map fst xs)" "sorted (map fst ys)"
    using assms(1,2) strict_sorted_iff by blast+
  show "distinct (map fst xs)" "distinct (map fst ys)" by (fact d)+
  show "set xs = set ys"
    using d assms(3) by (metis graph_map_of_if_distinct_dom)
qed

section \<open>The type of ordered maps\<close>

typedef (overloaded) ('k, 'v) omap = "{xs :: ('k::linorder \<times> 'v) list. sorted_wrt (<) (map fst xs)}"
  morphisms oentries OMap
  by (rule exI [of _ "[]"]) simp

setup_lifting type_definition_omap

lift_definition oempty :: "('k::linorder, 'v) omap" is "[]"
  by simp

lift_definition oget :: "('k::linorder, 'v) omap \<Rightarrow> 'k \<Rightarrow> 'v option" is map_of .

lift_definition oput :: "'k::linorder \<Rightarrow> 'v \<Rightarrow> ('k, 'v) omap \<Rightarrow> ('k, 'v) omap" is al_put
  by (rule sorted_al_put)

lift_definition odel :: "'k::linorder \<Rightarrow> ('k, 'v) omap \<Rightarrow> ('k, 'v) omap" is al_del
  by (rule sorted_al_del)

text \<open>Evaluation: the entries of a map built by insertions and deletions.\<close>

lemma oentries_eval [simp]:
  "oentries oempty = []"
  "oentries (oput k v m) = al_put k v (oentries m)"
  "oentries (odel k m) = al_del k (oentries m)"
  by (transfer, simp)+

interpretation om: ordered_map oempty oget oput odel oentries
proof unfold_locales
  show "\<And>m n :: ('a, 'b) omap. (\<And>k. oget m k = oget n k) \<Longrightarrow> m = n"
    by transfer (auto intro: sorted_map_of_inject)
  show "\<And>m :: ('a, 'b) omap. sorted_wrt (<) (map fst (oentries m))"
    using oentries by auto
qed (transfer; simp add: map_of_al_put map_of_al_del)+

declare om.get_empty [simp] om.get_put [simp] om.get_del [simp]

lemmas omap_eqI = om.get_ext

abbreviation okeys :: "('k::linorder, 'v) omap \<Rightarrow> 'k list" where
  "okeys m \<equiv> map fst (oentries m)"

abbreviation ovals :: "('k::linorder, 'v) omap \<Rightarrow> 'v list" where
  "ovals m \<equiv> map snd (oentries m)"

abbreviation osize :: "('k::linorder, 'v) omap \<Rightarrow> nat" where
  "osize m \<equiv> length (oentries m)"

definition ohas :: "('k::linorder, 'v) omap \<Rightarrow> 'k \<Rightarrow> bool" where
  "ohas m k \<longleftrightarrow> oget m k \<noteq> None"

lemma ohas_simps [simp]:
  "ohas oempty k \<longleftrightarrow> False"
  "ohas (oput k v m) l \<longleftrightarrow> k = l \<or> ohas m l"
  "ohas (odel k m) l \<longleftrightarrow> k \<noteq> l \<and> ohas m l"
  by (simp_all add: ohas_def)

lemma okeys_iff: "k \<in> set (okeys m) \<longleftrightarrow> ohas m k"
proof -
  have "k \<in> set (okeys m) \<longleftrightarrow> (\<exists>v. (k, v) \<in> set (oentries m))"
    by force
  then show ?thesis by (simp add: om.in_entries_iff ohas_def)
qed

text \<open>\<^verbatim>\<open>range(lo..=hi)\<close>: the entries with a key between the bounds, in key order.\<close>

definition orange :: "'k::linorder \<Rightarrow> 'k \<Rightarrow> ('k, 'v) omap \<Rightarrow> ('k \<times> 'v) list" where
  "orange lo hi m = filter (\<lambda>(k, v). lo \<le> k \<and> k \<le> hi) (oentries m)"

lemma in_orange_iff: "(k, v) \<in> set (orange lo hi m) \<longleftrightarrow> lo \<le> k \<and> k \<le> hi \<and> oget m k = Some v"
  by (auto simp: orange_def om.in_entries_iff)

lemma sorted_orange: "sorted_wrt (<) (map fst (orange lo hi m))"
  unfolding orange_def by (rule sorted_wrt_map_fst_filter) (rule om.sorted_entries)

section \<open>Sums over a map\<close>

definition osum :: "('k \<Rightarrow> 'v \<Rightarrow> 'n::comm_monoid_add) \<Rightarrow> ('k::linorder, 'v) omap \<Rightarrow> 'n" where
  "osum f m = (\<Sum>(k, v) \<leftarrow> oentries m. f k v)"

lemma osum_oempty [simp]: "osum f oempty = 0"
  by (simp add: osum_def)

lemma sum_list_al_put:
  fixes f :: "'k::linorder \<Rightarrow> 'v \<Rightarrow> 'n::comm_monoid_add"
  assumes "sorted_wrt (<) (map fst xs)" and "map_of xs k = None"
  shows "(\<Sum>(k, v) \<leftarrow> al_put k v xs. f k v) = f k v + (\<Sum>(k, v) \<leftarrow> xs. f k v)"
  using assms by (induction k v xs rule: al_put.induct) (auto simp: add.left_commute split: if_splits)

lemma osum_oput_new: "oget m k = None \<Longrightarrow> osum f (oput k v m) = f k v + osum f m"
  unfolding osum_def oentries_eval
  by (rule sum_list_al_put) (simp_all add: om.sorted_entries om.get_entries)

lemma osum_split: "oget m k = Some v \<Longrightarrow> osum f m = f k v + osum f (odel k m)"
proof -
  assume "oget m k = Some v"
  then have "m = oput k v (odel k m)"
    by (intro omap_eqI) auto
  then have "osum f m = osum f (oput k v (odel k m))" by simp
  also have "\<dots> = f k v + osum f (odel k m)"
    by (rule osum_oput_new) simp
  finally show ?thesis .
qed

lemma osum_odel:
  fixes f :: "'k::linorder \<Rightarrow> 'v \<Rightarrow> 'n::ab_group_add"
  shows "osum f (odel k m) = osum f m - (case oget m k of None \<Rightarrow> 0 | Some v \<Rightarrow> f k v)"
  by (cases "oget m k") (simp_all add: om.del_absent osum_split)

lemma osum_oput:
  fixes f :: "'k::linorder \<Rightarrow> 'v \<Rightarrow> 'n::ab_group_add"
  shows "osum f (oput k v m) =
    f k v + osum f m - (case oget m k of None \<Rightarrow> 0 | Some w \<Rightarrow> f k w)"
proof -
  have "oput k v m = oput k v (odel k m)"
    by (intro omap_eqI) simp
  then have "osum f (oput k v m) = f k v + osum f (odel k m)"
    by (metis om.get_del osum_oput_new)
  then show ?thesis by (simp add: osum_odel)
qed

lemma osum_cong: "(\<And>k v. oget m k = Some v \<Longrightarrow> f k v = g k v) \<Longrightarrow> osum f m = osum g m"
  unfolding osum_def
  by (rule arg_cong [where f = sum_list], rule map_cong) (auto simp: om.in_entries_iff)

lemma osum_zero: "(\<And>k v. oget m k = Some v \<Longrightarrow> f k v = 0) \<Longrightarrow> osum f m = 0"
proof -
  assume "\<And>k v. oget m k = Some v \<Longrightarrow> f k v = 0"
  then have "osum f m = osum (\<lambda>_ _. 0) m" by (rule osum_cong)
  then show ?thesis by (simp add: osum_def case_prod_unfold)
qed

lemma osum_add: "osum (\<lambda>k v. f k v + g k v) m = osum f m + osum g m"
  unfolding osum_def by (induction "oentries m") (auto simp: sum_list_addf case_prod_unfold)

text \<open>The same sum over the finite domain, for comparing two maps.\<close>

lemma osum_dom: "osum f m = (\<Sum>k \<in> dom (oget m). f k (the (oget m k)))"
proof -
  have "osum f m = (\<Sum>(k, v) \<in> set (oentries m). f k v)"
    unfolding osum_def
    by (rule sum_list_distinct_conv_sum_set) (rule distinct_map [THEN iffD1, THEN conjunct1, OF om.distinct_entries])
  also have "\<dots> = (\<Sum>k \<in> fst ` set (oentries m). f k (the (oget m k)))"
    by (rule sum.reindex_cong [of fst, symmetric, OF _ refl])
      (auto simp: inj_on_def om.in_entries_iff)
  also have "fst ` set (oentries m) = dom (oget m)"
    by (simp add: om.get_entries dom_map_of_conv_image_fst)
  finally show ?thesis .
qed

lemma osum_map_cong:
  assumes "\<And>k. map_option (f k) (oget m k) = map_option (f k) (oget n k)"
  shows "osum f m = osum f n"
proof -
  have "dom (oget m) = dom (oget n)"
  proof (rule set_eqI)
    fix k
    show "k \<in> dom (oget m) \<longleftrightarrow> k \<in> dom (oget n)"
      using assms [of k] by (cases "oget m k"; cases "oget n k") auto
  qed
  moreover have "f k (the (oget m k)) = f k (the (oget n k))" if "k \<in> dom (oget m)" for k
    using assms [of k] that by (cases "oget m k"; cases "oget n k") auto
  ultimately show ?thesis by (simp add: osum_dom)
qed

lemma osum_nat_le_size:
  "(\<And>k v. f k v \<le> (1::nat)) \<Longrightarrow> osum f m \<le> osize m"
proof -
  assume f: "\<And>k v. f k v \<le> (1::nat)"
  have "(\<Sum>(k, v) \<leftarrow> xs. f k v) \<le> length xs" for xs
  proof (induction xs)
    case (Cons x xs)
    then show ?case using f [of "fst x" "snd x"] by (simp add: case_prod_unfold)
  qed simp
  then show ?thesis by (simp add: osum_def)
qed

text \<open>Deleting a list of keys.\<close>

lemma oget_fold_odel: "oget (fold odel ks m) k = (if k \<in> set ks then None else oget m k)"
  by (induction ks arbitrary: m) auto

end
