(* ===== verification/Meta_Types.thy ===== *)
theory Meta_Types
  imports OMap
begin

text \<open>
  The data of the metadata plane: the rows of \<^verbatim>\<open>pico-metadata/src/state.rs\<close>, the
  commands and results of \<^verbatim>\<open>command.rs\<close> and the errors of \<^verbatim>\<open>error.rs\<close>.
  The record types the code imports from the \<^verbatim>\<open>s3stream\<close> engine (object metadata, offset
  ranges, commit and compaction requests) have the fields with which the command codec and the
  snapshot codec build and take apart every value of them. Errors keep their structured fields; the
  human-readable message texts are left out, no decision of the code reads them.

  Field names carry a prefix for their struct, because HOL record fields share one name space:
  \<open>row_\<close> for \<^verbatim>\<open>StreamRow\<close>, \<open>nr_\<close> for \<^verbatim>\<open>NodeRow\<close>, \<open>obj_\<close> for
  \<^verbatim>\<open>S3ObjectMetadata\<close>, and so on. The fields of \<^verbatim>\<open>MetadataState\<close> keep their
  names.
\<close>

section \<open>Engine types\<close>

datatype stream_state = Closed | Opened

datatype compact_operations = Delete | KeepData | DeepDelete

datatype s3_object_type = StreamSet | StreamOnly

record stream_offset_range =
  rng_stream_id :: u64
  rng_start_offset :: u64
  rng_end_offset :: u64

record s3_object_metadata =
  obj_object_id :: u64
  obj_object_type :: s3_object_type
  obj_offset_ranges :: "stream_offset_range list"
  obj_object_size :: u64
  obj_attributes :: u32
  obj_committed_timestamp_ms :: i64
  obj_data_timestamp_ms :: i64

record stream_metadata =
  sm_stream_id :: u64
  sm_epoch :: u64
  sm_start_offset :: u64
  sm_end_offset :: u64
  sm_state :: stream_state
  sm_node_id :: i32

record object_stream_range =
  osr_stream_id :: u64
  osr_epoch :: u64
  osr_start_offset :: u64
  osr_end_offset :: u64
  osr_size :: u64

record stream_object =
  so_object_id :: u64
  so_object_size :: u64
  so_stream_id :: u64
  so_start_offset :: u64
  so_end_offset :: u64
  so_attributes :: u32

record commit_request =
  cr_object_id :: u64
  cr_object_size :: u64
  cr_attributes :: u32
  cr_stream_ranges :: "object_stream_range list"
  cr_stream_objects :: "stream_object list"
  cr_compacted_object_ids :: "u64 list"

record compact_request =
  kr_object_id :: u64
  kr_object_size :: u64
  kr_stream_id :: u64
  kr_stream_epoch :: u64
  kr_start_offset :: u64
  kr_end_offset :: u64
  kr_source_object_ids :: "u64 list"
  kr_operations :: "compact_operations list"
  kr_attributes :: u32

section \<open>Rows and state\<close>

record stream_row =
  row_stream_id :: u64
  row_epoch :: i64
  row_start_offset :: u64
  row_end_offset :: u64
  row_state :: stream_state
  row_node_id :: i32
  row_stored_bytes :: u64

record node_row =
  nr_node_id :: i32
  nr_epoch :: i64
  nr_http_address :: string
  nr_slots :: u32
  nr_protocol_addresses :: "(string, string) omap"
  nr_wal :: string
  nr_heartbeats :: u64
  nr_fenced :: bool

record pending_transfer =
  pt_from_node :: i32
  pt_to_node :: i32

record stream_set_object_row =
  sso_node_id :: i32
  sso_object :: s3_object_metadata
  sso_range_sizes :: "u64 list"
  sso_last_write_ms :: i64

record stream_object_row =
  sor_object :: s3_object_metadata
  sor_last_write_ms :: i64

record object_span =
  span_start_offset :: u64
  span_end_offset :: u64
  span_bytes :: u64
  span_last_write_ms :: i64

type_synonym stream_offset_key = "u64 \<times> u64 \<times> u64"

record metadata_state =
  next_stream_id :: u64
  streams :: "(u64, stream_row) omap"
  nodes :: "(i32, node_row) omap"
  opening_by_node :: "(i32 \<times> u64, unit) omap"
  placed_by_node :: "(i32 \<times> u64, unit) omap"
  streams_by_node :: "(i32, u64) omap"
  pending_transfers :: "(u64, pending_transfer) omap"
  epochs :: "(u64 \<times> i64, u64) omap"
  next_producer_id :: u64
  next_object_id :: u64
  prepared :: "(u64, i64) omap"
  prepared_by_deadline :: "(i64 \<times> u64, unit) omap"
  stream_set_objects :: "(u64, stream_set_object_row) omap"
  sso_ranges :: "(stream_offset_key, u64 \<times> u64) omap"
  sso_by_node :: "(i32 \<times> u64, unit) omap"
  stream_objects :: "(stream_offset_key, stream_object_row) omap"
  stream_object_ids :: "(u64, stream_offset_key) omap"
  mark_destroyed :: "(u64, u64 \<times> compact_operations) omap"
  destroyed_by_id :: "(u64, u64) omap"
  next_destroyed_seq :: u64
  kv :: "(string, bytes) omap"
  kv_bytes :: u64
  stored_bytes :: u64

text \<open>\<^verbatim>\<open>MetadataState::new\<close>: the derived default, every map empty, every counter 0.\<close>

definition new_state :: metadata_state where
  "new_state =
    \<lparr>next_stream_id = 0, streams = oempty, nodes = oempty, opening_by_node = oempty,
     placed_by_node = oempty, streams_by_node = oempty, pending_transfers = oempty,
     epochs = oempty, next_producer_id = 0, next_object_id = 0, prepared = oempty,
     prepared_by_deadline = oempty, stream_set_objects = oempty, sso_ranges = oempty,
     sso_by_node = oempty, stream_objects = oempty, stream_object_ids = oempty,
     mark_destroyed = oempty, destroyed_by_id = oempty, next_destroyed_seq = 0,
     kv = oempty, kv_bytes = 0, stored_bytes = 0\<rparr>"

text \<open>\<^verbatim>\<open>StreamRow::to_stream_metadata\<close>: the engine sees epoch 0 for a never opened stream.\<close>

definition to_stream_metadata :: "stream_row \<Rightarrow> stream_metadata" where
  "to_stream_metadata r =
    \<lparr>sm_stream_id = row_stream_id r, sm_epoch = sbits (max (row_epoch r) 0),
     sm_start_offset = row_start_offset r, sm_end_offset = row_end_offset r,
     sm_state = row_state r, sm_node_id = row_node_id r\<rparr>"

section \<open>Commands, results, errors\<close>

record proposer =
  prop_node_id :: i32
  prop_node_epoch :: i64

datatype metadata_command =
    RegisterNode i32 i64 string u32 "(string, string) omap" string
  | SetNodeSlots proposer i32 u32
  | Heartbeat proposer
  | FenceNode proposer i32 i64 u64
  | PlaceStream proposer u64 "i32 option"
  | CreateStream proposer
  | OpenStream proposer u64 i64
  | TrimStream proposer u64 i64 u64
  | CloseStream proposer u64 i64
  | DeleteStream proposer u64 i64
  | PrepareObject proposer u32 i64 i64
  | CommitStreamSetObject proposer commit_request i64
  | CompactStreamObject proposer compact_request i64
  | ExpirePreparedObjects proposer i64
  | CleanDestroyedObjects proposer "u64 list"
  | PutKv proposer string bytes
  | PutKvIfAbsent proposer string bytes
  | DeleteKv proposer string
  | DeleteKvIfMatches proposer string bytes
  | PutKvIfMatches proposer string bytes bytes
  | TransferStream proposer u64 i32 i32
  | CompleteTransfer proposer u64 i64
  | CreateStreams proposer u32
  | AllocateProducerIds proposer u32

fun command_proposer :: "metadata_command \<Rightarrow> proposer option" where
  "command_proposer (RegisterNode _ _ _ _ _ _) = None"
| "command_proposer (SetNodeSlots p _ _) = Some p"
| "command_proposer (Heartbeat p) = Some p"
| "command_proposer (FenceNode p _ _ _) = Some p"
| "command_proposer (PlaceStream p _ _) = Some p"
| "command_proposer (CreateStream p) = Some p"
| "command_proposer (OpenStream p _ _) = Some p"
| "command_proposer (TrimStream p _ _ _) = Some p"
| "command_proposer (CloseStream p _ _) = Some p"
| "command_proposer (DeleteStream p _ _) = Some p"
| "command_proposer (PrepareObject p _ _ _) = Some p"
| "command_proposer (CommitStreamSetObject p _ _) = Some p"
| "command_proposer (CompactStreamObject p _ _) = Some p"
| "command_proposer (ExpirePreparedObjects p _) = Some p"
| "command_proposer (CleanDestroyedObjects p _) = Some p"
| "command_proposer (PutKv p _ _) = Some p"
| "command_proposer (PutKvIfAbsent p _ _) = Some p"
| "command_proposer (DeleteKv p _) = Some p"
| "command_proposer (DeleteKvIfMatches p _ _) = Some p"
| "command_proposer (PutKvIfMatches p _ _ _) = Some p"
| "command_proposer (TransferStream p _ _ _) = Some p"
| "command_proposer (CompleteTransfer p _ _) = Some p"
| "command_proposer (CreateStreams p _) = Some p"
| "command_proposer (AllocateProducerIds p _) = Some p"

fun type_code :: "metadata_command \<Rightarrow> u8" where
  "type_code (CreateStream _) = 1"
| "type_code (OpenStream _ _ _) = 2"
| "type_code (TrimStream _ _ _ _) = 3"
| "type_code (CloseStream _ _ _) = 4"
| "type_code (DeleteStream _ _ _) = 5"
| "type_code (PrepareObject _ _ _ _) = 6"
| "type_code (CommitStreamSetObject _ _ _) = 7"
| "type_code (CompactStreamObject _ _ _) = 8"
| "type_code (ExpirePreparedObjects _ _) = 9"
| "type_code (RegisterNode _ _ _ _ _ _) = 10"
| "type_code (CleanDestroyedObjects _ _) = 11"
| "type_code (PutKv _ _ _) = 12"
| "type_code (PutKvIfAbsent _ _ _) = 13"
| "type_code (DeleteKv _ _) = 14"
| "type_code (TransferStream _ _ _ _) = 15"
| "type_code (CompleteTransfer _ _ _) = 16"
| "type_code (CreateStreams _ _) = 17"
| "type_code (PlaceStream _ _ _) = 18"
| "type_code (DeleteKvIfMatches _ _ _) = 19"
| "type_code (AllocateProducerIds _ _) = 20"
| "type_code (PutKvIfMatches _ _ _ _) = 21"
| "type_code (Heartbeat _) = 22"
| "type_code (FenceNode _ _ _ _) = 23"
| "type_code (SetNodeSlots _ _ _) = 24"

datatype metadata_result =
    ResUnit
  | ResId u64
  | ResCount u64
  | ResStream stream_metadata
  | ResValue "bytes option"

datatype metadata_error =
    StreamNotExist u64
  | StreamNotClosed u64
  | StreamFenced u64 i64
  | ExpiredEpoch u64 i64
  | NodeEpochMismatch i32
  | Redundant
  | NoLiveNode
  | Unavailable
  | Unexpected

fun error_code :: "metadata_error \<Rightarrow> u8" where
  "error_code (StreamNotExist _) = 1"
| "error_code (StreamNotClosed _) = 2"
| "error_code (StreamFenced _ _) = 3"
| "error_code (ExpiredEpoch _ _) = 4"
| "error_code (NodeEpochMismatch _) = 5"
| "error_code Redundant = 6"
| "error_code NoLiveNode = 7"
| "error_code Unavailable = 8"
| "error_code Unexpected = 99"

definition is_redundant :: "metadata_error \<Rightarrow> bool" where
  "is_redundant e \<longleftrightarrow> e = Redundant"

datatype stream_error =
    EngineNotExist u64
  | EngineFenced u64 u64
  | EngineUnexpected

fun to_stream_error :: "metadata_error \<Rightarrow> stream_error" where
  "to_stream_error (StreamNotExist s) = EngineNotExist s"
| "to_stream_error (StreamFenced s e) = EngineFenced s (sbits (max e 0))"
| "to_stream_error (ExpiredEpoch s e) = EngineFenced s (sbits (max e 0))"
| "to_stream_error _ = EngineUnexpected"

end
