(* ===== verification/Meta_State.thy ===== *)
theory Meta_State
  imports Meta_Types
begin

text \<open>
  The primitive updates of \<^verbatim>\<open>pico-metadata/src/state.rs\<close>: each changes a primary map
  together with the secondary indexes and byte counters derived from it. The bodies follow the
  methods of \<^verbatim>\<open>impl MetadataState\<close>, in the order the code has them.
\<close>

section \<open>Stream rows and the node indexes\<close>

definition index_row :: "metadata_state \<Rightarrow> stream_row \<Rightarrow> metadata_state" where
  "index_row st row =
    (let key = (row_node_id row, row_stream_id row);
         bump = (\<lambda>st. st\<lparr>streams_by_node :=
           oput (row_node_id row)
             ((case oget (streams_by_node st) (row_node_id row) of None \<Rightarrow> 0 | Some count \<Rightarrow> count) + 1)
             (streams_by_node st)\<rparr>)
     in case row_state row of
          Opened \<Rightarrow> bump (st\<lparr>opening_by_node := oput key () (opening_by_node st)\<rparr>)
        | Closed \<Rightarrow>
            if row_node_id row \<noteq> - 1
            then bump (st\<lparr>placed_by_node := oput key () (placed_by_node st)\<rparr>)
            else st)"

definition unindex_row :: "metadata_state \<Rightarrow> stream_row \<Rightarrow> metadata_state" where
  "unindex_row st row =
    (let key = (row_node_id row, row_stream_id row);
         opened = ohas (opening_by_node st) key;
         placed = ohas (placed_by_node st) key;
         st = st\<lparr>opening_by_node := odel key (opening_by_node st),
                placed_by_node := odel key (placed_by_node st)\<rparr>
     in if \<not> opened \<and> \<not> placed then st
        else case oget (streams_by_node st) (row_node_id row) of
            Some count \<Rightarrow>
              if count > 1
              then st\<lparr>streams_by_node := oput (row_node_id row) (count - 1) (streams_by_node st)\<rparr>
              else st\<lparr>streams_by_node := odel (row_node_id row) (streams_by_node st)\<rparr>
          | None \<Rightarrow> st\<lparr>streams_by_node := odel (row_node_id row) (streams_by_node st)\<rparr>)"

definition put_stream :: "metadata_state \<Rightarrow> stream_row \<Rightarrow> metadata_state" where
  "put_stream st row =
    (let stored = (case oget (streams st) (row_stream_id row) of
                     None \<Rightarrow> 0 | Some current \<Rightarrow> row_stored_bytes current);
         row = row\<lparr>row_stored_bytes := stored\<rparr>;
         previous = oget (streams st) (row_stream_id row);
         st = st\<lparr>streams := oput (row_stream_id row) row (streams st)\<rparr>
     in case previous of
          None \<Rightarrow> index_row st row
        | Some previous \<Rightarrow>
            if (row_state previous, row_node_id previous) = (row_state row, row_node_id row)
            then st
            else index_row (unindex_row st previous) row)"

definition remove_stream :: "metadata_state \<Rightarrow> u64 \<Rightarrow> metadata_state" where
  "remove_stream st stream_id =
    (case oget (streams st) stream_id of
       None \<Rightarrow> st
     | Some previous \<Rightarrow>
         unindex_row (st\<lparr>streams := odel stream_id (streams st)\<rparr>) previous)"

section \<open>Prepared object ids\<close>

definition put_prepared :: "metadata_state \<Rightarrow> u64 \<Rightarrow> i64 \<Rightarrow> metadata_state" where
  "put_prepared st object_id deadline =
    st\<lparr>prepared := oput object_id deadline (prepared st),
       prepared_by_deadline := oput (deadline, object_id) () (prepared_by_deadline st)\<rparr>"

definition remove_prepared :: "metadata_state \<Rightarrow> u64 \<Rightarrow> metadata_state" where
  "remove_prepared st object_id =
    (case oget (prepared st) object_id of
       None \<Rightarrow> st
     | Some deadline \<Rightarrow>
         st\<lparr>prepared := odel object_id (prepared st),
            prepared_by_deadline := odel (deadline, object_id) (prepared_by_deadline st)\<rparr>)"

section \<open>Committed objects and stored bytes\<close>

definition add_stream_bytes :: "metadata_state \<Rightarrow> u64 \<Rightarrow> u64 \<Rightarrow> metadata_state" where
  "add_stream_bytes st stream_id bs =
    (case oget (streams st) stream_id of
       None \<Rightarrow> st
     | Some row \<Rightarrow>
         st\<lparr>streams := oput stream_id (row\<lparr>row_stored_bytes := row_stored_bytes row + bs\<rparr>)
                        (streams st)\<rparr>)"

definition remove_stream_bytes :: "metadata_state \<Rightarrow> u64 \<Rightarrow> u64 \<Rightarrow> metadata_state" where
  "remove_stream_bytes st stream_id bs =
    (case oget (streams st) stream_id of
       None \<Rightarrow> st
     | Some row \<Rightarrow>
         st\<lparr>streams := oput stream_id (row\<lparr>row_stored_bytes := row_stored_bytes row - bs\<rparr>)
                        (streams st)\<rparr>)"

definition remove_stream_set_object :: "metadata_state \<Rightarrow> u64 \<Rightarrow> metadata_state" where
  "remove_stream_set_object st object_id =
    (case oget (stream_set_objects st) object_id of
       None \<Rightarrow> st
     | Some row \<Rightarrow>
         (let st = st\<lparr>stream_set_objects := odel object_id (stream_set_objects st)\<rparr>;
              st = fold (\<lambda>(range, size) st.
                     remove_stream_bytes
                       (st\<lparr>sso_ranges :=
                          odel (rng_stream_id range, rng_start_offset range, object_id)
                            (sso_ranges st)\<rparr>)
                       (rng_stream_id range) size)
                   (zip (obj_offset_ranges (sso_object row)) (sso_range_sizes row)) st
          in st\<lparr>stored_bytes := stored_bytes st - obj_object_size (sso_object row),
                sso_by_node := odel (sso_node_id row, object_id) (sso_by_node st)\<rparr>))"

definition put_stream_set_object :: "metadata_state \<Rightarrow> stream_set_object_row \<Rightarrow> metadata_state" where
  "put_stream_set_object st row =
    (let object_id = obj_object_id (sso_object row);
         st = remove_stream_set_object st object_id;
         st = fold (\<lambda>(range, size) st.
                add_stream_bytes
                  (st\<lparr>sso_ranges :=
                     oput (rng_stream_id range, rng_start_offset range, object_id)
                       (rng_end_offset range, size) (sso_ranges st)\<rparr>)
                  (rng_stream_id range) size)
              (zip (obj_offset_ranges (sso_object row)) (sso_range_sizes row)) st
     in st\<lparr>stored_bytes := stored_bytes st + obj_object_size (sso_object row),
           sso_by_node := oput (sso_node_id row, object_id) () (sso_by_node st),
           stream_set_objects := oput object_id row (stream_set_objects st)\<rparr>)"

definition remove_stream_object :: "metadata_state \<Rightarrow> u64 \<Rightarrow> metadata_state" where
  "remove_stream_object st object_id =
    (case oget (stream_object_ids st) object_id of
       None \<Rightarrow> st
     | Some key \<Rightarrow>
         (let st = st\<lparr>stream_object_ids := odel object_id (stream_object_ids st)\<rparr>
          in case oget (stream_objects st) key of
               None \<Rightarrow> st
             | Some row \<Rightarrow>
                 (let st = st\<lparr>stream_objects := odel key (stream_objects st)\<rparr>;
                      st = remove_stream_bytes st (fst key) (obj_object_size (sor_object row))
                  in st\<lparr>stored_bytes := stored_bytes st - obj_object_size (sor_object row)\<rparr>)))"

text \<open>
  \<^verbatim>\<open>offset_ranges[0]\<close> would panic on an empty list; the invariant below shows that every
  stream object has exactly one range, so the head is always there.
\<close>

definition first_range :: "s3_object_metadata \<Rightarrow> stream_offset_range" where
  "first_range object = hd (obj_offset_ranges object)"

definition put_stream_object :: "metadata_state \<Rightarrow> stream_object_row \<Rightarrow> metadata_state" where
  "put_stream_object st row =
    (let object_id = obj_object_id (sor_object row);
         st = remove_stream_object st object_id;
         range = first_range (sor_object row);
         key = (rng_stream_id range, rng_start_offset range, object_id);
         st = add_stream_bytes st (rng_stream_id range) (obj_object_size (sor_object row))
     in st\<lparr>stored_bytes := stored_bytes st + obj_object_size (sor_object row),
           stream_object_ids := oput object_id key (stream_object_ids st),
           stream_objects := oput key row (stream_objects st)\<rparr>)"

section \<open>The destruction queue and the key-value store\<close>

definition put_destroyed :: "metadata_state \<Rightarrow> u64 \<Rightarrow> u64 \<Rightarrow> compact_operations \<Rightarrow> metadata_state" where
  "put_destroyed st seq object_id op =
    st\<lparr>mark_destroyed := oput seq (object_id, op) (mark_destroyed st),
       destroyed_by_id := oput object_id seq (destroyed_by_id st)\<rparr>"

definition remove_destroyed :: "metadata_state \<Rightarrow> u64 \<Rightarrow> metadata_state" where
  "remove_destroyed st object_id =
    (case oget (destroyed_by_id st) object_id of
       None \<Rightarrow> st
     | Some seq \<Rightarrow>
         st\<lparr>destroyed_by_id := odel object_id (destroyed_by_id st),
            mark_destroyed := odel seq (mark_destroyed st)\<rparr>)"

definition put_kv_row :: "metadata_state \<Rightarrow> string \<Rightarrow> bytes \<Rightarrow> metadata_state" where
  "put_kv_row st key v =
    (let total = kv_bytes st + of_nat (length key + length v);
         old = oget (kv st) key
     in st\<lparr>kv := oput key v (kv st),
           kv_bytes := (case old of None \<Rightarrow> total
                        | Some old \<Rightarrow> total - of_nat (length key + length old))\<rparr>)"

definition remove_kv_row :: "metadata_state \<Rightarrow> string \<Rightarrow> metadata_state \<times> bytes option" where
  "remove_kv_row st key =
    (case oget (kv st) key of
       None \<Rightarrow> (st, None)
     | Some old \<Rightarrow>
         (st\<lparr>kv := odel key (kv st),
             kv_bytes := kv_bytes st - of_nat (length key + length old)\<rparr>, Some old))"

end
