(* ===== verification/Meta_Inv.thy ===== *)
theory Meta_Inv
  imports Meta_State
begin

text \<open>
  The invariant that ties the secondary indexes and byte counters of \<^verbatim>\<open>MetadataState\<close>
  to its primary maps, and that every primitive update of \<^verbatim>\<open>state.rs\<close> preserves it.
  The invariant also determines every derived field, which is what makes a snapshot that stores
  the primary maps only enough to restore the state.
\<close>

section \<open>Node indexes\<close>

text \<open>A row counts for a node when it is opened there, or closed but placed there.\<close>

definition indexed :: "i32 \<Rightarrow> stream_row \<Rightarrow> bool" where
  "indexed n r \<longleftrightarrow> row_node_id r = n \<and> (row_state r = Opened \<or> row_node_id r \<noteq> - 1)"

definition load :: "(u64, stream_row) omap \<Rightarrow> i32 \<Rightarrow> nat" where
  "load m n = osum (\<lambda>_ r. if indexed n r then 1 else 0) m"

definition idx_ok :: "(u64, stream_row) omap \<Rightarrow> (i32 \<times> u64, unit) omap \<Rightarrow> (i32 \<times> u64, unit) omap
    \<Rightarrow> (i32, u64) omap \<Rightarrow> bool" where
  "idx_ok m op pl bn \<longleftrightarrow>
    (\<forall>s r. oget m s = Some r \<longrightarrow> row_stream_id r = s) \<and>
    (\<forall>n s. ohas op (n, s) \<longleftrightarrow> (\<exists>r. oget m s = Some r \<and> row_node_id r = n \<and> row_state r = Opened)) \<and>
    (\<forall>n s. ohas pl (n, s) \<longleftrightarrow>
       (\<exists>r. oget m s = Some r \<and> row_node_id r = n \<and> row_state r = Closed \<and> n \<noteq> - 1)) \<and>
    (\<forall>n. oget bn n = (if load m n = 0 then None else Some (of_nat (load m n))))"

lemma load_oempty [simp]: "load oempty n = 0"
  by (simp add: load_def)

lemma load_put_new:
  "oget m s = None \<Longrightarrow> load (oput s r m) n = (if indexed n r then 1 else 0) + load m n"
  by (simp add: load_def osum_oput_new)

lemma load_del:
  "oget m s = Some r \<Longrightarrow> load m n = (if indexed n r then 1 else 0) + load (odel s m) n"
  unfolding load_def by (rule osum_split)

lemma load_le_size: "load m n \<le> osize m"
  unfolding load_def by (rule osum_nat_le_size) simp

text \<open>A map whose keys all lie below a word has fewer than $2^{64}$ entries.\<close>

lemma osize_below:
  fixes m :: "(u64, 'v) omap"
  assumes "\<And>s r. oget m s = Some r \<Longrightarrow> s < b"
  shows "osize m \<le> unat b"
proof -
  have "osize m = card (set (okeys m))"
    using distinct_card [OF om.distinct_entries [of m]] by simp
  also have "\<dots> = card (unat ` set (okeys m))"
    by (intro card_image [symmetric] inj_onI) (rule unsigned_word_eqI)
  also have "\<dots> \<le> card {..<unat b}"
    using assms by (intro card_mono) (auto simp: om.in_entries_iff word_less_nat_alt)
  finally show ?thesis by simp
qed

lemma load_below:
  assumes "\<And>s r. oget m s = Some r \<Longrightarrow> s < b"
  shows "load m n \<le> unat b"
  using load_le_size [of m n] osize_below [of m b] assms by (metis le_trans)

lemma idx_ok_index:
  assumes ok: "idx_ok (odel s m) (opening_by_node st) (placed_by_node st) (streams_by_node st)"
    and s: "row_stream_id row = s"
  shows "idx_ok (oput s row m) (opening_by_node (index_row st row))
    (placed_by_node (index_row st row)) (streams_by_node (index_row st row))"
proof -
  have m: "oput s row m = oput s row (odel s m)"
    by (rule omap_eqI) simp
  have l: "load (oput s row (odel s m)) n = (if indexed n row then 1 else 0) + load (odel s m) n" for n
    by (rule load_put_new) simp
  show ?thesis
    using ok s unfolding m idx_ok_def l
    by (auto simp: index_row_def Let_def indexed_def split: stream_state.splits if_splits)
qed

lemma word_count_gt_1:
  assumes "c \<le> unat (b :: u64)"
  shows "(1 :: u64) < of_nat c \<longleftrightarrow> 1 < c"
  using assms by (simp add: word_less_nat_alt unat_of_nat_le_unat)

lemma idx_ok_unindex:
  assumes ok: "idx_ok m (opening_by_node st) (placed_by_node st) (streams_by_node st)"
    and s: "oget m s = Some row" and small: "\<And>n. load m n \<le> unat (b :: u64)"
  shows "idx_ok (odel s m) (opening_by_node (unindex_row st row))
    (placed_by_node (unindex_row st row)) (streams_by_node (unindex_row st row))"
proof -
  let ?n = "row_node_id row"
  have id: "row_stream_id row = s"
    using ok s by (auto simp: idx_ok_def)
  have was: "ohas (opening_by_node st) (?n, s) \<or> ohas (placed_by_node st) (?n, s) \<longleftrightarrow> indexed ?n row"
    using ok s by (auto simp: idx_ok_def indexed_def intro: stream_state.exhaust [of "row_state row"])
  have l: "load m n = (if indexed n row then 1 else 0) + load (odel s m) n" for n
    by (rule load_del) (rule s)
  have other: "n \<noteq> ?n \<Longrightarrow> load m n = load (odel s m) n" for n
    using l [of n] by (simp add: indexed_def)
  have bn: "oget (streams_by_node st) n = (if load m n = 0 then None else Some (of_nat (load m n)))" for n
    using ok by (simp add: idx_ok_def)
  have "oget (streams_by_node (unindex_row st row)) n =
      (if load (odel s m) n = 0 then None else Some (of_nat (load (odel s m) n)))" for n
  proof (cases "indexed ?n row")
    case False
    then have "load m k = load (odel s m) k" for k
      using l [of k] by (auto simp: indexed_def)
    with False was id bn show ?thesis
      by (auto simp: unindex_row_def Let_def)
  next
    case True
    then have "load m ?n = Suc (load (odel s m) ?n)"
      using l [of ?n] by simp
    with True was id bn other word_count_gt_1 [OF small, of ?n] show ?thesis
      by (auto simp: unindex_row_def Let_def)
  qed
  with ok s id show ?thesis
    unfolding idx_ok_def by (auto simp: unindex_row_def Let_def split: option.splits)
qed

section \<open>The invariant\<close>

definition inv_streams :: "metadata_state \<Rightarrow> bool" where
  "inv_streams st \<longleftrightarrow>
    idx_ok (streams st) (opening_by_node st) (placed_by_node st) (streams_by_node st) \<and>
    (\<forall>s r. oget (streams st) s = Some r \<longrightarrow> s < next_stream_id st)"

definition inv_nodes :: "metadata_state \<Rightarrow> bool" where
  "inv_nodes st \<longleftrightarrow> (\<forall>n r. oget (nodes st) n = Some r \<longrightarrow> nr_node_id r = n)"

definition inv_prepared :: "metadata_state \<Rightarrow> bool" where
  "inv_prepared st \<longleftrightarrow>
    (\<forall>d i. ohas (prepared_by_deadline st) (d, i) \<longleftrightarrow> oget (prepared st) i = Some d) \<and>
    (\<forall>i d. oget (prepared st) i = Some d \<longrightarrow> i < next_object_id st)"

definition range_rows :: "stream_set_object_row \<Rightarrow> (stream_offset_range \<times> u64) list" where
  "range_rows row = zip (obj_offset_ranges (sso_object row)) (sso_range_sizes row)"

definition range_map :: "u64 \<Rightarrow> stream_set_object_row \<Rightarrow> (stream_offset_key \<times> (u64 \<times> u64)) list" where
  "range_map i row =
    map (\<lambda>(r, z). ((rng_stream_id r, rng_start_offset r, i), (rng_end_offset r, z))) (range_rows row)"

definition inv_sso :: "metadata_state \<Rightarrow> bool" where
  "inv_sso st \<longleftrightarrow>
    (\<forall>i row. oget (stream_set_objects st) i = Some row \<longrightarrow>
       obj_object_id (sso_object row) = i \<and>
       length (sso_range_sizes row) = length (obj_offset_ranges (sso_object row)) \<and>
       (\<forall>r \<in> set (obj_offset_ranges (sso_object row)). rng_stream_id r < next_stream_id st)) \<and>
    (\<forall>n i. ohas (sso_by_node st) (n, i) \<longleftrightarrow>
       (\<exists>row. oget (stream_set_objects st) i = Some row \<and> sso_node_id row = n)) \<and>
    (\<forall>s off i. oget (sso_ranges st) (s, off, i) =
       (case oget (stream_set_objects st) i of None \<Rightarrow> None
        | Some row \<Rightarrow> map_of (rev (range_map i row)) (s, off, i)))"

definition so_key :: "stream_object_row \<Rightarrow> stream_offset_key" where
  "so_key row =
    (rng_stream_id (first_range (sor_object row)), rng_start_offset (first_range (sor_object row)),
     obj_object_id (sor_object row))"

definition inv_so :: "metadata_state \<Rightarrow> bool" where
  "inv_so st \<longleftrightarrow>
    (\<forall>k row. oget (stream_objects st) k = Some row \<longrightarrow>
       length (obj_offset_ranges (sor_object row)) = 1 \<and> so_key row = k \<and>
       oget (stream_object_ids st) (snd (snd k)) = Some k \<and> fst k < next_stream_id st) \<and>
    (\<forall>i k. oget (stream_object_ids st) i = Some k \<longrightarrow>
       snd (snd k) = i \<and> ohas (stream_objects st) k)"

definition inv_disjoint :: "metadata_state \<Rightarrow> bool" where
  "inv_disjoint st \<longleftrightarrow> (\<forall>i. \<not> (ohas (stream_set_objects st) i \<and> ohas (stream_object_ids st) i))"

definition inv_destroyed :: "metadata_state \<Rightarrow> bool" where
  "inv_destroyed st \<longleftrightarrow>
    (\<forall>i q. oget (destroyed_by_id st) i = Some q \<longleftrightarrow>
       (\<exists>op. oget (mark_destroyed st) q = Some (i, op))) \<and>
    (\<forall>q e. oget (mark_destroyed st) q = Some e \<longrightarrow> q < next_destroyed_seq st)"

text \<open>Bytes of one stream and of all objects, in 64-bit arithmetic.\<close>

definition sso_stream_bytes :: "u64 \<Rightarrow> stream_set_object_row \<Rightarrow> u64" where
  "sso_stream_bytes s row =
    (\<Sum>(r, z) \<leftarrow> range_rows row. if rng_stream_id r = s then z else 0)"

definition stream_bytes :: "metadata_state \<Rightarrow> u64 \<Rightarrow> u64" where
  "stream_bytes st s =
    osum (\<lambda>_ row. sso_stream_bytes s row) (stream_set_objects st) +
    osum (\<lambda>k row. if fst k = s then obj_object_size (sor_object row) else 0) (stream_objects st)"

definition total_bytes :: "metadata_state \<Rightarrow> u64" where
  "total_bytes st =
    osum (\<lambda>_ row. obj_object_size (sso_object row)) (stream_set_objects st) +
    osum (\<lambda>_ row. obj_object_size (sor_object row)) (stream_objects st)"

definition inv_bytes :: "metadata_state \<Rightarrow> bool" where
  "inv_bytes st \<longleftrightarrow>
    (\<forall>s r. oget (streams st) s = Some r \<longrightarrow> row_stored_bytes r = stream_bytes st s) \<and>
    stored_bytes st = total_bytes st"

definition inv_kv :: "metadata_state \<Rightarrow> bool" where
  "inv_kv st \<longleftrightarrow> kv_bytes st = osum (\<lambda>k v. of_nat (length k + length v)) (kv st)"

definition meta_inv :: "metadata_state \<Rightarrow> bool" where
  "meta_inv st \<longleftrightarrow>
    inv_streams st \<and> inv_nodes st \<and> inv_prepared st \<and> inv_sso st \<and> inv_so st \<and>
    inv_disjoint st \<and> inv_destroyed st \<and> inv_bytes st \<and> inv_kv st"

lemmas meta_inv_defs = inv_nodes_def inv_prepared_def inv_sso_def inv_so_def inv_disjoint_def
  inv_destroyed_def inv_bytes_def inv_kv_def stream_bytes_def total_bytes_def

lemma meta_inv_new: "meta_inv new_state"
  by (simp add: meta_inv_def inv_streams_def idx_ok_def meta_inv_defs new_state_def)

section \<open>Stream rows\<close>

lemma index_row_frame:
  "index_row st row = st\<lparr>opening_by_node := opening_by_node (index_row st row),
     placed_by_node := placed_by_node (index_row st row),
     streams_by_node := streams_by_node (index_row st row)\<rparr>"
  by (simp add: index_row_def Let_def split: stream_state.split)

lemma unindex_row_frame:
  "unindex_row st row = st\<lparr>opening_by_node := opening_by_node (unindex_row st row),
     placed_by_node := placed_by_node (unindex_row st row),
     streams_by_node := streams_by_node (unindex_row st row)\<rparr>"
  by (simp add: unindex_row_def Let_def split: option.split)

lemmas index_row_sels [simp] =
  index_row_frame [THEN arg_cong [where f = next_stream_id], simplified]
  index_row_frame [THEN arg_cong [where f = streams], simplified]
  index_row_frame [THEN arg_cong [where f = nodes], simplified]
  index_row_frame [THEN arg_cong [where f = pending_transfers], simplified]
  index_row_frame [THEN arg_cong [where f = epochs], simplified]
  index_row_frame [THEN arg_cong [where f = next_producer_id], simplified]
  index_row_frame [THEN arg_cong [where f = next_object_id], simplified]
  index_row_frame [THEN arg_cong [where f = prepared], simplified]
  index_row_frame [THEN arg_cong [where f = prepared_by_deadline], simplified]
  index_row_frame [THEN arg_cong [where f = stream_set_objects], simplified]
  index_row_frame [THEN arg_cong [where f = sso_ranges], simplified]
  index_row_frame [THEN arg_cong [where f = sso_by_node], simplified]
  index_row_frame [THEN arg_cong [where f = stream_objects], simplified]
  index_row_frame [THEN arg_cong [where f = stream_object_ids], simplified]
  index_row_frame [THEN arg_cong [where f = mark_destroyed], simplified]
  index_row_frame [THEN arg_cong [where f = destroyed_by_id], simplified]
  index_row_frame [THEN arg_cong [where f = next_destroyed_seq], simplified]
  index_row_frame [THEN arg_cong [where f = kv], simplified]
  index_row_frame [THEN arg_cong [where f = kv_bytes], simplified]
  index_row_frame [THEN arg_cong [where f = stored_bytes], simplified]

lemmas unindex_row_sels [simp] =
  unindex_row_frame [THEN arg_cong [where f = next_stream_id], simplified]
  unindex_row_frame [THEN arg_cong [where f = streams], simplified]
  unindex_row_frame [THEN arg_cong [where f = nodes], simplified]
  unindex_row_frame [THEN arg_cong [where f = pending_transfers], simplified]
  unindex_row_frame [THEN arg_cong [where f = epochs], simplified]
  unindex_row_frame [THEN arg_cong [where f = next_producer_id], simplified]
  unindex_row_frame [THEN arg_cong [where f = next_object_id], simplified]
  unindex_row_frame [THEN arg_cong [where f = prepared], simplified]
  unindex_row_frame [THEN arg_cong [where f = prepared_by_deadline], simplified]
  unindex_row_frame [THEN arg_cong [where f = stream_set_objects], simplified]
  unindex_row_frame [THEN arg_cong [where f = sso_ranges], simplified]
  unindex_row_frame [THEN arg_cong [where f = sso_by_node], simplified]
  unindex_row_frame [THEN arg_cong [where f = stream_objects], simplified]
  unindex_row_frame [THEN arg_cong [where f = stream_object_ids], simplified]
  unindex_row_frame [THEN arg_cong [where f = mark_destroyed], simplified]
  unindex_row_frame [THEN arg_cong [where f = destroyed_by_id], simplified]
  unindex_row_frame [THEN arg_cong [where f = next_destroyed_seq], simplified]
  unindex_row_frame [THEN arg_cong [where f = kv], simplified]
  unindex_row_frame [THEN arg_cong [where f = kv_bytes], simplified]
  unindex_row_frame [THEN arg_cong [where f = stored_bytes], simplified]

text \<open>What \<^const>\<open>put_stream\<close> stores: the given row with the byte count already recorded.\<close>

definition stored_row :: "metadata_state \<Rightarrow> stream_row \<Rightarrow> stream_row" where
  "stored_row st row = row\<lparr>row_stored_bytes :=
     (case oget (streams st) (row_stream_id row) of None \<Rightarrow> 0 | Some r \<Rightarrow> row_stored_bytes r)\<rparr>"

lemma put_stream_frame:
  "put_stream st row = st\<lparr>streams := oput (row_stream_id row) (stored_row st row) (streams st),
     opening_by_node := opening_by_node (put_stream st row),
     placed_by_node := placed_by_node (put_stream st row),
     streams_by_node := streams_by_node (put_stream st row)\<rparr>"
  by (rule metadata_state.equality)
    (simp_all add: put_stream_def stored_row_def Let_def split: option.split)

lemma remove_stream_frame:
  "remove_stream st s = st\<lparr>streams := odel s (streams st),
     opening_by_node := opening_by_node (remove_stream st s),
     placed_by_node := placed_by_node (remove_stream st s),
     streams_by_node := streams_by_node (remove_stream st s)\<rparr>"
  by (rule metadata_state.equality)
    (simp_all add: remove_stream_def om.del_absent split: option.split)

lemmas put_stream_sels [simp] =
  put_stream_frame [THEN arg_cong [where f = next_stream_id], simplified]
  put_stream_frame [THEN arg_cong [where f = streams], simplified]
  put_stream_frame [THEN arg_cong [where f = nodes], simplified]
  put_stream_frame [THEN arg_cong [where f = pending_transfers], simplified]
  put_stream_frame [THEN arg_cong [where f = epochs], simplified]
  put_stream_frame [THEN arg_cong [where f = next_producer_id], simplified]
  put_stream_frame [THEN arg_cong [where f = next_object_id], simplified]
  put_stream_frame [THEN arg_cong [where f = prepared], simplified]
  put_stream_frame [THEN arg_cong [where f = prepared_by_deadline], simplified]
  put_stream_frame [THEN arg_cong [where f = stream_set_objects], simplified]
  put_stream_frame [THEN arg_cong [where f = sso_ranges], simplified]
  put_stream_frame [THEN arg_cong [where f = sso_by_node], simplified]
  put_stream_frame [THEN arg_cong [where f = stream_objects], simplified]
  put_stream_frame [THEN arg_cong [where f = stream_object_ids], simplified]
  put_stream_frame [THEN arg_cong [where f = mark_destroyed], simplified]
  put_stream_frame [THEN arg_cong [where f = destroyed_by_id], simplified]
  put_stream_frame [THEN arg_cong [where f = next_destroyed_seq], simplified]
  put_stream_frame [THEN arg_cong [where f = kv], simplified]
  put_stream_frame [THEN arg_cong [where f = kv_bytes], simplified]
  put_stream_frame [THEN arg_cong [where f = stored_bytes], simplified]

lemmas remove_stream_sels [simp] =
  remove_stream_frame [THEN arg_cong [where f = next_stream_id], simplified]
  remove_stream_frame [THEN arg_cong [where f = streams], simplified]
  remove_stream_frame [THEN arg_cong [where f = nodes], simplified]
  remove_stream_frame [THEN arg_cong [where f = pending_transfers], simplified]
  remove_stream_frame [THEN arg_cong [where f = epochs], simplified]
  remove_stream_frame [THEN arg_cong [where f = next_producer_id], simplified]
  remove_stream_frame [THEN arg_cong [where f = next_object_id], simplified]
  remove_stream_frame [THEN arg_cong [where f = prepared], simplified]
  remove_stream_frame [THEN arg_cong [where f = prepared_by_deadline], simplified]
  remove_stream_frame [THEN arg_cong [where f = stream_set_objects], simplified]
  remove_stream_frame [THEN arg_cong [where f = sso_ranges], simplified]
  remove_stream_frame [THEN arg_cong [where f = sso_by_node], simplified]
  remove_stream_frame [THEN arg_cong [where f = stream_objects], simplified]
  remove_stream_frame [THEN arg_cong [where f = stream_object_ids], simplified]
  remove_stream_frame [THEN arg_cong [where f = mark_destroyed], simplified]
  remove_stream_frame [THEN arg_cong [where f = destroyed_by_id], simplified]
  remove_stream_frame [THEN arg_cong [where f = next_destroyed_seq], simplified]
  remove_stream_frame [THEN arg_cong [where f = kv], simplified]
  remove_stream_frame [THEN arg_cong [where f = kv_bytes], simplified]
  remove_stream_frame [THEN arg_cong [where f = stored_bytes], simplified]

lemma stored_row_sels [simp]:
  "row_stream_id (stored_row st r) = row_stream_id r" "row_epoch (stored_row st r) = row_epoch r"
  "row_start_offset (stored_row st r) = row_start_offset r"
  "row_end_offset (stored_row st r) = row_end_offset r"
  "row_state (stored_row st r) = row_state r" "row_node_id (stored_row st r) = row_node_id r"
  by (simp_all add: stored_row_def)

lemma idx_ok_cong:
  assumes "\<And>s. map_option (\<lambda>r. (row_stream_id r, row_state r, row_node_id r)) (oget m s) =
      map_option (\<lambda>r. (row_stream_id r, row_state r, row_node_id r)) (oget m' s)"
  shows "idx_ok m op pl bn = idx_ok m' op pl bn"
proof -
  have l: "load m n = load m' n" for n
    unfolding load_def
  proof (rule osum_map_cong)
    fix s
    show "map_option (\<lambda>r. if indexed n r then 1 else 0) (oget m s) =
        map_option (\<lambda>r. if indexed n r then 1 else (0::nat)) (oget m' s)"
      using assms [of s] by (cases "oget m s"; cases "oget m' s") (auto simp: indexed_def)
  qed
  have "(\<exists>r. oget m s = Some r \<and> P (row_stream_id r, row_state r, row_node_id r)) =
      (\<exists>r. oget m' s = Some r \<and> P (row_stream_id r, row_state r, row_node_id r))" for s P
    using assms [of s] by (cases "oget m s"; cases "oget m' s") auto
  from this [of _ "\<lambda>(i, t, n). P i t n" for P]
  have e: "(\<exists>r. oget m s = Some r \<and> P (row_stream_id r) (row_state r) (row_node_id r)) =
      (\<exists>r. oget m' s = Some r \<and> P (row_stream_id r) (row_state r) (row_node_id r))" for s P
    by simp
  have "(\<forall>s r. oget m s = Some r \<longrightarrow> row_stream_id r = s) =
      (\<forall>s r. oget m' s = Some r \<longrightarrow> row_stream_id r = s)"
    using e [of _ "\<lambda>i t n. i \<noteq> s" for s] by blast
  then show ?thesis
    unfolding idx_ok_def l
    using e [of _ "\<lambda>i t k. k = n \<and> t = Opened" for n]
      e [of _ "\<lambda>i t k. k = n \<and> t = Closed \<and> n \<noteq> - 1" for n] by simp
qed

lemma inv_streams_load: "inv_streams st \<Longrightarrow> load (streams st) n \<le> unat (next_stream_id st)"
  by (rule load_below) (auto simp: inv_streams_def)

lemma idx_ok_put_stream:
  assumes ok: "inv_streams st"
  shows "idx_ok (oput (row_stream_id row) (stored_row st row) (streams st))
    (opening_by_node (put_stream st row)) (placed_by_node (put_stream st row))
    (streams_by_node (put_stream st row))"
proof -
  let ?s = "row_stream_id row" and ?r = "stored_row st row"
  let ?m = "oput ?s ?r (streams st)"
  let ?st = "st\<lparr>streams := ?m\<rparr>"
  have i: "idx_ok (streams st) (opening_by_node st) (placed_by_node st) (streams_by_node st)"
    using ok by (simp add: inv_streams_def)
  show ?thesis
  proof (cases "oget (streams st) ?s")
    case None
    then have "put_stream st row = index_row ?st ?r"
      by (simp add: put_stream_def Let_def stored_row_def)
    moreover have "idx_ok ?m (opening_by_node (index_row ?st ?r)) (placed_by_node (index_row ?st ?r))
        (streams_by_node (index_row ?st ?r))"
      by (rule idx_ok_index) (simp_all add: None om.del_absent i)
    ultimately show ?thesis by simp
  next
    case (Some p)
    show ?thesis
    proof (cases "(row_state p, row_node_id p) = (row_state row, row_node_id row)")
      case True
      with Some have "put_stream st row = ?st"
        by (simp add: put_stream_def Let_def stored_row_def)
      moreover have "idx_ok ?m op pl bn = idx_ok (streams st) op pl bn" for op pl bn
        by (rule idx_ok_cong) (use True Some i in \<open>auto simp: idx_ok_def\<close>)
      ultimately show ?thesis using i by simp
    next
      case False
      let ?u = "unindex_row ?st p"
      have "put_stream st row = index_row ?u ?r"
        using False Some by (auto simp add: put_stream_def Let_def stored_row_def)
      moreover have "idx_ok (odel ?s (streams st)) (opening_by_node ?u) (placed_by_node ?u) (streams_by_node ?u)"
        using inv_streams_load [OF ok] by (intro idx_ok_unindex) (simp_all add: i Some)
      then have "idx_ok ?m (opening_by_node (index_row ?u ?r)) (placed_by_node (index_row ?u ?r))
          (streams_by_node (index_row ?u ?r))"
        by (rule idx_ok_index) simp
      ultimately show ?thesis by simp
    qed
  qed
qed

text \<open>
  A row may be stored under a new id only below the id counter and only when no object refers to
  that stream yet; an existing row keeps its byte count.
\<close>

lemma meta_inv_put_stream:
  assumes "meta_inv st" and "row_stream_id row < next_stream_id st"
    and "oget (streams st) (row_stream_id row) = None \<Longrightarrow> stream_bytes st (row_stream_id row) = 0"
  shows "meta_inv (put_stream st row)"
proof -
  have "inv_streams (put_stream st row)"
    using assms(1,2) idx_ok_put_stream [of st row] by (auto simp: meta_inv_def inv_streams_def)
  moreover have "inv_bytes (put_stream st row)"
    using assms(1,3) by (auto simp: meta_inv_def inv_bytes_def stream_bytes_def total_bytes_def
        stored_row_def split: option.split)
  ultimately show ?thesis
    using assms(1) unfolding meta_inv_def
    by (simp add: inv_nodes_def inv_prepared_def inv_sso_def inv_so_def inv_disjoint_def
      inv_destroyed_def inv_kv_def)
qed

lemma meta_inv_remove_stream:
  assumes "meta_inv st"
  shows "meta_inv (remove_stream st s)"
proof (cases "oget (streams st) s")
  case None
  then show ?thesis using assms by (simp add: remove_stream_def)
next
  case (Some p)
  let ?st = "st\<lparr>streams := odel s (streams st)\<rparr>"
  have inv: "inv_streams st" using assms by (simp add: meta_inv_def)
  have "idx_ok (odel s (streams st)) (opening_by_node (unindex_row ?st p))
      (placed_by_node (unindex_row ?st p)) (streams_by_node (unindex_row ?st p))"
    using inv Some inv_streams_load [OF inv] by (intro idx_ok_unindex) (simp_all add: inv_streams_def)
  moreover have "unindex_row ?st p = remove_stream st s"
    using Some by (simp add: remove_stream_def)
  ultimately have "inv_streams (remove_stream st s)"
    using inv by (auto simp: inv_streams_def split: if_splits)
  then show ?thesis
    using assms unfolding meta_inv_def
    by (auto simp: inv_nodes_def inv_prepared_def inv_sso_def inv_so_def inv_disjoint_def
      inv_destroyed_def inv_kv_def inv_bytes_def stream_bytes_def total_bytes_def)
qed

section \<open>Stored bytes\<close>

text \<open>Both byte updates add a word, possibly a negated one, to the row of one stream.\<close>

definition bump_bytes :: "u64 \<Rightarrow> u64 \<Rightarrow> (u64, stream_row) omap \<Rightarrow> (u64, stream_row) omap" where
  "bump_bytes s b m =
    (case oget m s of None \<Rightarrow> m
     | Some row \<Rightarrow> oput s (row\<lparr>row_stored_bytes := row_stored_bytes row + b\<rparr>) m)"

lemma add_stream_bytes_eq: "add_stream_bytes st s b = st\<lparr>streams := bump_bytes s b (streams st)\<rparr>"
  by (simp add: add_stream_bytes_def bump_bytes_def split: option.split)

lemma remove_stream_bytes_eq:
  "remove_stream_bytes st s b = st\<lparr>streams := bump_bytes s (- b) (streams st)\<rparr>"
  by (simp add: remove_stream_bytes_def bump_bytes_def split: option.split)

definition add_bytes :: "u64 \<Rightarrow> stream_row \<Rightarrow> stream_row" where
  "add_bytes b row = row\<lparr>row_stored_bytes := row_stored_bytes row + b\<rparr>"

lemma add_bytes_simps [simp]:
  "row_stream_id (add_bytes b r) = row_stream_id r" "row_epoch (add_bytes b r) = row_epoch r"
  "row_start_offset (add_bytes b r) = row_start_offset r"
  "row_end_offset (add_bytes b r) = row_end_offset r"
  "row_state (add_bytes b r) = row_state r" "row_node_id (add_bytes b r) = row_node_id r"
  "row_stored_bytes (add_bytes b r) = row_stored_bytes r + b"
  "add_bytes 0 r = r" "add_bytes b (add_bytes c r) = add_bytes (c + b) r"
  by (simp_all add: add_bytes_def add.assoc)

lemma oget_bump_bytes:
  "oget (bump_bytes s b m) t = map_option (add_bytes (if s = t then b else 0)) (oget m t)"
  by (auto simp: bump_bytes_def add_bytes_def option.map_ident split: option.split)

lemma oget_fold_bump:
  "oget (fold (\<lambda>(r, z). bump_bytes (g r) (h z)) xs m) s =
    map_option (add_bytes (\<Sum>(r, z) \<leftarrow> xs. if g r = s then h z else 0)) (oget m s)"
proof (induction xs arbitrary: m)
  case Nil
  show ?case by (simp add: option.map_ident)
next
  case (Cons x xs)
  then show ?case by (cases x) (simp add: oget_bump_bytes option.map_comp comp_def)
qed

text \<open>Changing byte counts leaves the node indexes intact.\<close>

lemma idx_ok_bytes:
  assumes "\<And>s. \<exists>b. oget m' s = map_option (add_bytes b) (oget m s)"
  shows "idx_ok m' op pl bn = idx_ok m op pl bn"
proof (rule idx_ok_cong)
  fix s
  obtain b where "oget m' s = map_option (add_bytes b) (oget m s)"
    using assms by blast
  then show "map_option (\<lambda>r. (row_stream_id r, row_state r, row_node_id r)) (oget m' s) =
      map_option (\<lambda>r. (row_stream_id r, row_state r, row_node_id r)) (oget m s)"
    by (simp add: option.map_comp comp_def)
qed

lemma inv_streams_bytes:
  assumes "inv_streams st" and "\<And>s. \<exists>b. oget m' s = map_option (add_bytes b) (oget (streams st) s)"
  shows "idx_ok m' (opening_by_node st) (placed_by_node st) (streams_by_node st) \<and>
    (\<forall>s r. oget m' s = Some r \<longrightarrow> s < next_stream_id st)"
proof
  show "idx_ok m' (opening_by_node st) (placed_by_node st) (streams_by_node st)"
    using assms(1) idx_ok_bytes [of m' "streams st", OF assms(2)] by (simp add: inv_streams_def)
  show "\<forall>s r. oget m' s = Some r \<longrightarrow> s < next_stream_id st"
  proof (intro allI impI)
    fix s r
    assume r: "oget m' s = Some r"
    obtain b where "oget m' s = map_option (add_bytes b) (oget (streams st) s)"
      using assms(2) by blast
    with r assms(1) show "s < next_stream_id st"
      by (auto simp: inv_streams_def)
  qed
qed

section \<open>Stream-set objects\<close>

definition range_key :: "u64 \<Rightarrow> stream_offset_range \<Rightarrow> stream_offset_key" where
  "range_key i r = (rng_stream_id r, rng_start_offset r, i)"

lemma range_map_None:
  "k \<notin> set (map (range_key i \<circ> fst) (range_rows row)) \<Longrightarrow> map_of (rev (range_map i row)) k = None"
proof -
  have "fst ` set (range_map i row) = set (map (range_key i \<circ> fst) (range_rows row))"
    unfolding range_map_def set_map image_image
    by (rule image_cong) (simp_all add: range_key_def case_prod_unfold)
  then show "k \<notin> set (map (range_key i \<circ> fst) (range_rows row)) \<Longrightarrow> ?thesis"
    by (simp add: map_of_eq_None_iff del: set_map)
qed

lemma fold_remove_ranges:
  "fold (\<lambda>(range, size) st.
      remove_stream_bytes (st\<lparr>sso_ranges :=
        odel (rng_stream_id range, rng_start_offset range, i) (sso_ranges st)\<rparr>)
        (rng_stream_id range) size) xs st =
    st\<lparr>sso_ranges := fold odel (map (range_key i \<circ> fst) xs) (sso_ranges st),
       streams := fold (\<lambda>(r, z). bump_bytes (rng_stream_id r) (- z)) xs (streams st)\<rparr>"
  by (induction xs arbitrary: st) (auto simp: remove_stream_bytes_eq range_key_def)

lemma fold_add_ranges:
  "fold (\<lambda>(range, size) st.
      add_stream_bytes (st\<lparr>sso_ranges :=
        oput (rng_stream_id range, rng_start_offset range, i) (rng_end_offset range, size)
          (sso_ranges st)\<rparr>)
        (rng_stream_id range) size) xs st =
    st\<lparr>sso_ranges := fold (\<lambda>(k, v). oput k v)
         (map (\<lambda>(r, z). ((rng_stream_id r, rng_start_offset r, i), (rng_end_offset r, z))) xs)
         (sso_ranges st),
       streams := fold (\<lambda>(r, z). bump_bytes (rng_stream_id r) z) xs (streams st)\<rparr>"
  by (induction xs arbitrary: st) (auto simp: add_stream_bytes_eq)

lemma remove_sso_eq:
  assumes "oget (stream_set_objects st) i = Some row"
  shows "remove_stream_set_object st i = st\<lparr>
     stream_set_objects := odel i (stream_set_objects st),
     sso_ranges := fold odel (map (range_key i \<circ> fst) (range_rows row)) (sso_ranges st),
     streams := fold (\<lambda>(r, z). bump_bytes (rng_stream_id r) (- z)) (range_rows row) (streams st),
     stored_bytes := stored_bytes st - obj_object_size (sso_object row),
     sso_by_node := odel (sso_node_id row, i) (sso_by_node st)\<rparr>"
  using assms by (simp add: remove_stream_set_object_def Let_def fold_remove_ranges range_rows_def)

lemma remove_sso_frame:
  "remove_stream_set_object st i = st\<lparr>
     stream_set_objects := odel i (stream_set_objects st),
     sso_ranges := sso_ranges (remove_stream_set_object st i),
     streams := streams (remove_stream_set_object st i),
     stored_bytes := stored_bytes (remove_stream_set_object st i),
     sso_by_node := sso_by_node (remove_stream_set_object st i)\<rparr>"
proof (cases "oget (stream_set_objects st) i")
  case None
  then show ?thesis by (simp add: remove_stream_set_object_def om.del_absent)
next
  case (Some row)
  then show ?thesis by (simp add: remove_sso_eq)
qed

lemmas remove_sso_sels [simp] =
  remove_sso_frame [THEN arg_cong [where f = next_stream_id], simplified]
  remove_sso_frame [THEN arg_cong [where f = nodes], simplified]
  remove_sso_frame [THEN arg_cong [where f = opening_by_node], simplified]
  remove_sso_frame [THEN arg_cong [where f = placed_by_node], simplified]
  remove_sso_frame [THEN arg_cong [where f = streams_by_node], simplified]
  remove_sso_frame [THEN arg_cong [where f = pending_transfers], simplified]
  remove_sso_frame [THEN arg_cong [where f = epochs], simplified]
  remove_sso_frame [THEN arg_cong [where f = next_producer_id], simplified]
  remove_sso_frame [THEN arg_cong [where f = next_object_id], simplified]
  remove_sso_frame [THEN arg_cong [where f = prepared], simplified]
  remove_sso_frame [THEN arg_cong [where f = prepared_by_deadline], simplified]
  remove_sso_frame [THEN arg_cong [where f = stream_set_objects], simplified]
  remove_sso_frame [THEN arg_cong [where f = stream_objects], simplified]
  remove_sso_frame [THEN arg_cong [where f = stream_object_ids], simplified]
  remove_sso_frame [THEN arg_cong [where f = mark_destroyed], simplified]
  remove_sso_frame [THEN arg_cong [where f = destroyed_by_id], simplified]
  remove_sso_frame [THEN arg_cong [where f = next_destroyed_seq], simplified]
  remove_sso_frame [THEN arg_cong [where f = kv], simplified]
  remove_sso_frame [THEN arg_cong [where f = kv_bytes], simplified]

text \<open>The byte counters after a removal: the sums of the removed row, negated.\<close>

lemma neg_range_sum:
  "(\<Sum>(r, z) \<leftarrow> xs. if g r = s then - z else 0) = - (\<Sum>(r, z) \<leftarrow> xs. if g r = s then z else (0 :: u64))"
  by (induction xs) auto

lemma meta_inv_remove_sso:
  assumes inv: "meta_inv st"
  shows "meta_inv (remove_stream_set_object st i)"
proof (cases "oget (stream_set_objects st) i")
  case None
  then show ?thesis using inv by (simp add: remove_stream_set_object_def)
next
  case (Some row)
  let ?t = "remove_stream_set_object st i"
  have streams: "oget (streams ?t) s = map_option (add_bytes (- sso_stream_bytes s row)) (oget (streams st) s)" for s
    by (simp add: remove_sso_eq [OF Some] oget_fold_bump neg_range_sum sso_stream_bytes_def)
  have "inv_streams ?t"
  proof -
    have "\<exists>b. oget (streams ?t) s = map_option (add_bytes b) (oget (streams st) s)" for s
      using streams by blast
    with inv have "idx_ok (streams ?t) (opening_by_node st) (placed_by_node st) (streams_by_node st) \<and>
        (\<forall>s r. oget (streams ?t) s = Some r \<longrightarrow> s < next_stream_id st)"
      by (intro inv_streams_bytes) (simp_all add: meta_inv_def)
    then show ?thesis by (simp add: inv_streams_def)
  qed
  moreover have "inv_sso ?t"
  proof -
    have "oget (sso_ranges ?t) (s, off, j) = (case oget (stream_set_objects ?t) j of None \<Rightarrow> None
        | Some row \<Rightarrow> map_of (rev (range_map j row)) (s, off, j))" for s off j
    proof (cases "j = i")
      case True
      then show ?thesis
        using inv Some range_map_None [of "(s, off, i)" i row]
        by (simp add: meta_inv_def inv_sso_def remove_sso_eq [OF Some] oget_fold_odel del: set_map)
    next
      case False
      then have "(s, off, j) \<notin> set (map (range_key i \<circ> fst) (range_rows row))"
        by (auto simp: range_key_def)
      with False inv show ?thesis
        by (simp add: meta_inv_def inv_sso_def remove_sso_eq [OF Some] oget_fold_odel del: set_map)
    qed
    then show ?thesis
      using inv Some by (auto simp: meta_inv_def inv_sso_def remove_sso_eq [OF Some])
  qed
  moreover have "inv_bytes ?t"
    using inv Some
    by (auto simp: meta_inv_def inv_bytes_def streams stream_bytes_def total_bytes_def osum_odel
      remove_sso_eq [OF Some, THEN arg_cong [where f = stored_bytes]])
  ultimately show ?thesis
    using inv unfolding meta_inv_def
    by (simp add: inv_nodes_def inv_prepared_def inv_so_def inv_disjoint_def inv_destroyed_def
        inv_kv_def)
qed

lemma put_sso_eq:
  assumes "oget (stream_set_objects st) (obj_object_id (sso_object row)) = None"
  shows "put_stream_set_object st row = st\<lparr>
     sso_ranges := fold (\<lambda>(k, v). oput k v) (range_map (obj_object_id (sso_object row)) row) (sso_ranges st),
     streams := fold (\<lambda>(r, z). bump_bytes (rng_stream_id r) z) (range_rows row) (streams st),
     stored_bytes := stored_bytes st + obj_object_size (sso_object row),
     sso_by_node := oput (sso_node_id row, obj_object_id (sso_object row)) () (sso_by_node st),
     stream_set_objects := oput (obj_object_id (sso_object row)) row (stream_set_objects st)\<rparr>"
  using assms
  by (simp add: put_stream_set_object_def remove_stream_set_object_def Let_def fold_add_ranges
    range_rows_def range_map_def)

lemma put_sso_frame:
  "put_stream_set_object st row = st\<lparr>
     stream_set_objects := oput (obj_object_id (sso_object row)) row (stream_set_objects st),
     sso_ranges := sso_ranges (put_stream_set_object st row),
     streams := streams (put_stream_set_object st row),
     stored_bytes := stored_bytes (put_stream_set_object st row),
     sso_by_node := sso_by_node (put_stream_set_object st row)\<rparr>"
proof -
  have "oput i row (odel i m) = oput i row m" for i and m :: "(u64, stream_set_object_row) omap"
    by (rule omap_eqI) simp
  then show ?thesis
    by (simp add: put_stream_set_object_def Let_def fold_add_ranges)
qed

lemmas put_sso_sels [simp] =
  put_sso_frame [THEN arg_cong [where f = next_stream_id], simplified]
  put_sso_frame [THEN arg_cong [where f = nodes], simplified]
  put_sso_frame [THEN arg_cong [where f = opening_by_node], simplified]
  put_sso_frame [THEN arg_cong [where f = placed_by_node], simplified]
  put_sso_frame [THEN arg_cong [where f = streams_by_node], simplified]
  put_sso_frame [THEN arg_cong [where f = pending_transfers], simplified]
  put_sso_frame [THEN arg_cong [where f = epochs], simplified]
  put_sso_frame [THEN arg_cong [where f = next_producer_id], simplified]
  put_sso_frame [THEN arg_cong [where f = next_object_id], simplified]
  put_sso_frame [THEN arg_cong [where f = prepared], simplified]
  put_sso_frame [THEN arg_cong [where f = prepared_by_deadline], simplified]
  put_sso_frame [THEN arg_cong [where f = stream_set_objects], simplified]
  put_sso_frame [THEN arg_cong [where f = stream_objects], simplified]
  put_sso_frame [THEN arg_cong [where f = stream_object_ids], simplified]
  put_sso_frame [THEN arg_cong [where f = mark_destroyed], simplified]
  put_sso_frame [THEN arg_cong [where f = destroyed_by_id], simplified]
  put_sso_frame [THEN arg_cong [where f = next_destroyed_seq], simplified]
  put_sso_frame [THEN arg_cong [where f = kv], simplified]
  put_sso_frame [THEN arg_cong [where f = kv_bytes], simplified]

text \<open>
  A stream-set object may be committed when it has one size per range, its streams have been
  created, and its id is not that of a stream object.
\<close>

definition sso_row_ok :: "metadata_state \<Rightarrow> stream_set_object_row \<Rightarrow> bool" where
  "sso_row_ok st row \<longleftrightarrow>
    length (sso_range_sizes row) = length (obj_offset_ranges (sso_object row)) \<and>
    (\<forall>r \<in> set (obj_offset_ranges (sso_object row)). rng_stream_id r < next_stream_id st) \<and>
    \<not> ohas (stream_object_ids st) (obj_object_id (sso_object row))"

lemma meta_inv_put_sso_new:
  assumes inv: "meta_inv st" and ok: "sso_row_ok st row"
    and new: "oget (stream_set_objects st) (obj_object_id (sso_object row)) = None"
  shows "meta_inv (put_stream_set_object st row)"
proof -
  let ?t = "put_stream_set_object st row" and ?i = "obj_object_id (sso_object row)"
  have streams: "oget (streams ?t) s = map_option (add_bytes (sso_stream_bytes s row)) (oget (streams st) s)" for s
    using oget_fold_bump [where h = "\<lambda>z. z"]
    by (simp add: put_sso_eq [OF new] sso_stream_bytes_def)
  have "inv_streams ?t"
  proof -
    have "\<exists>b. oget (streams ?t) s = map_option (add_bytes b) (oget (streams st) s)" for s
      using streams by blast
    with inv have "idx_ok (streams ?t) (opening_by_node st) (placed_by_node st) (streams_by_node st) \<and>
        (\<forall>s r. oget (streams ?t) s = Some r \<longrightarrow> s < next_stream_id st)"
      by (intro inv_streams_bytes) (simp_all add: meta_inv_def)
    then show ?thesis by (simp add: inv_streams_def)
  qed
  moreover have "inv_sso ?t"
  proof -
    have "oget (sso_ranges ?t) (s, off, j) = (case oget (stream_set_objects ?t) j of None \<Rightarrow> None
        | Some row \<Rightarrow> map_of (rev (range_map j row)) (s, off, j))" for s off j
    proof (cases "j = ?i")
      case True
      then show ?thesis
        using inv new by (simp add: meta_inv_def inv_sso_def put_sso_eq [OF new] om.get_fold_put
            split: option.split)
    next
      case False
      then have "(s, off, j) \<notin> set (map (range_key ?i \<circ> fst) (range_rows row))"
        by (auto simp: range_key_def)
      then have "map_of (rev (range_map ?i row)) (s, off, j) = None"
        by (rule range_map_None)
      with False inv show ?thesis
        by (simp add: meta_inv_def inv_sso_def put_sso_eq [OF new] om.get_fold_put)
    qed
    moreover have "ohas (sso_by_node ?t) (n, j) \<longleftrightarrow>
        (\<exists>r. oget (stream_set_objects ?t) j = Some r \<and> sso_node_id r = n)" for n j
      using inv new by (auto simp: meta_inv_def inv_sso_def put_sso_eq [OF new])
    ultimately show ?thesis
      using inv ok by (simp add: meta_inv_def inv_sso_def sso_row_ok_def)
  qed
  moreover have "inv_bytes ?t"
    using inv new
    by (auto simp: meta_inv_def inv_bytes_def streams stream_bytes_def total_bytes_def osum_oput_new
      put_sso_eq [OF new, THEN arg_cong [where f = stored_bytes]])
  moreover have "inv_disjoint ?t"
    using inv ok by (auto simp: meta_inv_def inv_disjoint_def sso_row_ok_def)
  ultimately show ?thesis
    using inv unfolding meta_inv_def
    by (simp add: inv_nodes_def inv_prepared_def inv_so_def inv_destroyed_def inv_kv_def)
qed

lemma meta_inv_put_sso:
  assumes "meta_inv st" and "sso_row_ok st row"
  shows "meta_inv (put_stream_set_object st row)"
proof -
  let ?i = "obj_object_id (sso_object row)"
  let ?u = "remove_stream_set_object st ?i"
  have "remove_stream_set_object ?u ?i = ?u"
    by (simp add: remove_stream_set_object_def [of ?u])
  then have "put_stream_set_object st row = put_stream_set_object ?u row"
    by (simp add: put_stream_set_object_def)
  moreover have "meta_inv (put_stream_set_object ?u row)"
    using assms by (intro meta_inv_put_sso_new meta_inv_remove_sso) (simp_all add: sso_row_ok_def)
  ultimately show ?thesis by simp
qed

section \<open>Stream objects\<close>

lemma so_id_row:
  assumes "meta_inv st" and "oget (stream_object_ids st) i = Some k"
  obtains row where "oget (stream_objects st) k = Some row" and "snd (snd k) = i"
  using assms unfolding meta_inv_def inv_so_def ohas_def by blast

lemma so_row_facts:
  assumes "meta_inv st" and "oget (stream_objects st) k = Some row"
  shows "length (obj_offset_ranges (sor_object row)) = 1" and "so_key row = k"
    and "oget (stream_object_ids st) (snd (snd k)) = Some k" and "fst k < next_stream_id st"
  using assms unfolding meta_inv_def inv_so_def by blast+

lemma inv_soI:
  assumes "\<And>k row. oget (stream_objects st) k = Some row \<Longrightarrow>
       length (obj_offset_ranges (sor_object row)) = 1 \<and> so_key row = k \<and>
       oget (stream_object_ids st) (snd (snd k)) = Some k \<and> fst k < next_stream_id st"
    and "\<And>i k. oget (stream_object_ids st) i = Some k \<Longrightarrow> snd (snd k) = i \<and> oget (stream_objects st) k \<noteq> None"
  shows "inv_so st"
  using assms unfolding inv_so_def ohas_def by blast

lemma remove_so_eq:
  assumes "oget (stream_object_ids st) i = Some key" and "oget (stream_objects st) key = Some row"
  shows "remove_stream_object st i = st\<lparr>
     stream_object_ids := odel i (stream_object_ids st),
     stream_objects := odel key (stream_objects st),
     streams := bump_bytes (fst key) (- obj_object_size (sor_object row)) (streams st),
     stored_bytes := stored_bytes st - obj_object_size (sor_object row)\<rparr>"
  using assms by (simp add: remove_stream_object_def Let_def remove_stream_bytes_eq)

lemma remove_so_frame:
  "remove_stream_object st i = st\<lparr>
     stream_object_ids := odel i (stream_object_ids st),
     stream_objects := stream_objects (remove_stream_object st i),
     streams := streams (remove_stream_object st i),
     stored_bytes := stored_bytes (remove_stream_object st i)\<rparr>"
proof (cases "oget (stream_object_ids st) i")
  case None
  then show ?thesis by (simp add: remove_stream_object_def om.del_absent)
next
  case (Some k)
  then show ?thesis
    by (cases "oget (stream_objects st) k")
      (simp_all add: remove_stream_object_def Let_def remove_stream_bytes_eq)
qed

lemmas remove_so_sels [simp] =
  remove_so_frame [THEN arg_cong [where f = next_stream_id], simplified]
  remove_so_frame [THEN arg_cong [where f = nodes], simplified]
  remove_so_frame [THEN arg_cong [where f = opening_by_node], simplified]
  remove_so_frame [THEN arg_cong [where f = placed_by_node], simplified]
  remove_so_frame [THEN arg_cong [where f = streams_by_node], simplified]
  remove_so_frame [THEN arg_cong [where f = pending_transfers], simplified]
  remove_so_frame [THEN arg_cong [where f = epochs], simplified]
  remove_so_frame [THEN arg_cong [where f = next_producer_id], simplified]
  remove_so_frame [THEN arg_cong [where f = next_object_id], simplified]
  remove_so_frame [THEN arg_cong [where f = prepared], simplified]
  remove_so_frame [THEN arg_cong [where f = prepared_by_deadline], simplified]
  remove_so_frame [THEN arg_cong [where f = stream_set_objects], simplified]
  remove_so_frame [THEN arg_cong [where f = sso_ranges], simplified]
  remove_so_frame [THEN arg_cong [where f = sso_by_node], simplified]
  remove_so_frame [THEN arg_cong [where f = stream_object_ids], simplified]
  remove_so_frame [THEN arg_cong [where f = mark_destroyed], simplified]
  remove_so_frame [THEN arg_cong [where f = destroyed_by_id], simplified]
  remove_so_frame [THEN arg_cong [where f = next_destroyed_seq], simplified]
  remove_so_frame [THEN arg_cong [where f = kv], simplified]
  remove_so_frame [THEN arg_cong [where f = kv_bytes], simplified]

lemma put_so_frame:
  "put_stream_object st row = st\<lparr>
     stream_object_ids := oput (obj_object_id (sor_object row)) (so_key row) (stream_object_ids st),
     stream_objects := oput (so_key row) row (stream_objects (remove_stream_object st (obj_object_id (sor_object row)))),
     streams := streams (put_stream_object st row),
     stored_bytes := stored_bytes (put_stream_object st row)\<rparr>"
proof -
  have "oput i k (odel i m) = oput i k m" for i k and m :: "(u64, stream_offset_key) omap"
    by (rule omap_eqI) simp
  then show ?thesis
    by (simp add: put_stream_object_def Let_def add_stream_bytes_eq so_key_def)
qed

lemmas put_so_sels [simp] =
  put_so_frame [THEN arg_cong [where f = next_stream_id], simplified]
  put_so_frame [THEN arg_cong [where f = nodes], simplified]
  put_so_frame [THEN arg_cong [where f = opening_by_node], simplified]
  put_so_frame [THEN arg_cong [where f = placed_by_node], simplified]
  put_so_frame [THEN arg_cong [where f = streams_by_node], simplified]
  put_so_frame [THEN arg_cong [where f = pending_transfers], simplified]
  put_so_frame [THEN arg_cong [where f = epochs], simplified]
  put_so_frame [THEN arg_cong [where f = next_producer_id], simplified]
  put_so_frame [THEN arg_cong [where f = next_object_id], simplified]
  put_so_frame [THEN arg_cong [where f = prepared], simplified]
  put_so_frame [THEN arg_cong [where f = prepared_by_deadline], simplified]
  put_so_frame [THEN arg_cong [where f = stream_set_objects], simplified]
  put_so_frame [THEN arg_cong [where f = sso_ranges], simplified]
  put_so_frame [THEN arg_cong [where f = sso_by_node], simplified]
  put_so_frame [THEN arg_cong [where f = stream_objects], simplified]
  put_so_frame [THEN arg_cong [where f = stream_object_ids], simplified]
  put_so_frame [THEN arg_cong [where f = mark_destroyed], simplified]
  put_so_frame [THEN arg_cong [where f = destroyed_by_id], simplified]
  put_so_frame [THEN arg_cong [where f = next_destroyed_seq], simplified]
  put_so_frame [THEN arg_cong [where f = kv], simplified]
  put_so_frame [THEN arg_cong [where f = kv_bytes], simplified]

text \<open>The bytes of a row, counted for the stream of its key.\<close>

definition so_bytes :: "u64 \<Rightarrow> stream_offset_key \<Rightarrow> stream_object_row \<Rightarrow> u64" where
  "so_bytes s k row = (if fst k = s then obj_object_size (sor_object row) else 0)"

lemma meta_inv_remove_so:
  assumes inv: "meta_inv st"
  shows "meta_inv (remove_stream_object st i)"
proof (cases "oget (stream_object_ids st) i")
  case None
  then show ?thesis using inv by (simp add: remove_stream_object_def)
next
  case (Some key)
  with inv obtain row where row: "oget (stream_objects st) key = Some row" and key: "snd (snd key) = i"
    by (rule so_id_row)
  let ?t = "remove_stream_object st i"
  note eq = remove_so_eq [OF Some row]
  have streams: "oget (streams ?t) s = map_option (add_bytes (- so_bytes s key row)) (oget (streams st) s)" for s
    by (simp add: eq oget_bump_bytes so_bytes_def)
  have "inv_streams ?t"
  proof -
    have "\<exists>b. oget (streams ?t) s = map_option (add_bytes b) (oget (streams st) s)" for s
      using streams by blast
    with inv have "idx_ok (streams ?t) (opening_by_node st) (placed_by_node st) (streams_by_node st) \<and>
        (\<forall>s r. oget (streams ?t) s = Some r \<longrightarrow> s < next_stream_id st)"
      by (intro inv_streams_bytes) (simp_all add: meta_inv_def)
    then show ?thesis by (simp add: inv_streams_def)
  qed
  moreover have "inv_so ?t"
  proof (rule inv_soI)
    fix k r
    assume "oget (stream_objects ?t) k = Some r"
    then have k: "k \<noteq> key" and r: "oget (stream_objects st) k = Some r"
      by (auto simp: eq split: if_splits)
    from so_row_facts [OF inv r] Some key k
    show "length (obj_offset_ranges (sor_object r)) = 1 \<and> so_key r = k \<and>
        oget (stream_object_ids ?t) (snd (snd k)) = Some k \<and> fst k < next_stream_id ?t"
      by auto
  next
    fix j k
    assume "oget (stream_object_ids ?t) j = Some k"
    then have j: "i \<noteq> j" and "oget (stream_object_ids st) j = Some k"
      by (auto split: if_splits)
    from inv this(2) obtain r where "oget (stream_objects st) k = Some r" "snd (snd k) = j"
      by (rule so_id_row)
    with j key show "snd (snd k) = j \<and> oget (stream_objects ?t) k \<noteq> None"
      by (auto simp: eq)
  qed
  moreover have "inv_bytes ?t"
    using inv row
    by (auto simp: meta_inv_def inv_bytes_def streams stream_bytes_def total_bytes_def osum_odel
      eq [THEN arg_cong [where f = stored_bytes]] eq [THEN arg_cong [where f = stream_objects]]
      so_bytes_def)
  moreover have "inv_disjoint ?t"
    using inv by (auto simp: meta_inv_def inv_disjoint_def)
  ultimately show ?thesis
    using inv unfolding meta_inv_def
    by (simp add: inv_nodes_def inv_prepared_def inv_sso_def inv_destroyed_def inv_kv_def)
qed

text \<open>
  A stream object may be committed when it has exactly one range, on a created stream, and its id
  is not that of a stream-set object.
\<close>

definition so_row_ok :: "metadata_state \<Rightarrow> stream_object_row \<Rightarrow> bool" where
  "so_row_ok st row \<longleftrightarrow>
    length (obj_offset_ranges (sor_object row)) = 1 \<and>
    rng_stream_id (first_range (sor_object row)) < next_stream_id st \<and>
    \<not> ohas (stream_set_objects st) (obj_object_id (sor_object row))"

lemma meta_inv_put_so_new:
  assumes inv: "meta_inv st" and ok: "so_row_ok st row"
    and new: "oget (stream_object_ids st) (obj_object_id (sor_object row)) = None"
  shows "meta_inv (put_stream_object st row)"
proof -
  let ?t = "put_stream_object st row" and ?k = "so_key row"
  have rm: "remove_stream_object st (obj_object_id (sor_object row)) = st"
    using new by (simp add: remove_stream_object_def)
  have k: "snd (snd ?k) = obj_object_id (sor_object row)"
      "fst ?k = rng_stream_id (first_range (sor_object row))"
    by (simp_all add: so_key_def)
  have absent: "oget (stream_objects st) ?k = None"
    using so_row_facts(3) [OF inv, of ?k] new k by (cases "oget (stream_objects st) ?k") auto
  have streams: "oget (streams ?t) s = map_option (add_bytes (so_bytes s ?k row)) (oget (streams st) s)" for s
    using rm by (simp add: put_stream_object_def Let_def add_stream_bytes_eq oget_bump_bytes so_bytes_def k)
  have total: "stored_bytes ?t = stored_bytes st + obj_object_size (sor_object row)"
    using rm by (simp add: put_stream_object_def Let_def add_stream_bytes_eq)
  have "inv_streams ?t"
  proof -
    have "\<exists>b. oget (streams ?t) s = map_option (add_bytes b) (oget (streams st) s)" for s
      using streams by blast
    with inv have "idx_ok (streams ?t) (opening_by_node st) (placed_by_node st) (streams_by_node st) \<and>
        (\<forall>s r. oget (streams ?t) s = Some r \<longrightarrow> s < next_stream_id st)"
      by (intro inv_streams_bytes) (simp_all add: meta_inv_def)
    then show ?thesis by (simp add: inv_streams_def)
  qed
  moreover have "inv_so ?t"
  proof (rule inv_soI)
    fix l r
    assume "oget (stream_objects ?t) l = Some r"
    then consider "l = ?k" "r = row" | "l \<noteq> ?k" "oget (stream_objects st) l = Some r"
      by (auto simp: rm split: if_splits)
    then show "length (obj_offset_ranges (sor_object r)) = 1 \<and> so_key r = l \<and>
        oget (stream_object_ids ?t) (snd (snd l)) = Some l \<and> fst l < next_stream_id ?t"
    proof cases
      case 1
      with ok k show ?thesis by (simp add: so_row_ok_def)
    next
      case 2
      have "snd (snd l) \<noteq> obj_object_id (sor_object row)"
        using so_row_facts(3) [OF inv 2(2)] new by auto
      with so_row_facts [OF inv 2(2)] show ?thesis by simp
    qed
  next
    fix j l
    assume "oget (stream_object_ids ?t) j = Some l"
    then have l: "(if obj_object_id (sor_object row) = j then Some ?k else oget (stream_object_ids st) j) = Some l"
      by simp
    show "snd (snd l) = j \<and> oget (stream_objects ?t) l \<noteq> None"
    proof (cases "obj_object_id (sor_object row) = j")
      case True
      with l k show ?thesis by auto
    next
      case False
      with l have "oget (stream_object_ids st) j = Some l" by simp
      with inv obtain r where "oget (stream_objects st) l = Some r" "snd (snd l) = j"
        by (rule so_id_row)
      then show ?thesis by (simp add: rm)
    qed
  qed
  moreover have "inv_bytes ?t"
    using inv absent k
    by (auto simp: meta_inv_def inv_bytes_def streams total rm stream_bytes_def total_bytes_def
      osum_oput_new so_bytes_def)
  moreover have "inv_disjoint ?t"
    using inv ok by (auto simp: meta_inv_def inv_disjoint_def so_row_ok_def)
  ultimately show ?thesis
    using inv unfolding meta_inv_def
    by (simp add: inv_nodes_def inv_prepared_def inv_sso_def inv_destroyed_def inv_kv_def)
qed

lemma meta_inv_put_so:
  assumes "meta_inv st" and "so_row_ok st row"
  shows "meta_inv (put_stream_object st row)"
proof -
  let ?i = "obj_object_id (sor_object row)"
  let ?u = "remove_stream_object st ?i"
  have "remove_stream_object ?u ?i = ?u"
    by (simp add: remove_stream_object_def [of ?u])
  then have "put_stream_object st row = put_stream_object ?u row"
    by (simp add: put_stream_object_def)
  moreover have "meta_inv (put_stream_object ?u row)"
    using assms by (intro meta_inv_put_so_new meta_inv_remove_so) (simp_all add: so_row_ok_def)
  ultimately show ?thesis by simp
qed

section \<open>Prepared ids, the destruction queue, the key-value store\<close>

lemma meta_inv_put_prepared:
  assumes "meta_inv st" and "i < next_object_id st" and "oget (prepared st) i = None"
  shows "meta_inv (put_prepared st i d)"
proof -
  have "inv_prepared (put_prepared st i d)"
    using assms by (auto simp: meta_inv_def inv_prepared_def put_prepared_def)
  then show ?thesis
    using assms(1) unfolding meta_inv_def
    by (simp add: inv_streams_def inv_nodes_def inv_sso_def inv_so_def inv_disjoint_def
      inv_destroyed_def inv_bytes_def inv_kv_def stream_bytes_def total_bytes_def
      put_prepared_def)
qed

lemma meta_inv_remove_prepared:
  assumes "meta_inv st"
  shows "meta_inv (remove_prepared st i)"
proof (cases "oget (prepared st) i")
  case None
  then show ?thesis using assms by (simp add: remove_prepared_def)
next
  case (Some d)
  then have "inv_prepared (remove_prepared st i)"
    using assms by (auto simp: meta_inv_def inv_prepared_def remove_prepared_def)
  then show ?thesis
    using assms Some unfolding meta_inv_def
    by (simp add: inv_streams_def inv_nodes_def inv_sso_def inv_so_def inv_disjoint_def
      inv_destroyed_def inv_bytes_def inv_kv_def stream_bytes_def total_bytes_def
      remove_prepared_def)
qed

lemma destroyed_id_seq:
  assumes "meta_inv st" and "oget (destroyed_by_id st) i = Some q"
  obtains op where "oget (mark_destroyed st) q = Some (i, op)"
  using assms unfolding meta_inv_def inv_destroyed_def by blast

lemma destroyed_seq_id:
  "meta_inv st \<Longrightarrow> oget (mark_destroyed st) q = Some (i, op) \<Longrightarrow> oget (destroyed_by_id st) i = Some q"
  unfolding meta_inv_def inv_destroyed_def by blast

lemma meta_inv_put_destroyed:
  assumes inv: "meta_inv st" and q: "q < next_destroyed_seq st"
    and fresh: "oget (destroyed_by_id st) i = Some q \<or>
      oget (destroyed_by_id st) i = None \<and> oget (mark_destroyed st) q = None"
  shows "meta_inv (put_destroyed st q i op)"
proof -
  let ?t = "put_destroyed st q i op"
  have "oget (destroyed_by_id ?t) j = Some p \<longleftrightarrow> (\<exists>op. oget (mark_destroyed ?t) p = Some (j, op))" for j p
    using fresh destroyed_seq_id [OF inv] destroyed_id_seq [OF inv]
    unfolding put_destroyed_def by (cases "j = i"; cases "p = q") (auto, (metis option.inject option.distinct(1) prod.inject)+)
  moreover have "oget (mark_destroyed ?t) p = Some e \<longrightarrow> p < next_destroyed_seq ?t" for p e
    using inv q by (auto simp: meta_inv_def inv_destroyed_def put_destroyed_def)
  ultimately have "inv_destroyed ?t"
    by (simp add: inv_destroyed_def)
  then show ?thesis
    using inv unfolding meta_inv_def
    by (simp add: inv_streams_def inv_nodes_def inv_prepared_def inv_sso_def inv_so_def
      inv_disjoint_def inv_bytes_def inv_kv_def stream_bytes_def total_bytes_def
      put_destroyed_def)
qed

lemma meta_inv_remove_destroyed:
  assumes inv: "meta_inv st"
  shows "meta_inv (remove_destroyed st i)"
proof (cases "oget (destroyed_by_id st) i")
  case None
  then show ?thesis using inv by (simp add: remove_destroyed_def)
next
  case (Some q)
  let ?t = "remove_destroyed st i"
  have eq: "?t = st\<lparr>destroyed_by_id := odel i (destroyed_by_id st),
      mark_destroyed := odel q (mark_destroyed st)\<rparr>"
    using Some by (simp add: remove_destroyed_def)
  have "oget (destroyed_by_id ?t) j = Some p \<longleftrightarrow> (\<exists>op. oget (mark_destroyed ?t) p = Some (j, op))" for j p
    using Some destroyed_seq_id [OF inv] destroyed_id_seq [OF inv]
    unfolding eq by (cases "j = i"; cases "p = q") (auto, (metis option.inject option.distinct(1) prod.inject)+)
  moreover have "oget (mark_destroyed ?t) p = Some e \<longrightarrow> p < next_destroyed_seq ?t" for p e
    using inv by (auto simp: meta_inv_def inv_destroyed_def eq split: if_splits)
  ultimately have "inv_destroyed ?t"
    by (simp add: inv_destroyed_def)
  then show ?thesis
    using inv Some unfolding meta_inv_def
    by (simp add: inv_streams_def inv_nodes_def inv_prepared_def inv_sso_def inv_so_def
      inv_disjoint_def inv_bytes_def inv_kv_def stream_bytes_def total_bytes_def
      eq)
qed

lemma meta_inv_put_kv:
  assumes "meta_inv st"
  shows "meta_inv (put_kv_row st k v)"
proof -
  have "inv_kv (put_kv_row st k v)"
    using assms by (auto simp: meta_inv_def inv_kv_def put_kv_row_def Let_def osum_oput algebra_simps
        split: option.split)
  then show ?thesis
    using assms unfolding meta_inv_def
    by (simp add: inv_streams_def inv_nodes_def inv_prepared_def inv_sso_def inv_so_def
      inv_disjoint_def inv_destroyed_def inv_bytes_def stream_bytes_def total_bytes_def
      put_kv_row_def Let_def)
qed

lemma meta_inv_remove_kv:
  assumes "meta_inv st"
  shows "meta_inv (fst (remove_kv_row st k))"
proof (cases "oget (kv st) k")
  case None
  then show ?thesis using assms by (simp add: remove_kv_row_def)
next
  case (Some v)
  then have "inv_kv (fst (remove_kv_row st k))"
    using assms by (simp add: meta_inv_def inv_kv_def remove_kv_row_def osum_odel)
  then show ?thesis
    using assms Some unfolding meta_inv_def
    by (simp add: inv_streams_def inv_nodes_def inv_prepared_def inv_sso_def inv_so_def
      inv_disjoint_def inv_destroyed_def inv_bytes_def stream_bytes_def total_bytes_def
      remove_kv_row_def)
qed

section \<open>The primary maps determine the state\<close>

text \<open>A stream row without its derived byte count.\<close>

definition bare :: "stream_row \<Rightarrow> stream_row" where
  "bare r = r\<lparr>row_stored_bytes := 0\<rparr>"

lemma ohas_unit_eqI:
  fixes m n :: "('k::linorder, unit) omap"
  assumes "\<And>k. ohas m k \<longleftrightarrow> ohas n k"
  shows "m = n"
proof (rule omap_eqI)
  fix k
  show "oget m k = oget n k"
    using assms [of k] by (cases "oget m k"; cases "oget n k") (auto simp: ohas_def)
qed

lemma bare_eqD: "bare r = bare r' \<Longrightarrow> row_stored_bytes r = row_stored_bytes r' \<Longrightarrow> r = r'"
  by (cases r; cases r') (simp add: bare_def)

lemma idx_ok_unique:
  assumes "idx_ok m op pl bn" and "idx_ok m op' pl' bn'"
  shows "op = op'" and "pl = pl'" and "bn = bn'"
  using assms by (auto simp: idx_ok_def intro: ohas_unit_eqI omap_eqI)

lemma meta_inv_determines:
  assumes s: "meta_inv s" and t: "meta_inv t"
    and streams: "\<And>k. map_option bare (oget (streams s) k) = map_option bare (oget (streams t) k)"
    and eqs: "next_stream_id s = next_stream_id t" "nodes s = nodes t"
      "pending_transfers s = pending_transfers t" "epochs s = epochs t"
      "next_producer_id s = next_producer_id t" "next_object_id s = next_object_id t"
      "prepared s = prepared t" "stream_set_objects s = stream_set_objects t"
      "stream_objects s = stream_objects t" "mark_destroyed s = mark_destroyed t"
      "next_destroyed_seq s = next_destroyed_seq t" "kv s = kv t"
  shows "s = t"
proof (rule metadata_state.equality)
  show st: "streams s = streams t"
  proof (rule omap_eqI)
    fix k
    have "stream_bytes s k = stream_bytes t k"
      using eqs by (simp add: stream_bytes_def)
    then show "oget (streams s) k = oget (streams t) k"
      using streams [of k] s t
      by (cases "oget (streams s) k"; cases "oget (streams t) k")
        (auto simp: meta_inv_def inv_bytes_def intro: bare_eqD)
  qed
  have i: "idx_ok (streams t) (opening_by_node s) (placed_by_node s) (streams_by_node s)"
      "idx_ok (streams t) (opening_by_node t) (placed_by_node t) (streams_by_node t)"
    using s t st by (simp_all add: meta_inv_def inv_streams_def)
  show "opening_by_node s = opening_by_node t" "placed_by_node s = placed_by_node t"
      "streams_by_node s = streams_by_node t"
    using idx_ok_unique [OF i] by simp_all
  show "prepared_by_deadline s = prepared_by_deadline t" "sso_by_node s = sso_by_node t"
    by (rule ohas_unit_eqI, use s t eqs in \<open>force simp: meta_inv_def inv_prepared_def inv_sso_def\<close>)+
  show "sso_ranges s = sso_ranges t"
    by (rule omap_eqI, use s t eqs in \<open>force simp: meta_inv_def inv_sso_def\<close>)
  show "stored_bytes s = stored_bytes t" "kv_bytes s = kv_bytes t"
    using s t eqs by (simp_all add: meta_inv_def inv_bytes_def inv_kv_def total_bytes_def)
  show "stream_object_ids s = stream_object_ids t"
  proof (rule omap_eqI)
    fix i
    have "oget (stream_object_ids t) i = Some k" if "oget (stream_object_ids s) i = Some k" for k
      using so_id_row [OF s that] so_row_facts(3) [OF t, of k] eqs by metis
    moreover have "oget (stream_object_ids s) i = Some k" if "oget (stream_object_ids t) i = Some k" for k
      using so_id_row [OF t that] so_row_facts(3) [OF s, of k] eqs by metis
    ultimately show "oget (stream_object_ids s) i = oget (stream_object_ids t) i"
      by (metis not_None_eq)
  qed
  show "destroyed_by_id s = destroyed_by_id t"
  proof (rule omap_eqI)
    fix i
    have "oget (destroyed_by_id t) i = Some q" if "oget (destroyed_by_id s) i = Some q" for q
      using destroyed_id_seq [OF s that] destroyed_seq_id [OF t, of q i] eqs by metis
    moreover have "oget (destroyed_by_id s) i = Some q" if "oget (destroyed_by_id t) i = Some q" for q
      using destroyed_id_seq [OF t that] destroyed_seq_id [OF s, of q i] eqs by metis
    ultimately show "oget (destroyed_by_id s) i = oget (destroyed_by_id t) i"
      by (metis not_None_eq)
  qed
qed (simp_all add: eqs)

end
