(* ===== verification/Meta_Apply.thy ===== *)
theory Meta_Apply
  imports Meta_State
begin

text \<open>
  The state transition function of \<^verbatim>\<open>pico-metadata/src/apply.rs\<close>. Every handler takes
  the state and the fields of its command and returns an error or the new state with the result, so
  the early returns of the code are the error branches here. \<open>apply_inner\<close> checks the proposer and
  dispatches, \<open>apply_command\<close> is \<^verbatim>\<open>apply\<close>: it works on a clone of the state and
  installs it only on success.

  \<^verbatim>\<open>NOOP_OBJECT_ID\<close> is a constant of the engine crate; it is the parameter \<open>noop\<close> of the
  two handlers that read it.
\<close>

type_synonym apply_result = "metadata_error + metadata_state \<times> metadata_result"

abbreviation u64_max :: u64 where "u64_max \<equiv> - 1"

definition i64_min :: i64 where "i64_min = SW (2 ^ 63)"
definition i64_max :: i64 where "i64_max = SW (2 ^ 63 - 1)"

text \<open>\<^verbatim>\<open>lo..hi\<close> on \<^verbatim>\<open>u64\<close>: empty when the upper bound is not above the lower one.\<close>

definition u64_range :: "u64 \<Rightarrow> u64 \<Rightarrow> u64 list" where
  "u64_range lo hi = map (\<lambda>k. lo + of_nat k) [0..<unat hi - unat lo]"

section \<open>Nodes\<close>

definition kept :: "'a \<Rightarrow> bool \<Rightarrow> 'a option \<Rightarrow> 'a" where
  "kept given unset stored =
    (case stored of Some s \<Rightarrow> if unset then s else given | None \<Rightarrow> given)"

definition register_node :: "metadata_state \<Rightarrow> i32 \<Rightarrow> i64 \<Rightarrow> string \<Rightarrow> u32 \<Rightarrow> (string, string) omap
    \<Rightarrow> string \<Rightarrow> apply_result" where
  "register_node st node_id node_epoch http_address slots protocol_addresses wal =
    (let stored = oget (nodes st) node_id;
         epoch = (case stored of
                    Some node \<Rightarrow> max node_epoch (nr_epoch node + 1)
                  | None \<Rightarrow> node_epoch)
     in Ok (st\<lparr>nodes := oput node_id
              \<lparr>nr_node_id = node_id,
               nr_epoch = epoch,
               nr_http_address =
                 kept http_address (http_address = []) (map_option nr_http_address stored),
               nr_slots = slots,
               nr_protocol_addresses =
                 kept protocol_addresses (oentries protocol_addresses = [])
                   (map_option nr_protocol_addresses stored),
               nr_wal = kept wal (wal = []) (map_option nr_wal stored),
               nr_heartbeats = (case stored of None \<Rightarrow> 0 | Some node \<Rightarrow> nr_heartbeats node),
               nr_fenced = False\<rparr> (nodes st)\<rparr>,
            ResId (sbits epoch)))"

definition set_node_slots :: "metadata_state \<Rightarrow> i32 \<Rightarrow> u32 \<Rightarrow> apply_result" where
  "set_node_slots st node_id slots =
    (case oget (nodes st) node_id of
       None \<Rightarrow> Err (NodeEpochMismatch node_id)
     | Some node \<Rightarrow> Ok (st\<lparr>nodes := oput node_id (node\<lparr>nr_slots := slots\<rparr>) (nodes st)\<rparr>, ResUnit))"

definition heartbeat :: "metadata_state \<Rightarrow> i32 \<Rightarrow> apply_result" where
  "heartbeat st node_id =
    Ok (case oget (nodes st) node_id of
          None \<Rightarrow> st
        | Some node \<Rightarrow>
            st\<lparr>nodes := oput node_id (node\<lparr>nr_heartbeats := nr_heartbeats node + 1\<rparr>) (nodes st)\<rparr>,
        ResUnit)"

definition fence_node :: "metadata_state \<Rightarrow> proposer \<Rightarrow> i32 \<Rightarrow> i64 \<Rightarrow> u64 \<Rightarrow> apply_result" where
  "fence_node st proposer node_id node_epoch heartbeats =
    (let leaving = (proposer = \<lparr>prop_node_id = node_id, prop_node_epoch = node_epoch\<rparr>)
     in case oget (nodes st) node_id of
          None \<Rightarrow> Err (NodeEpochMismatch node_id)
        | Some node \<Rightarrow>
            if nr_fenced node \<or> nr_epoch node \<noteq> node_epoch \<or>
               (\<not> leaving \<and> nr_heartbeats node \<noteq> heartbeats)
            then Err Redundant
            else Ok (st\<lparr>nodes := oput node_id (node\<lparr>nr_fenced := True\<rparr>) (nodes st)\<rparr>, ResUnit))"

definition check_proposer :: "metadata_state \<Rightarrow> proposer \<Rightarrow> metadata_error + unit" where
  "check_proposer st p =
    (case oget (nodes st) (prop_node_id p) of
       None \<Rightarrow> Err (NodeEpochMismatch (prop_node_id p))
     | Some node \<Rightarrow>
         if nr_epoch node \<noteq> prop_node_epoch p then Err (NodeEpochMismatch (prop_node_id p))
         else if nr_fenced node then Err (NodeEpochMismatch (prop_node_id p))
         else Ok ())"

definition node_live :: "metadata_state \<Rightarrow> i32 \<Rightarrow> bool" where
  "node_live st node_id =
    (case oget (nodes st) node_id of None \<Rightarrow> False | Some node \<Rightarrow> \<not> nr_fenced node)"

definition node_can_take :: "metadata_state \<Rightarrow> i32 \<Rightarrow> bool" where
  "node_can_take st node_id =
    (case oget (nodes st) node_id of None \<Rightarrow> False | Some node \<Rightarrow> nr_slots node \<ge> 1 \<and> \<not> nr_fenced node)"

definition check_owner :: "metadata_state \<Rightarrow> stream_row \<Rightarrow> i32 \<Rightarrow> metadata_error + unit" where
  "check_owner st stream node_id =
    (let owner_live = node_live st (row_node_id stream)
     in if row_node_id stream = node_id \<or> \<not> owner_live then Ok ()
        else Err (StreamFenced (row_stream_id stream) (row_epoch stream)))"

section \<open>Stream lifecycle\<close>

definition new_row :: "u64 \<Rightarrow> stream_row" where
  "new_row stream_id =
    \<lparr>row_stream_id = stream_id, row_epoch = - 1, row_start_offset = 0, row_end_offset = 0,
     row_state = Closed, row_node_id = - 1, row_stored_bytes = 0\<rparr>"

definition create_stream :: "metadata_state \<Rightarrow> apply_result" where
  "create_stream st =
    (let stream_id = next_stream_id st;
         st = st\<lparr>next_stream_id := next_stream_id st + 1\<rparr>
     in Ok (put_stream st (new_row stream_id), ResId stream_id))"

definition MAX_CREATE_STREAMS :: u32 where "MAX_CREATE_STREAMS = 4096"

definition create_streams :: "metadata_state \<Rightarrow> u32 \<Rightarrow> apply_result" where
  "create_streams st count =
    (if count = 0 then Err Unexpected
     else if count > MAX_CREATE_STREAMS then Err Unexpected
     else let first = next_stream_id st;
              st = fold (\<lambda>stream_id st. put_stream st (new_row stream_id))
                     (u64_range first (first + ucast count)) st
          in Ok (st\<lparr>next_stream_id := first + ucast count\<rparr>, ResId first))"

definition require_stream :: "metadata_state \<Rightarrow> u64 \<Rightarrow> metadata_error + stream_row" where
  "require_stream st stream_id =
    (case oget (streams st) stream_id of
       None \<Rightarrow> Err (StreamNotExist stream_id) | Some row \<Rightarrow> Ok row)"

definition node_score :: "metadata_state \<Rightarrow> i32 \<Rightarrow> node_row \<Rightarrow> u64" where
  "node_score st node_id node =
    (case oget (streams_by_node st) node_id of None \<Rightarrow> 0 | Some n \<Rightarrow> n) * 1000 div ucast (nr_slots node)"

definition least_loaded :: "metadata_state \<Rightarrow> i32 option" where
  "least_loaded st =
    map_option fst (fold (\<lambda>(node_id, node) winner.
      if nr_slots node < 1 \<or> nr_fenced node then winner
      else let score = node_score st node_id node
           in case winner of
                None \<Rightarrow> Some (node_id, score)
              | Some (best_id, best_score) \<Rightarrow>
                  if score < best_score \<or> (score = best_score \<and> node_id < best_id)
                  then Some (node_id, score) else winner)
      (oentries (nodes st)) None)"

definition place_stream :: "metadata_state \<Rightarrow> u64 \<Rightarrow> i32 option \<Rightarrow> apply_result" where
  "place_stream st stream_id requested =
    rbind (require_stream st stream_id) (\<lambda>stream.
    (let owner_live = node_live st (row_node_id stream)
     in if row_state stream = Opened \<or> owner_live
        then Ok (st, ResId (scast (sbits (row_node_id stream))))
        else let winner = (case requested of
                   Some node_id \<Rightarrow> if node_can_take st node_id then Some node_id else None
                 | None \<Rightarrow> least_loaded st)
             in case winner of
                  None \<Rightarrow> Err NoLiveNode
                | Some winner \<Rightarrow>
                    Ok (put_stream st (stream\<lparr>row_node_id := winner\<rparr>), ResId (scast (sbits winner)))))"

definition open_stream :: "metadata_state \<Rightarrow> i32 \<Rightarrow> u64 \<Rightarrow> i64 \<Rightarrow> apply_result" where
  "open_stream st node_id stream_id epoch =
    rbind (require_stream st stream_id) (\<lambda>stream.
      if row_epoch stream > epoch then Err (StreamFenced stream_id epoch)
      else if row_epoch stream = epoch then
        (if row_state stream = Opened \<and> row_node_id stream = node_id
         then Ok (st, ResStream (to_stream_metadata stream))
         else Err (StreamFenced stream_id epoch))
      else if row_state stream = Opened then Err (StreamNotClosed stream_id)
      else let opened = stream\<lparr>row_epoch := epoch, row_state := Opened, row_node_id := node_id\<rparr>;
               st = put_stream st opened
           in Ok (st\<lparr>epochs := oput (stream_id, epoch) (row_end_offset stream) (epochs st)\<rparr>,
                  ResStream (to_stream_metadata opened)))"

text \<open>\<^verbatim>\<open>stream_epochs\<close> of \<^verbatim>\<open>query.rs\<close>: the recorded epochs of a stream, oldest first.\<close>

definition stream_epochs :: "metadata_state \<Rightarrow> u64 \<Rightarrow> (i64 \<times> u64) list" where
  "stream_epochs st stream_id =
    map (\<lambda>((_, epoch), start_offset). (epoch, start_offset))
      (orange (stream_id, i64_min) (stream_id, i64_max) (epochs st))"

text \<open>The committed stream objects of one stream, in key order.\<close>

definition objects_of :: "metadata_state \<Rightarrow> u64 \<Rightarrow> (stream_offset_key \<times> stream_object_row) list" where
  "objects_of st stream_id =
    orange (stream_id, 0, 0) (stream_id, u64_max, u64_max) (stream_objects st)"

definition mark_destroyed_object :: "metadata_state \<Rightarrow> u64 \<Rightarrow> compact_operations \<Rightarrow> metadata_state" where
  "mark_destroyed_object st object_id op =
    (case oget (destroyed_by_id st) object_id of
       Some seq \<Rightarrow> put_destroyed st seq object_id op
     | None \<Rightarrow>
         (let seq = next_destroyed_seq st
          in put_destroyed (st\<lparr>next_destroyed_seq := next_destroyed_seq st + 1\<rparr>) seq object_id op))"

definition destroy_stream_objects :: "metadata_state \<Rightarrow> stream_offset_key list \<Rightarrow> metadata_state" where
  "destroy_stream_objects st keys =
    fold (\<lambda>key st. mark_destroyed_object (remove_stream_object st (snd (snd key))) (snd (snd key)) Delete)
      keys st"

definition trim_stream :: "metadata_state \<Rightarrow> i32 \<Rightarrow> u64 \<Rightarrow> i64 \<Rightarrow> u64 \<Rightarrow> apply_result" where
  "trim_stream st node_id stream_id epoch new_start_offset =
    rbind (require_stream st stream_id) (\<lambda>stream.
      if row_epoch stream \<noteq> epoch then Err (ExpiredEpoch stream_id epoch)
      else rbind (check_owner st stream node_id) (\<lambda>_.
        if new_start_offset < row_start_offset stream then Err Unexpected
        else if new_start_offset > row_end_offset stream then Err Unexpected
        else let st = put_stream st (stream\<lparr>row_start_offset := new_start_offset\<rparr>);
                 covered = map fst (takeWhile (\<lambda>(_, start). start \<le> new_start_offset)
                             (stream_epochs st stream_id));
                 st = st\<lparr>epochs := fold (\<lambda>epoch. odel (stream_id, epoch)) (butlast covered) (epochs st)\<rparr>;
                 dead = map fst (filter (\<lambda>(_, row).
                          rng_end_offset (first_range (sor_object row)) \<le> new_start_offset)
                          (objects_of st stream_id))
             in Ok (destroy_stream_objects st dead, ResUnit)))"

definition close_stream :: "metadata_state \<Rightarrow> i32 \<Rightarrow> u64 \<Rightarrow> i64 \<Rightarrow> apply_result" where
  "close_stream st node_id stream_id epoch =
    rbind (require_stream st stream_id) (\<lambda>stream.
      if row_state stream = Closed \<and> row_epoch stream = epoch then Ok (st, ResUnit)
      else rbind (check_owner st stream node_id) (\<lambda>_.
        if row_state stream \<noteq> Opened then Err Unexpected
        else if row_epoch stream \<noteq> epoch then Err (ExpiredEpoch stream_id epoch)
        else Ok (put_stream st (stream\<lparr>row_state := Closed\<rparr>), ResUnit)))"

definition transfer_stream :: "metadata_state \<Rightarrow> u64 \<Rightarrow> i32 \<Rightarrow> i32 \<Rightarrow> apply_result" where
  "transfer_stream st stream_id from_node to_node =
    rbind (require_stream st stream_id) (\<lambda>stream.
      case oget (pending_transfers st) stream_id of
        Some pending \<Rightarrow>
          if pt_from_node pending = from_node \<and> pt_to_node pending = to_node
          then Ok (st, ResUnit) else Err Unexpected
      | None \<Rightarrow>
          if from_node = to_node then Err Unexpected
          else if \<not> node_can_take st to_node then Err (NodeEpochMismatch to_node)
          else if row_state stream \<noteq> Opened \<or> row_node_id stream \<noteq> from_node then Err Unexpected
          else Ok (st\<lparr>pending_transfers :=
                 oput stream_id \<lparr>pt_from_node = from_node, pt_to_node = to_node\<rparr> (pending_transfers st)\<rparr>,
               ResUnit))"

definition complete_transfer :: "metadata_state \<Rightarrow> u64 \<Rightarrow> i64 \<Rightarrow> apply_result" where
  "complete_transfer st stream_id epoch =
    (case oget (pending_transfers st) stream_id of
       None \<Rightarrow> Err Redundant
     | Some pending \<Rightarrow>
         rbind (require_stream st stream_id) (\<lambda>stream.
           if row_state stream \<noteq> Closed then Err (StreamNotClosed stream_id)
           else if row_epoch stream \<noteq> epoch then Err (ExpiredEpoch stream_id epoch)
           else let st = put_stream st (stream\<lparr>row_node_id := pt_to_node pending\<rparr>)
                in Ok (st\<lparr>pending_transfers := odel stream_id (pending_transfers st)\<rparr>, ResUnit)))"

definition delete_stream :: "metadata_state \<Rightarrow> i32 \<Rightarrow> u64 \<Rightarrow> i64 \<Rightarrow> apply_result" where
  "delete_stream st node_id stream_id epoch =
    (case oget (streams st) stream_id of
       None \<Rightarrow> Ok (st, ResUnit)
     | Some stream \<Rightarrow>
         rbind (check_owner st stream node_id) (\<lambda>_.
           if row_state stream \<noteq> Closed then Err (StreamNotClosed stream_id)
           else if row_epoch stream \<noteq> epoch then Err (ExpiredEpoch stream_id epoch)
           else let st = remove_stream st stream_id;
                    st = st\<lparr>pending_transfers := odel stream_id (pending_transfers st)\<rparr>;
                    st = st\<lparr>epochs := fold (\<lambda>(epoch, _). odel (stream_id, epoch))
                           (stream_epochs st stream_id) (epochs st)\<rparr>;
                    keys = map fst (objects_of st stream_id)
                in Ok (destroy_stream_objects st keys, ResUnit)))"

section \<open>Producer ids and prepared objects\<close>

definition MAX_ALLOCATE_PRODUCER_IDS :: u32 where "MAX_ALLOCATE_PRODUCER_IDS = 4096"

definition allocate_producer_ids :: "metadata_state \<Rightarrow> u32 \<Rightarrow> apply_result" where
  "allocate_producer_ids st count =
    (if count = 0 then Err Unexpected
     else if count > MAX_ALLOCATE_PRODUCER_IDS then Err Unexpected
     else Ok (st\<lparr>next_producer_id := next_producer_id st + ucast count\<rparr>, ResId (next_producer_id st)))"

definition prepare_object :: "metadata_state \<Rightarrow> u32 \<Rightarrow> i64 \<Rightarrow> i64 \<Rightarrow> apply_result" where
  "prepare_object st count ttl_ms now_ms =
    (if count = 0 then Err Unexpected
     else let first = next_object_id st;
              st = st\<lparr>next_object_id := next_object_id st + ucast count\<rparr>;
              deadline = now_ms + max ttl_ms 0
          in Ok (fold (\<lambda>object_id st. put_prepared st object_id deadline)
                   (u64_range first (first + ucast count)) st,
                 ResId first))"

definition expire_prepared_objects :: "metadata_state \<Rightarrow> i64 \<Rightarrow> apply_result" where
  "expire_prepared_objects st now_ms =
    (let expired = filter (\<lambda>key. key \<le> (now_ms, u64_max)) (okeys (prepared_by_deadline st))
     in Ok (fold (\<lambda>(_, object_id) st. remove_prepared st object_id) expired st,
            ResCount (of_nat (length expired))))"

section \<open>Commits and compactions\<close>

definition advance_end_offset :: "metadata_state \<Rightarrow> u64 \<Rightarrow> u64 \<Rightarrow> u64 \<Rightarrow> bool
    \<Rightarrow> metadata_error + metadata_state" where
  "advance_end_offset st stream_id start_offset end_offset compact =
    rbind (require_stream st stream_id) (\<lambda>stream.
      if compact then
        (if row_end_offset stream < end_offset then Err Unexpected
         else if row_start_offset stream > start_offset then Err Unexpected
         else Ok st)
      else if row_end_offset stream \<noteq> start_offset then Err Unexpected
      else Ok (put_stream st (stream\<lparr>row_end_offset := end_offset\<rparr>)))"

definition mark_destroy_objects :: "metadata_state \<Rightarrow> u64 list \<Rightarrow> compact_operations list
    \<Rightarrow> metadata_error + metadata_state" where
  "mark_destroy_objects st ids ops =
    (if ids = [] then Ok st
     else if ops = [] then Ok (fold (\<lambda>i st. mark_destroyed_object st i Delete) ids st)
     else if length ops \<noteq> length ids then Err Unexpected
     else Ok (fold (\<lambda>(i, op) st. mark_destroyed_object st i op) (zip ids ops) st))"

definition stream_object_committed :: "metadata_state \<Rightarrow> u64 \<Rightarrow> u64 \<Rightarrow> bool" where
  "stream_object_committed st stream_id object_id =
    (case oget (stream_object_ids st) object_id of None \<Rightarrow> False | Some key \<Rightarrow> fst key = stream_id)"

definition check_object_id_free :: "metadata_state \<Rightarrow> u64 \<Rightarrow> stream_offset_key option
    \<Rightarrow> metadata_error + unit" where
  "check_object_id_free st object_id new_key =
    (if ohas (stream_set_objects st) object_id then Err Unexpected
     else case oget (stream_object_ids st) object_id of
            Some existing \<Rightarrow> if new_key \<noteq> Some existing then Err Unexpected else Ok ()
          | None \<Rightarrow> Ok ())"

definition redundant_commit_check :: "u64 \<Rightarrow> metadata_state \<Rightarrow> commit_request
    \<Rightarrow> metadata_error + unit" where
  "redundant_commit_check noop st request =
    (if cr_object_id request \<noteq> noop
     then (if ohas (stream_set_objects st) (cr_object_id request) then Err Redundant else Ok ())
     else if cr_stream_objects request = [] then Ok ()
     else if list_all (\<lambda>so. stream_object_committed st (so_stream_id so) (so_object_id so))
               (cr_stream_objects request)
     then Err Redundant else Ok ())"

definition insert_stream_object :: "metadata_state \<Rightarrow> stream_object \<Rightarrow> i64 \<Rightarrow> i64 \<Rightarrow> i64
    \<Rightarrow> metadata_state" where
  "insert_stream_object st so data_time_ms now_ms last_write_ms =
    put_stream_object st
      \<lparr>sor_object =
         \<lparr>obj_object_id = so_object_id so, obj_object_type = StreamOnly,
          obj_offset_ranges = [\<lparr>rng_stream_id = so_stream_id so,
            rng_start_offset = so_start_offset so, rng_end_offset = so_end_offset so\<rparr>],
          obj_object_size = so_object_size so, obj_attributes = so_attributes so,
          obj_committed_timestamp_ms = now_ms, obj_data_timestamp_ms = data_time_ms\<rparr>,
       sor_last_write_ms = last_write_ms\<rparr>"

text \<open>\<^verbatim>\<open>iter().max().unwrap_or(default)\<close>.\<close>

definition max_or :: "'a::linorder \<Rightarrow> 'a list \<Rightarrow> 'a" where
  "max_or d xs = (case xs of [] \<Rightarrow> d | x # xs \<Rightarrow> fold max xs x)"

text \<open>The rows of the compacted objects, or an error for the first id that is not committed.\<close>

fun find_sources :: "metadata_state \<Rightarrow> u64 list \<Rightarrow> metadata_error + stream_set_object_row list" where
  "find_sources st [] = Ok []"
| "find_sources st (i # ids) =
    (case oget (stream_set_objects st) i of
       None \<Rightarrow> Err Unexpected
     | Some row \<Rightarrow> rbind (find_sources st ids) (\<lambda>rows. Ok (row # rows)))"

definition commit_set_part :: "u64 \<Rightarrow> metadata_state \<Rightarrow> i32 \<Rightarrow> commit_request \<Rightarrow> i64 \<Rightarrow> bool \<Rightarrow> i64 \<Rightarrow> i64
    \<Rightarrow> metadata_error + metadata_state" where
  "commit_set_part noop st node_id request now_ms compact data_time_ms last_write_ms =
    (if cr_object_id request = noop then Ok st
     else rbind (check_object_id_free st (cr_object_id request) None) (\<lambda>_.
       rbind (rfold (\<lambda>st range. advance_end_offset st (osr_stream_id range)
                (osr_start_offset range) (osr_end_offset range) compact)
              (cr_stream_ranges request) (remove_prepared st (cr_object_id request))) (\<lambda>st.
       Ok (put_stream_set_object st
         \<lparr>sso_node_id = node_id,
          sso_object =
            \<lparr>obj_object_id = cr_object_id request, obj_object_type = StreamSet,
             obj_offset_ranges = map (\<lambda>r. \<lparr>rng_stream_id = osr_stream_id r,
               rng_start_offset = osr_start_offset r, rng_end_offset = osr_end_offset r\<rparr>)
               (cr_stream_ranges request),
             obj_object_size = cr_object_size request, obj_attributes = cr_attributes request,
             obj_committed_timestamp_ms = now_ms, obj_data_timestamp_ms = data_time_ms\<rparr>,
          sso_range_sizes = map osr_size (cr_stream_ranges request),
          sso_last_write_ms = last_write_ms\<rparr>))))"

definition commit_stream_part :: "metadata_state \<Rightarrow> stream_object \<Rightarrow> i64 \<Rightarrow> bool \<Rightarrow> i64 \<Rightarrow> i64
    \<Rightarrow> metadata_error + metadata_state" where
  "commit_stream_part st so now_ms compact data_time_ms last_write_ms =
    rbind (check_object_id_free st (so_object_id so)
            (Some (so_stream_id so, so_start_offset so, so_object_id so))) (\<lambda>_.
    rbind (advance_end_offset (remove_prepared st (so_object_id so)) (so_stream_id so)
            (so_start_offset so) (so_end_offset so) compact) (\<lambda>st.
    Ok (insert_stream_object st so data_time_ms now_ms last_write_ms)))"

definition commit_stream_set_object :: "u64 \<Rightarrow> metadata_state \<Rightarrow> i32 \<Rightarrow> commit_request \<Rightarrow> i64
    \<Rightarrow> apply_result" where
  "commit_stream_set_object noop st node_id request now_ms =
    rbind (redundant_commit_check noop st request) (\<lambda>_.
    let compact = (cr_compacted_object_ids request \<noteq> []) in
    rbind (find_sources st (cr_compacted_object_ids request)) (\<lambda>sources.
    let data_time_ms = fold (\<lambda>row t. min t (obj_data_timestamp_ms (sso_object row))) sources now_ms;
        last_write_ms = max_or now_ms (map sso_last_write_ms sources);
        st = fold (\<lambda>i st. mark_destroyed_object (remove_stream_set_object st i) i Delete)
               (cr_compacted_object_ids request) st in
    rbind (commit_set_part noop st node_id request now_ms compact data_time_ms last_write_ms) (\<lambda>st.
    rbind (rfold (\<lambda>st so. commit_stream_part st so now_ms compact data_time_ms last_write_ms)
            (cr_stream_objects request) st) (\<lambda>st.
    Ok (st, ResUnit)))))"

definition compact_stream_object :: "u64 \<Rightarrow> metadata_state \<Rightarrow> compact_request \<Rightarrow> i64 \<Rightarrow> apply_result" where
  "compact_stream_object noop st request now_ms =
    (let stream_id = kr_stream_id request; object_id = kr_object_id request in
     if object_id \<noteq> noop \<and> stream_object_committed st stream_id object_id then Err Redundant
     else rbind (require_stream st stream_id) (\<lambda>stream.
     if row_epoch stream \<noteq> SW (kr_stream_epoch request)
     then Err (ExpiredEpoch stream_id (SW (kr_stream_epoch request)))
     else if row_end_offset stream < kr_end_offset request then Err Unexpected
     else if row_start_offset stream > kr_start_offset request then Err Unexpected
     else rbind (if object_id \<noteq> noop
                 then check_object_id_free st object_id
                        (Some (stream_id, kr_start_offset request, object_id))
                 else Ok ()) (\<lambda>_.
     let st = remove_prepared st object_id;
         st = (if object_id \<noteq> noop
               then insert_stream_object st
                 \<lparr>so_object_id = object_id, so_object_size = kr_object_size request,
                  so_stream_id = stream_id, so_start_offset = kr_start_offset request,
                  so_end_offset = kr_end_offset request, so_attributes = kr_attributes request\<rparr>
                 now_ms now_ms
                 (max_or now_ms (map sor_last_write_ms (List.map_filter (oget (stream_objects st))
                   (List.map_filter (oget (stream_object_ids st)) (kr_source_object_ids request)))))
               else st);
         st = fold (\<lambda>source_id st.
                if (case oget (stream_object_ids st) source_id of
                      None \<Rightarrow> False | Some key \<Rightarrow> fst key = stream_id)
                then remove_stream_object st source_id else st)
              (kr_source_object_ids request) st in
     rbind (mark_destroy_objects st (kr_source_object_ids request) (kr_operations request)) (\<lambda>st.
     Ok (st, ResUnit)))))"

definition clean_destroyed_objects :: "metadata_state \<Rightarrow> u64 list \<Rightarrow> apply_result" where
  "clean_destroyed_objects st object_ids =
    Ok (fold (\<lambda>i st. remove_destroyed st i) object_ids st, ResUnit)"

section \<open>The key-value store\<close>

definition put_kv :: "metadata_state \<Rightarrow> string \<Rightarrow> bytes \<Rightarrow> apply_result" where
  "put_kv st key v = Ok (put_kv_row st key v, ResValue (Some v))"

definition put_kv_if_absent :: "metadata_state \<Rightarrow> string \<Rightarrow> bytes \<Rightarrow> apply_result" where
  "put_kv_if_absent st key v =
    (case oget (kv st) key of
       Some existing \<Rightarrow> Ok (st, ResValue (Some existing))
     | None \<Rightarrow> Ok (put_kv_row st key v, ResValue (Some v)))"

definition delete_kv :: "metadata_state \<Rightarrow> string \<Rightarrow> apply_result" where
  "delete_kv st key = (let (st, old) = remove_kv_row st key in Ok (st, ResValue old))"

definition put_kv_if_matches :: "metadata_state \<Rightarrow> string \<Rightarrow> bytes \<Rightarrow> bytes \<Rightarrow> apply_result" where
  "put_kv_if_matches st key expected v =
    (if oget (kv st) key = Some expected then put_kv st key v else Err Redundant)"

definition delete_kv_if_matches :: "metadata_state \<Rightarrow> string \<Rightarrow> bytes \<Rightarrow> apply_result" where
  "delete_kv_if_matches st key expected =
    (if oget (kv st) key = Some expected
     then (let (st, old) = remove_kv_row st key in Ok (st, ResValue old))
     else Err Redundant)"

section \<open>Dispatch\<close>

fun run_command :: "u64 \<Rightarrow> metadata_state \<Rightarrow> metadata_command \<Rightarrow> apply_result" where
  "run_command noop st (RegisterNode n e http slots protos wal) =
     register_node st n e http slots protos wal"
| "run_command noop st (SetNodeSlots p n slots) = set_node_slots st n slots"
| "run_command noop st (Heartbeat p) = heartbeat st (prop_node_id p)"
| "run_command noop st (FenceNode p n e hb) = fence_node st p n e hb"
| "run_command noop st (PlaceStream p s n) = place_stream st s n"
| "run_command noop st (CreateStream p) = create_stream st"
| "run_command noop st (CreateStreams p count) = create_streams st count"
| "run_command noop st (OpenStream p s e) = open_stream st (prop_node_id p) s e"
| "run_command noop st (TrimStream p s e off) = trim_stream st (prop_node_id p) s e off"
| "run_command noop st (CloseStream p s e) = close_stream st (prop_node_id p) s e"
| "run_command noop st (DeleteStream p s e) = delete_stream st (prop_node_id p) s e"
| "run_command noop st (PrepareObject p count ttl now) = prepare_object st count ttl now"
| "run_command noop st (CommitStreamSetObject p req now) =
     commit_stream_set_object noop st (prop_node_id p) req now"
| "run_command noop st (CompactStreamObject p req now) = compact_stream_object noop st req now"
| "run_command noop st (ExpirePreparedObjects p now) = expire_prepared_objects st now"
| "run_command noop st (CleanDestroyedObjects p ids) = clean_destroyed_objects st ids"
| "run_command noop st (PutKv p k v) = put_kv st k v"
| "run_command noop st (PutKvIfAbsent p k v) = put_kv_if_absent st k v"
| "run_command noop st (DeleteKv p k) = delete_kv st k"
| "run_command noop st (DeleteKvIfMatches p k e) = delete_kv_if_matches st k e"
| "run_command noop st (PutKvIfMatches p k e v) = put_kv_if_matches st k e v"
| "run_command noop st (TransferStream p s from to) = transfer_stream st s from to"
| "run_command noop st (CompleteTransfer p s e) = complete_transfer st s e"
| "run_command noop st (AllocateProducerIds p count) = allocate_producer_ids st count"

definition apply_inner :: "u64 \<Rightarrow> metadata_state \<Rightarrow> metadata_command \<Rightarrow> apply_result" where
  "apply_inner noop st command =
    (case command_proposer command of
       None \<Rightarrow> run_command noop st command
     | Some p \<Rightarrow> rbind (check_proposer st p) (\<lambda>_. run_command noop st command))"

definition apply_command :: "u64 \<Rightarrow> metadata_state \<Rightarrow> metadata_command
    \<Rightarrow> metadata_state \<times> (metadata_error + metadata_result)" where
  "apply_command noop st command =
    (case apply_inner noop st command of
       Inl e \<Rightarrow> (st, Inl e)
     | Inr (next, r) \<Rightarrow> (next, Inr r))"

end
