(* ===== verification/State_Machine.thy ===== *)
theory State_Machine
  imports Main
begin

text \<open>
  A deterministic state machine that is driven by a log of commands, with a guard on the commands.
  \<open>run_log\<close> applies a log, \<open>log_ok\<close> says that every command of the log meets the guard in
  the state it is applied to. The locales carry a step invariant and a step relation from one
  command to whole logs; the components interpret them on their own transition functions.
\<close>

fun run_log :: "('s \<Rightarrow> 'c \<Rightarrow> 's) \<Rightarrow> 's \<Rightarrow> 'c list \<Rightarrow> 's" where
  "run_log step s [] = s"
| "run_log step s (c # cs) = run_log step (step s c) cs"

fun log_ok :: "('s \<Rightarrow> 'c \<Rightarrow> 's) \<Rightarrow> ('s \<Rightarrow> 'c \<Rightarrow> bool) \<Rightarrow> 's \<Rightarrow> 'c list \<Rightarrow> bool" where
  "log_ok step guard s [] = True"
| "log_ok step guard s (c # cs) = (guard s c \<and> log_ok step guard (step s c) cs)"

lemma run_log_append: "run_log step s (xs @ ys) = run_log step (run_log step s xs) ys"
  by (induction xs arbitrary: s) simp_all

lemma log_ok_append:
  "log_ok step guard s (xs @ ys) \<longleftrightarrow> log_ok step guard s xs \<and> log_ok step guard (run_log step s xs) ys"
  by (induction xs arbitrary: s) simp_all

locale guarded_machine =
  fixes step :: "'s \<Rightarrow> 'c \<Rightarrow> 's" and guard :: "'s \<Rightarrow> 'c \<Rightarrow> bool" and inv :: "'s \<Rightarrow> bool"
  assumes step_inv: "inv s \<Longrightarrow> guard s c \<Longrightarrow> inv (step s c)"
begin

lemma run_inv: "inv s \<Longrightarrow> log_ok step guard s cs \<Longrightarrow> inv (run_log step s cs)"
  by (induction cs arbitrary: s) (auto intro: step_inv)

end

text \<open>A reflexive and transitive relation that every step from an invariant state respects.\<close>

locale monotone_machine = guarded_machine step guard inv
  for step :: "'s \<Rightarrow> 'c \<Rightarrow> 's" and guard :: "'s \<Rightarrow> 'c \<Rightarrow> bool" and inv :: "'s \<Rightarrow> bool" +
  fixes later :: "'s \<Rightarrow> 's \<Rightarrow> bool"
  assumes later_refl: "later s s"
    and later_trans: "later s t \<Longrightarrow> later t u \<Longrightarrow> later s u"
    and step_later: "inv s \<Longrightarrow> guard s c \<Longrightarrow> later s (step s c)"
begin

lemma run_later: "inv s \<Longrightarrow> log_ok step guard s cs \<Longrightarrow> later s (run_log step s cs)"
  by (induction cs arbitrary: s) (auto intro: later_refl later_trans step_later step_inv)

lemma run_later_split:
  assumes "inv s" and "log_ok step guard s (xs @ ys)"
  shows "later (run_log step s xs) (run_log step s (xs @ ys))"
  using assms run_inv [of s xs] by (simp add: log_ok_append run_log_append run_later)

end

end
