(* ===== verification/Meta_Apply_Inv.thy ===== *)
theory Meta_Apply_Inv
  imports Meta_Inv Meta_Apply State_Machine
begin

text \<open>
  Every command keeps the invariant of the metadata state. The three id counters and the
  destruction sequence are 64-bit and wrap silently, so a step is considered only while the
  counters it advances have room (\<open>fits\<close>); the room is a handful of ids out of $2^{64}$.
\<close>

section \<open>Updates of fields outside the indexes\<close>

lemma meta_inv_plain [simp]:
  "meta_inv (st\<lparr>pending_transfers := pt\<rparr>) = meta_inv st"
  "meta_inv (st\<lparr>epochs := es\<rparr>) = meta_inv st"
  "meta_inv (st\<lparr>next_producer_id := p\<rparr>) = meta_inv st"
  by (simp_all add: meta_inv_def inv_streams_def meta_inv_defs)

lemma meta_inv_nodes:
  "meta_inv st \<Longrightarrow> nr_node_id r = n \<Longrightarrow> meta_inv (st\<lparr>nodes := oput n r (nodes st)\<rparr>)"
  by (simp add: meta_inv_def inv_streams_def meta_inv_defs)

lemma meta_inv_next_stream:
  assumes "meta_inv st" and "next_stream_id st \<le> n"
  shows "meta_inv (st\<lparr>next_stream_id := n\<rparr>)"
proof -
  have up: "x < next_stream_id st \<Longrightarrow> x < n" for x
    using assms(2) by (rule order.strict_trans2 [rotated])
  show ?thesis
    using assms(1) up unfolding meta_inv_def inv_streams_def inv_sso_def inv_so_def
    by (simp add: inv_nodes_def inv_prepared_def inv_disjoint_def
      inv_destroyed_def inv_bytes_def inv_kv_def stream_bytes_def total_bytes_def)
qed

lemma meta_inv_next_object:
  assumes "meta_inv st" and "next_object_id st \<le> n"
  shows "meta_inv (st\<lparr>next_object_id := n\<rparr>)"
proof -
  have up: "x < next_object_id st \<Longrightarrow> x < n" for x
    using assms(2) by (rule order.strict_trans2 [rotated])
  show ?thesis
    using assms(1) up unfolding meta_inv_def inv_prepared_def
    by (simp add: inv_streams_def inv_nodes_def inv_sso_def inv_so_def inv_disjoint_def
      inv_destroyed_def inv_bytes_def inv_kv_def stream_bytes_def total_bytes_def)
qed

lemma meta_inv_next_destroyed:
  assumes "meta_inv st" and "next_destroyed_seq st \<le> n"
  shows "meta_inv (st\<lparr>next_destroyed_seq := n\<rparr>)"
proof -
  have up: "x < next_destroyed_seq st \<Longrightarrow> x < n" for x
    using assms(2) by (rule order.strict_trans2 [rotated])
  show ?thesis
    using assms(1) up unfolding meta_inv_def inv_destroyed_def
    by (simp add: inv_streams_def inv_nodes_def inv_sso_def inv_so_def inv_disjoint_def
      inv_prepared_def inv_bytes_def inv_kv_def stream_bytes_def total_bytes_def)
qed

section \<open>Ranges of fresh ids\<close>

lemma u64_no_wrap:
  fixes a b :: u64
  assumes "unat a + unat b < 2 ^ 64"
  shows "unat (a + b) = unat a + unat b"
  using assms by (simp add: unat_word_ariths)

lemma unat_ucast_u32: "unat (ucast (c :: u32) :: u64) = unat c"
proof -
  have "unat c < 2 ^ 64"
    using unsigned_less [of c, where ?'a = nat] by simp
  then show ?thesis
    by (simp add: unsigned_ucast_eq take_bit_nat_eq_self)
qed

lemma in_u64_range_iff: "x \<in> set (u64_range lo hi) \<longleftrightarrow> lo \<le> x \<and> x < hi"
proof
  assume "x \<in> set (u64_range lo hi)"
  then obtain k where k: "x = lo + of_nat k" "k < unat hi - unat lo"
    by (auto simp: u64_range_def)
  have "unat lo + k < 2 ^ 64"
    using k(2) unsigned_less [of hi, where ?'a = nat] by simp
  then have "unat x = unat lo + k"
    using k(1) by (simp add: unat_word_ariths unat_of_nat)
  with k(2) show "lo \<le> x \<and> x < hi"
    by (simp add: word_le_nat_alt word_less_nat_alt)
next
  assume r: "lo \<le> x \<and> x < hi"
  then have "x = lo + of_nat (unat x - unat lo)"
    by (simp add: word_le_nat_alt of_nat_diff)
  moreover have "unat x - unat lo < unat hi - unat lo"
    using r by (auto simp: word_le_nat_alt word_less_nat_alt)
  ultimately show "x \<in> set (u64_range lo hi)"
    unfolding u64_range_def by (auto simp: image_iff)
qed

lemma distinct_u64_range: "distinct (u64_range lo hi)"
proof -
  have "inj_on (\<lambda>k. lo + of_nat k) {0..<unat hi - unat lo}"
  proof (rule inj_onI)
    fix j k assume "j \<in> {0..<unat hi - unat lo}" "k \<in> {0..<unat hi - unat lo}"
      "lo + of_nat j = lo + of_nat k"
    then have "j < 2 ^ 64" "k < 2 ^ 64" "of_nat j = (of_nat k :: u64)"
      using unsigned_less [of hi, where ?'a = nat] by auto
    then show "j = k" by (metis unat_of_nat_u64)
  qed
  then show ?thesis by (simp add: u64_range_def distinct_map)
qed

lemma length_u64_range: "length (u64_range lo hi) = unat hi - unat lo"
  by (simp add: u64_range_def)

section \<open>Creating streams and preparing objects\<close>

lemma stream_bytes_fresh:
  assumes "meta_inv st" and "next_stream_id st \<le> s"
  shows "stream_bytes st s = 0"
proof -
  have "sso_stream_bytes s row = 0" if "oget (stream_set_objects st) i = Some row" for i row
  proof -
    have "\<forall>r \<in> set (obj_offset_ranges (sso_object row)). rng_stream_id r < next_stream_id st"
      using assms(1) that unfolding meta_inv_def inv_sso_def by blast
    then have "\<forall>(r, z) \<in> set (range_rows row). rng_stream_id r \<noteq> s"
      using assms(2) by (auto simp: range_rows_def dest!: set_zip_leftD)
    then have "(\<Sum>(r, z) \<leftarrow> range_rows row. if rng_stream_id r = s then z else 0) = (\<Sum>_ \<leftarrow> range_rows row. 0)"
      by (intro arg_cong [where f = sum_list] map_cong) auto
    then show ?thesis by (simp add: sso_stream_bytes_def)
  qed
  moreover have "fst k \<noteq> s" if "oget (stream_objects st) k = Some row" for k row
    using so_row_facts(4) [OF assms(1) that] assms(2) by auto
  ultimately show ?thesis
    unfolding stream_bytes_def by (simp add: osum_zero)
qed

lemma stream_bytes_put_stream [simp]: "stream_bytes (put_stream st row) s = stream_bytes st s"
  by (simp add: stream_bytes_def)

lemma stream_bytes_next_stream [simp]: "stream_bytes (st\<lparr>next_stream_id := n\<rparr>) s = stream_bytes st s"
  by (simp add: stream_bytes_def)

lemma new_row_id [simp]: "row_stream_id (new_row s) = s"
  by (simp add: new_row_def)

lemma meta_inv_fold_new_rows:
  assumes "meta_inv st" and "\<And>s. s \<in> set ids \<Longrightarrow> s < next_stream_id st \<and> stream_bytes st s = 0"
  shows "meta_inv (fold (\<lambda>s st. put_stream st (new_row s)) ids st)"
  using assms
proof (induction ids arbitrary: st)
  case (Cons s ids)
  have "meta_inv (put_stream st (new_row s))"
    using Cons.prems by (intro meta_inv_put_stream) auto
  then show ?case
    using Cons.prems(2) by (simp add: Cons.IH)
qed simp

lemma index_row_next: "index_row (st\<lparr>next_stream_id := n\<rparr>) row = (index_row st row)\<lparr>next_stream_id := n\<rparr>"
  by (simp add: index_row_def Let_def split: stream_state.split)

lemma unindex_row_next: "unindex_row (st\<lparr>next_stream_id := n\<rparr>) row = (unindex_row st row)\<lparr>next_stream_id := n\<rparr>"
  by (simp add: unindex_row_def Let_def split: option.split)

lemma put_stream_next: "put_stream (st\<lparr>next_stream_id := n\<rparr>) row = (put_stream st row)\<lparr>next_stream_id := n\<rparr>"
proof -
  have upd: "st\<lparr>next_stream_id := n, streams := x\<rparr> = (st\<lparr>streams := x\<rparr>)\<lparr>next_stream_id := n\<rparr>" for x
    by simp
  show ?thesis
    unfolding put_stream_def by (simp add: Let_def upd index_row_next unindex_row_next split: option.split)
qed

lemma fold_new_rows_next:
  "fold (\<lambda>s st. put_stream st (new_row s)) ids (st\<lparr>next_stream_id := n\<rparr>) =
   (fold (\<lambda>s st. put_stream st (new_row s)) ids st)\<lparr>next_stream_id := n\<rparr>"
  by (induction ids arbitrary: st) (simp_all add: put_stream_next)

lemma meta_inv_fold_prepared:
  assumes "meta_inv st" and "distinct ids"
    and "\<And>i. i \<in> set ids \<Longrightarrow> i < next_object_id st \<and> oget (prepared st) i = None"
  shows "meta_inv (fold (\<lambda>i st. put_prepared st i d) ids st)"
  using assms
proof (induction ids arbitrary: st)
  case (Cons i ids)
  have "meta_inv (put_prepared st i d)"
    using Cons.prems by (intro meta_inv_put_prepared) auto
  moreover have "j < next_object_id (put_prepared st i d) \<and> oget (prepared (put_prepared st i d)) j = None"
    if "j \<in> set ids" for j
    using Cons.prems that by (auto simp: put_prepared_def)
  ultimately show ?case
    using Cons.prems(2) Cons.IH by simp
qed simp

section \<open>Handlers that touch one row\<close>

lemma require_stream_Inr [simp]: "require_stream st s = Inr r \<longleftrightarrow> oget (streams st) s = Some r"
  by (simp add: require_stream_def split: option.split)

lemma stream_row_id:
  "meta_inv st \<Longrightarrow> oget (streams st) s = Some r \<Longrightarrow> row_stream_id r = s"
  by (auto simp: meta_inv_def inv_streams_def idx_ok_def)

lemma stream_row_below:
  "meta_inv st \<Longrightarrow> oget (streams st) s = Some r \<Longrightarrow> s < next_stream_id st"
  by (auto simp: meta_inv_def inv_streams_def)

lemma meta_inv_put_existing:
  assumes "meta_inv st" and "oget (streams st) s = Some r" and "row_stream_id row = row_stream_id r"
  shows "meta_inv (put_stream st row)"
  using assms stream_row_id [OF assms(1,2)] stream_row_below [OF assms(1,2)]
  by (intro meta_inv_put_stream) auto

lemma meta_inv_register_node:
  "meta_inv st \<Longrightarrow> register_node st n e h sl pa w = Inr (t, r) \<Longrightarrow> meta_inv t"
  by (auto simp: register_node_def Let_def intro: meta_inv_nodes)

lemma node_row_id: "meta_inv st \<Longrightarrow> oget (nodes st) n = Some r \<Longrightarrow> nr_node_id r = n"
  by (auto simp: meta_inv_def inv_nodes_def)

lemma meta_inv_node_handlers:
  "meta_inv st \<Longrightarrow> set_node_slots st n sl = Inr (t, r) \<Longrightarrow> meta_inv t"
  "meta_inv st \<Longrightarrow> heartbeat st n = Inr (t, r) \<Longrightarrow> meta_inv t"
  "meta_inv st \<Longrightarrow> fence_node st p n e h = Inr (t, r) \<Longrightarrow> meta_inv t"
  by (auto simp: set_node_slots_def heartbeat_def fence_node_def Let_def node_row_id
      intro!: meta_inv_nodes split: option.splits if_splits)

lemma meta_inv_row_handlers:
  "meta_inv st \<Longrightarrow> place_stream st s n = Inr (t, r) \<Longrightarrow> meta_inv t"
  "meta_inv st \<Longrightarrow> open_stream st n' s e = Inr (t, r) \<Longrightarrow> meta_inv t"
  "meta_inv st \<Longrightarrow> close_stream st n' s e = Inr (t, r) \<Longrightarrow> meta_inv t"
  "meta_inv st \<Longrightarrow> transfer_stream st s a b = Inr (t, r) \<Longrightarrow> meta_inv t"
  "meta_inv st \<Longrightarrow> complete_transfer st s e = Inr (t, r) \<Longrightarrow> meta_inv t"
  by (auto simp: place_stream_def open_stream_def close_stream_def transfer_stream_def
      complete_transfer_def Let_def intro!: meta_inv_put_existing split: option.splits if_splits)

lemma meta_inv_kv_handlers:
  "meta_inv st \<Longrightarrow> put_kv st k v = Inr (t, r) \<Longrightarrow> meta_inv t"
  "meta_inv st \<Longrightarrow> put_kv_if_absent st k v = Inr (t, r) \<Longrightarrow> meta_inv t"
  "meta_inv st \<Longrightarrow> delete_kv st k = Inr (t, r) \<Longrightarrow> meta_inv t"
  "meta_inv st \<Longrightarrow> put_kv_if_matches st k x v = Inr (t, r) \<Longrightarrow> meta_inv t"
  "meta_inv st \<Longrightarrow> delete_kv_if_matches st k x = Inr (t, r) \<Longrightarrow> meta_inv t"
  using meta_inv_remove_kv [of st k]
  by (auto simp: put_kv_def put_kv_if_absent_def delete_kv_def put_kv_if_matches_def
      delete_kv_if_matches_def case_prod_unfold Let_def intro: meta_inv_put_kv
      split: option.splits if_splits)

lemma meta_inv_simple_folds:
  "meta_inv st \<Longrightarrow> expire_prepared_objects st now = Inr (t, r) \<Longrightarrow> meta_inv t"
  "meta_inv st \<Longrightarrow> clean_destroyed_objects st ids = Inr (t, r) \<Longrightarrow> meta_inv t"
  "meta_inv st \<Longrightarrow> allocate_producer_ids st c = Inr (t, r) \<Longrightarrow> meta_inv t"
  by (auto simp: expire_prepared_objects_def clean_destroyed_objects_def allocate_producer_ids_def
      Let_def intro!: fold_invariant_list [where P = meta_inv] meta_inv_remove_prepared
      meta_inv_remove_destroyed split: if_splits)

lemma meta_inv_create_stream:
  assumes "meta_inv st" and "create_stream st = Inr (t, r)"
    and "unat (next_stream_id st) + 1 < 2 ^ 64"
  shows "meta_inv t"
proof -
  have lt: "next_stream_id st < next_stream_id st + 1"
    using u64_no_wrap [of "next_stream_id st" 1] assms(3) by (simp add: word_less_nat_alt)
  show ?thesis
    using assms(1,2) lt unfolding create_stream_def
    by (auto simp: Let_def stream_bytes_fresh intro!: meta_inv_put_stream meta_inv_next_stream)
qed

lemma meta_inv_create_streams:
  assumes "meta_inv st" and "create_streams st c = Inr (t, r)"
    and "unat (next_stream_id st) + unat c < 2 ^ 64"
  shows "meta_inv t"
proof -
  let ?n = "next_stream_id st + ucast c"
  have le: "next_stream_id st \<le> ?n"
    using u64_no_wrap [of "next_stream_id st" "ucast c"] assms(3)
    by (simp add: word_le_nat_alt unat_ucast_u32)
  have "meta_inv (fold (\<lambda>s st. put_stream st (new_row s)) (u64_range (next_stream_id st) ?n)
      (st\<lparr>next_stream_id := ?n\<rparr>))"
    using assms(1) le
    by (intro meta_inv_fold_new_rows) (auto simp: in_u64_range_iff stream_bytes_fresh meta_inv_next_stream)
  then show ?thesis
    using assms(2) by (auto simp: create_streams_def Let_def fold_new_rows_next split: if_splits)
qed

lemma meta_inv_prepare_object:
  assumes "meta_inv st" and "prepare_object st c ttl now = Inr (t, r)"
    and "unat (next_object_id st) + unat c < 2 ^ 64"
  shows "meta_inv t"
proof -
  let ?n = "next_object_id st + ucast c"
  have le: "next_object_id st \<le> ?n"
    using u64_no_wrap [of "next_object_id st" "ucast c"] assms(3)
    by (simp add: word_le_nat_alt unat_ucast_u32)
  have "oget (prepared st) i = None" if "next_object_id st \<le> i" for i
    using assms(1) that unfolding meta_inv_def inv_prepared_def
    by (cases "oget (prepared st) i") (auto simp: not_less [symmetric])
  then have "meta_inv (fold (\<lambda>i st. put_prepared st i (now + max ttl 0))
      (u64_range (next_object_id st) ?n) (st\<lparr>next_object_id := ?n\<rparr>))"
    using assms(1) le
    by (intro meta_inv_fold_prepared)
      (auto simp: in_u64_range_iff distinct_u64_range meta_inv_next_object)
  then show ?thesis
    using assms(2) by (auto simp: prepare_object_def Let_def split: if_splits)
qed

section \<open>The destruction queue\<close>

text \<open>Room for \<open>n\<close> more destruction sequence numbers.\<close>

definition seq_room :: "metadata_state \<Rightarrow> nat \<Rightarrow> bool" where
  "seq_room st n \<longleftrightarrow> unat (next_destroyed_seq st) + n < 2 ^ 64"

definition inv_room :: "metadata_state \<Rightarrow> nat \<Rightarrow> bool" where
  "inv_room st n \<longleftrightarrow> meta_inv st \<and> seq_room st n"

lemma inv_room_meta [simp]: "inv_room st n \<Longrightarrow> meta_inv st"
  by (simp add: inv_room_def)

lemma inv_room_mono: "inv_room st n \<Longrightarrow> m \<le> n \<Longrightarrow> inv_room st m"
  by (simp add: inv_room_def seq_room_def)

lemma inv_roomI: "meta_inv t \<Longrightarrow> next_destroyed_seq t = next_destroyed_seq st \<Longrightarrow> inv_room st n \<Longrightarrow> inv_room t n"
  by (simp add: inv_room_def seq_room_def)

lemma inv_room_fold:
  assumes "\<And>x s n. inv_room s (Suc n) \<Longrightarrow> inv_room (f x s) n" and "inv_room s (length xs + n)"
  shows "inv_room (fold f xs s) n"
  using assms(2)
proof (induction xs arbitrary: s)
  case (Cons x xs)
  then have "inv_room (f x s) (length xs + n)"
    by (intro assms(1)) simp
  then show ?case by (simp add: Cons.IH)
qed simp

lemma inv_room_mark:
  assumes "inv_room st (Suc n)"
  shows "inv_room (mark_destroyed_object st i op) n"
proof (cases "oget (destroyed_by_id st) i")
  case (Some q)
  have inv: "meta_inv st" using assms by simp
  obtain op' where "oget (mark_destroyed st) q = Some (i, op')"
    by (rule destroyed_id_seq [OF inv Some])
  then have "q < next_destroyed_seq st"
    using inv unfolding meta_inv_def inv_destroyed_def by blast
  then have "meta_inv (put_destroyed st q i op)"
    using inv Some by (intro meta_inv_put_destroyed) simp_all
  then show ?thesis
    using assms Some by (simp add: mark_destroyed_object_def inv_room_def seq_room_def put_destroyed_def)
next
  case None
  let ?q = "next_destroyed_seq st"
  let ?u = "st\<lparr>next_destroyed_seq := ?q + 1\<rparr>"
  have inv: "meta_inv st" using assms by simp
  have "unat ?q + 1 < 2 ^ 64"
    using assms by (simp add: inv_room_def seq_room_def)
  then have q: "unat (?q + 1) = unat ?q + 1"
    using u64_no_wrap [of ?q 1] by simp
  then have lt: "?q < ?q + 1"
    by (simp add: word_less_nat_alt)
  have "oget (mark_destroyed st) ?q = None"
    using inv unfolding meta_inv_def inv_destroyed_def by (meson less_irrefl not_Some_eq)
  then have "meta_inv (put_destroyed ?u ?q i op)"
    using inv None lt by (intro meta_inv_put_destroyed meta_inv_next_destroyed) simp_all
  then show ?thesis
    using assms None q
    by (simp add: mark_destroyed_object_def Let_def inv_room_def seq_room_def put_destroyed_def)
qed

lemma inv_room_destroy:
  assumes "inv_room st (length keys + n)"
  shows "inv_room (destroy_stream_objects st keys) n"
  unfolding destroy_stream_objects_def
proof (rule inv_room_fold [OF _ assms])
  fix key s n assume room: "inv_room s (Suc n)"
  from room have "inv_room (remove_stream_object s (snd (snd key))) (Suc n)"
    by (rule inv_roomI [rotated 2]) (use room in \<open>simp_all add: meta_inv_remove_so\<close>)
  then show "inv_room (mark_destroyed_object (remove_stream_object s (snd (snd key))) (snd (snd key)) Delete) n"
    by (rule inv_room_mark)
qed

lemma length_orange_le: "length (orange lo hi m) \<le> osize m"
  by (simp add: orange_def)

text \<open>The states in which a successful trim and a successful delete end.\<close>

definition trim_state :: "metadata_state \<Rightarrow> u64 \<Rightarrow> stream_row \<Rightarrow> u64 \<Rightarrow> metadata_state" where
  "trim_state st s row off =
    (let st = put_stream st (row\<lparr>row_start_offset := off\<rparr>);
         covered = map fst (takeWhile (\<lambda>(_, start). start \<le> off) (stream_epochs st s));
         st = st\<lparr>epochs := fold (\<lambda>epoch. odel (s, epoch)) (butlast covered) (epochs st)\<rparr>
     in destroy_stream_objects st (map fst (filter (\<lambda>(_, row).
          rng_end_offset (first_range (sor_object row)) \<le> off) (objects_of st s))))"

lemma trim_stream_Ok:
  "trim_stream st n s e off = Inr (t, r) \<longleftrightarrow>
    (\<exists>row. oget (streams st) s = Some row \<and> row_epoch row = e \<and> check_owner st row n = Inr () \<and>
      row_start_offset row \<le> off \<and> off \<le> row_end_offset row \<and> t = trim_state st s row off \<and> r = ResUnit)"
  unfolding trim_stream_def trim_state_def Let_def by (auto simp: not_less)

definition delete_state :: "metadata_state \<Rightarrow> u64 \<Rightarrow> metadata_state" where
  "delete_state st s =
    (let st = remove_stream st s;
         st = st\<lparr>pending_transfers := odel s (pending_transfers st)\<rparr>;
         st = st\<lparr>epochs := fold (\<lambda>(epoch, _). odel (s, epoch)) (stream_epochs st s) (epochs st)\<rparr>
     in destroy_stream_objects st (map fst (objects_of st s)))"

lemma delete_stream_Ok:
  "delete_stream st n s e = Inr (t, r) \<longleftrightarrow>
    r = ResUnit \<and>
    (case oget (streams st) s of
       None \<Rightarrow> t = st
     | Some row \<Rightarrow> check_owner st row n = Inr () \<and> row_state row = Closed \<and> row_epoch row = e \<and>
         t = delete_state st s)"
  unfolding delete_stream_def delete_state_def Let_def by (auto split: option.split)

lemma inv_room_destroy_some:
  assumes "inv_room st (osize (stream_objects st))" and "meta_inv u"
    and "next_destroyed_seq u = next_destroyed_seq st" and "stream_objects u = stream_objects st"
  shows "meta_inv (destroy_stream_objects u (map fst (filter P (objects_of u s))))"
proof -
  have "length (map fst (filter P (objects_of u s))) \<le> osize (stream_objects st)"
    using assms(4) length_orange_le [of "(s, 0, 0)" "(s, u64_max, u64_max)" "stream_objects st"]
    by (simp add: objects_of_def order_trans [OF length_filter_le])
  then have "inv_room u (length (map fst (filter P (objects_of u s))) + 0)"
    using assms(1-3) by (intro inv_roomI [of u st] inv_room_mono [OF assms(1)]) simp_all
  from inv_room_destroy [OF this] show ?thesis by simp
qed

lemma meta_inv_trim_stream:
  assumes "inv_room st (osize (stream_objects st))" and "trim_stream st n s e off = Inr (t, r)"
  shows "meta_inv t"
proof -
  from assms(2) obtain row where row: "oget (streams st) s = Some row" and t: "t = trim_state st s row off"
    unfolding trim_stream_Ok by (elim exE conjE)
  have "meta_inv (put_stream st (row\<lparr>row_start_offset := off\<rparr>))"
    using assms(1) by (intro meta_inv_put_existing [OF _ row]) simp_all
  then show ?thesis
    unfolding t trim_state_def Let_def by (intro inv_room_destroy_some [OF assms(1)]) simp_all
qed

lemma meta_inv_delete_stream:
  assumes "inv_room st (osize (stream_objects st))" and "delete_stream st n s e = Inr (t, r)"
  shows "meta_inv t"
proof -
  have "meta_inv (delete_state st s)"
    using inv_room_destroy_some [OF assms(1), of _ "\<lambda>_. True"] assms(1)
    unfolding delete_state_def Let_def by (simp add: meta_inv_remove_stream)
  with assms show ?thesis
    by (simp add: delete_stream_Ok split: option.splits)
qed

section \<open>Commits and compactions\<close>

lemma advance_end_offset_cases:
  assumes "advance_end_offset st s a b c = Inr t"
  obtains row where "oget (streams st) s = Some row"
    and "t = st \<or> t = put_stream st (row\<lparr>row_end_offset := b\<rparr>)"
proof -
  have "\<exists>row. oget (streams st) s = Some row \<and> (t = st \<or> t = put_stream st (row\<lparr>row_end_offset := b\<rparr>))"
    using assms by (auto simp: advance_end_offset_def split: if_splits)
  with that show thesis by blast
qed

lemma meta_inv_advance:
  assumes "meta_inv st" and "advance_end_offset st s a b c = Inr t"
  shows "meta_inv t"
  using assms(2)
proof (rule advance_end_offset_cases)
  fix row assume "oget (streams st) s = Some row" "t = st \<or> t = put_stream st (row\<lparr>row_end_offset := b\<rparr>)"
  then show ?thesis
    using assms(1) meta_inv_put_existing [OF assms(1), of s row] by auto
qed

text \<open>Everything outside the stream rows and the node indexes stays as it is.\<close>

definition object_part :: "metadata_state \<Rightarrow> metadata_state" where
  "object_part st = st\<lparr>streams := oempty, opening_by_node := oempty, placed_by_node := oempty,
     streams_by_node := oempty\<rparr>"

definition same_objects :: "metadata_state \<Rightarrow> metadata_state \<Rightarrow> bool" where
  "same_objects st t \<longleftrightarrow> object_part t = object_part st"

lemma same_objects_refl [simp]: "same_objects st st"
  by (simp add: same_objects_def)

lemma same_objects_trans: "same_objects st t \<Longrightarrow> same_objects t u \<Longrightarrow> same_objects st u"
  by (simp add: same_objects_def)

lemma same_objects_put_stream [simp]: "same_objects st (put_stream st row)"
  unfolding same_objects_def by (rule metadata_state.equality) (simp_all add: object_part_def)

lemma same_objects_sels:
  assumes "same_objects st t"
  shows "next_stream_id t = next_stream_id st"
    "nodes t = nodes st"
    "pending_transfers t = pending_transfers st"
    "epochs t = epochs st"
    "next_producer_id t = next_producer_id st"
    "next_object_id t = next_object_id st"
    "prepared t = prepared st"
    "prepared_by_deadline t = prepared_by_deadline st"
    "stream_set_objects t = stream_set_objects st"
    "sso_ranges t = sso_ranges st"
    "sso_by_node t = sso_by_node st"
    "stream_objects t = stream_objects st"
    "stream_object_ids t = stream_object_ids st"
    "mark_destroyed t = mark_destroyed st"
    "destroyed_by_id t = destroyed_by_id st"
    "next_destroyed_seq t = next_destroyed_seq st"
    "kv t = kv st"
    "kv_bytes t = kv_bytes st"
    "stored_bytes t = stored_bytes st"
  using assms [unfolded same_objects_def, THEN arg_cong, of next_stream_id]
    assms [unfolded same_objects_def, THEN arg_cong, of nodes]
    assms [unfolded same_objects_def, THEN arg_cong, of pending_transfers]
    assms [unfolded same_objects_def, THEN arg_cong, of epochs]
    assms [unfolded same_objects_def, THEN arg_cong, of next_producer_id]
    assms [unfolded same_objects_def, THEN arg_cong, of next_object_id]
    assms [unfolded same_objects_def, THEN arg_cong, of prepared]
    assms [unfolded same_objects_def, THEN arg_cong, of prepared_by_deadline]
    assms [unfolded same_objects_def, THEN arg_cong, of stream_set_objects]
    assms [unfolded same_objects_def, THEN arg_cong, of sso_ranges]
    assms [unfolded same_objects_def, THEN arg_cong, of sso_by_node]
    assms [unfolded same_objects_def, THEN arg_cong, of stream_objects]
    assms [unfolded same_objects_def, THEN arg_cong, of stream_object_ids]
    assms [unfolded same_objects_def, THEN arg_cong, of mark_destroyed]
    assms [unfolded same_objects_def, THEN arg_cong, of destroyed_by_id]
    assms [unfolded same_objects_def, THEN arg_cong, of next_destroyed_seq]
    assms [unfolded same_objects_def, THEN arg_cong, of kv]
    assms [unfolded same_objects_def, THEN arg_cong, of kv_bytes]
    assms [unfolded same_objects_def, THEN arg_cong, of stored_bytes]
  by (simp_all add: object_part_def)

lemma same_objects_advance: "advance_end_offset st s a b c = Inr t \<Longrightarrow> same_objects st t"
  by (erule advance_end_offset_cases) auto

text \<open>A loop of range checks: it keeps the objects, and every range names a known stream.\<close>

lemma advance_fold:
  assumes "rfold (\<lambda>st r. advance_end_offset st (f r) (g r) (h r) c) rs st = Inr t" and "meta_inv st"
  shows "meta_inv t" and "same_objects st t" and "\<forall>r \<in> set rs. f r < next_stream_id st"
proof -
  have "meta_inv t \<and> same_objects st t \<and> (\<forall>r \<in> set rs. f r < next_stream_id st)"
    using assms
  proof (induction rs arbitrary: st)
    case (Cons r rs)
    from Cons.prems(1) obtain u where u: "advance_end_offset st (f r) (g r) (h r) c = Inr u"
      and run: "rfold (\<lambda>st r. advance_end_offset st (f r) (g r) (h r) c) rs u = Inr t" by auto
    from u obtain row where row: "oget (streams st) (f r) = Some row"
      by (rule advance_end_offset_cases)
    from Cons.IH [OF run meta_inv_advance [OF Cons.prems(2) u]] same_objects_advance [OF u]
      stream_row_below [OF Cons.prems(2) row]
    show ?case by (auto simp: same_objects_sels intro: same_objects_trans)
  qed simp
  then show "meta_inv t" "same_objects st t" "\<forall>r \<in> set rs. f r < next_stream_id st"
    by auto
qed

lemma remove_prepared_sels [simp]:
  "next_stream_id (remove_prepared st i) = next_stream_id st" "streams (remove_prepared st i) = streams st"
  "stream_set_objects (remove_prepared st i) = stream_set_objects st"
  "stream_object_ids (remove_prepared st i) = stream_object_ids st"
  "stream_objects (remove_prepared st i) = stream_objects st"
  "next_destroyed_seq (remove_prepared st i) = next_destroyed_seq st"
  "mark_destroyed (remove_prepared st i) = mark_destroyed st"
  "destroyed_by_id (remove_prepared st i) = destroyed_by_id st"
  "epochs (remove_prepared st i) = epochs st" "nodes (remove_prepared st i) = nodes st"
  "pending_transfers (remove_prepared st i) = pending_transfers st"
  "next_object_id (remove_prepared st i) = next_object_id st"
  "next_producer_id (remove_prepared st i) = next_producer_id st"
  by (simp_all add: remove_prepared_def split: option.split)

lemma check_object_id_free_None:
  "check_object_id_free st i None = Inr () \<longleftrightarrow> \<not> ohas (stream_set_objects st) i \<and> \<not> ohas (stream_object_ids st) i"
  by (auto simp: check_object_id_free_def ohas_def split: option.split)

lemma check_object_id_free_sso:
  "check_object_id_free st i k = Inr u \<Longrightarrow> \<not> ohas (stream_set_objects st) i"
  by (auto simp: check_object_id_free_def split: if_splits)

lemma meta_inv_commit_set_part:
  assumes inv: "meta_inv st" and run: "commit_set_part noop st n req now c dt lw = Inr t"
  shows "meta_inv t" and "next_destroyed_seq t = next_destroyed_seq st"
proof -
  have "meta_inv t \<and> next_destroyed_seq t = next_destroyed_seq st"
  proof (cases "cr_object_id req = noop")
    case True
    with inv run show ?thesis by (simp add: commit_set_part_def)
  next
    case False
    with run obtain u where free: "check_object_id_free st (cr_object_id req) None = Inr ()"
      and fold: "rfold (\<lambda>st range. advance_end_offset st (osr_stream_id range) (osr_start_offset range)
          (osr_end_offset range) c) (cr_stream_ranges req) (remove_prepared st (cr_object_id req)) = Inr u"
      and t: "t = put_stream_set_object u
         \<lparr>sso_node_id = n,
          sso_object =
            \<lparr>obj_object_id = cr_object_id req, obj_object_type = StreamSet,
             obj_offset_ranges = map (\<lambda>r. \<lparr>rng_stream_id = osr_stream_id r,
               rng_start_offset = osr_start_offset r, rng_end_offset = osr_end_offset r\<rparr>)
               (cr_stream_ranges req),
             obj_object_size = cr_object_size req, obj_attributes = cr_attributes req,
             obj_committed_timestamp_ms = now, obj_data_timestamp_ms = dt\<rparr>,
          sso_range_sizes = map osr_size (cr_stream_ranges req),
          sso_last_write_ms = lw\<rparr>"
      by (auto simp: commit_set_part_def)
    note u = advance_fold [OF fold meta_inv_remove_prepared [OF inv]]
    have "meta_inv t"
      unfolding t using u free
      by (intro meta_inv_put_sso)
        (simp_all add: sso_row_ok_def same_objects_sels check_object_id_free_None)
    with u(2) t show ?thesis by (simp add: same_objects_sels)
  qed
  then show "meta_inv t" "next_destroyed_seq t = next_destroyed_seq st" by auto
qed

lemma meta_inv_insert_so:
  assumes "meta_inv st" and "so_stream_id so < next_stream_id st"
    and "\<not> ohas (stream_set_objects st) (so_object_id so)"
  shows "meta_inv (insert_stream_object st so dt now lw)"
  using assms unfolding insert_stream_object_def
  by (intro meta_inv_put_so) (simp_all add: so_row_ok_def first_range_def)

lemma meta_inv_commit_stream_part:
  assumes inv: "meta_inv st" and run: "commit_stream_part st so now c dt lw = Inr t"
  shows "meta_inv t"
proof -
  from run obtain u k where free: "check_object_id_free st (so_object_id so) k = Inr ()"
    and u: "advance_end_offset (remove_prepared st (so_object_id so)) (so_stream_id so)
            (so_start_offset so) (so_end_offset so) c = Inr u"
    and t: "t = insert_stream_object u so dt now lw"
    unfolding commit_stream_part_def by (simp add: eq_commute [of _ t]) blast
  have inv': "meta_inv (remove_prepared st (so_object_id so))"
    using inv by (rule meta_inv_remove_prepared)
  from u obtain row where "oget (streams st) (so_stream_id so) = Some row"
    by (rule advance_end_offset_cases) simp
  from stream_row_below [OF inv this] same_objects_advance [OF u] check_object_id_free_sso [OF free]
  show ?thesis
    unfolding t by (intro meta_inv_insert_so meta_inv_advance [OF inv' u]) (simp_all add: same_objects_sels)
qed

lemma commit_Ok_cases:
  assumes "commit_stream_set_object noop st n req now = Inr (t, r)"
  obtains c dt lw v where "c \<longleftrightarrow> cr_compacted_object_ids req \<noteq> []"
    and "commit_set_part noop (fold (\<lambda>i st. mark_destroyed_object (remove_stream_set_object st i) i Delete)
      (cr_compacted_object_ids req) st) n req now c dt lw = Inr v"
    and "rfold (\<lambda>st so. commit_stream_part st so now c dt lw) (cr_stream_objects req) v = Inr t"
  using assms unfolding commit_stream_set_object_def Let_def
  by (simp only: rbind_eq_Inr sum.inject prod.inject) blast

lemma inv_room_compacted:
  assumes "inv_room st (length ids)"
  shows "meta_inv (fold (\<lambda>i st. mark_destroyed_object (remove_stream_set_object st i) i Delete) ids st)"
proof -
  have "inv_room (fold (\<lambda>i st. mark_destroyed_object (remove_stream_set_object st i) i Delete) ids st) 0"
  proof (rule inv_room_fold)
    fix i s n assume s: "inv_room s (Suc n)"
    then have "inv_room (remove_stream_set_object s i) (Suc n)"
      by (rule inv_roomI [rotated 2]) (use s in \<open>simp_all add: meta_inv_remove_sso\<close>)
    then show "inv_room (mark_destroyed_object (remove_stream_set_object s i) i Delete) n"
      by (rule inv_room_mark)
  qed (use assms in simp)
  then show ?thesis by simp
qed

lemma meta_inv_commit:
  assumes room: "inv_room st (length (cr_compacted_object_ids req))"
    and run: "commit_stream_set_object noop st n req now = Inr (t, r)"
  shows "meta_inv t"
  using run
proof (rule commit_Ok_cases)
  let ?u = "fold (\<lambda>i st. mark_destroyed_object (remove_stream_set_object st i) i Delete) (cr_compacted_object_ids req) st"
  fix c dt lw v
  assume v: "commit_set_part noop ?u n req now c dt lw = Inr v"
    and t: "rfold (\<lambda>st so. commit_stream_part st so now c dt lw) (cr_stream_objects req) v = Inr t"
  show ?thesis
    by (rule rfold_invariant [OF t, of meta_inv])
      (use meta_inv_commit_set_part(1) [OF inv_room_compacted [OF room] v] meta_inv_commit_stream_part in blast)+
qed

lemma inv_room_mark_objects:
  assumes "inv_room st (length ids)" and "mark_destroy_objects st ids ops = Inr t"
  shows "meta_inv t"
proof -
  have "inv_room (fold (\<lambda>i st. mark_destroyed_object st i Delete) ids st) 0"
    using assms(1) by (intro inv_room_fold inv_room_mark) simp_all
  moreover have "inv_room (fold (\<lambda>(i, op) st. mark_destroyed_object st i op) (zip ids ops) st) 0"
    using inv_room_mono [OF assms(1), of "length (zip ids ops)"]
    by (intro inv_room_fold) (auto intro: inv_room_mark)
  ultimately show ?thesis
    using assms by (auto simp: mark_destroy_objects_def split: if_splits)
qed

lemma meta_inv_compact:
  assumes room: "inv_room st (length (kr_source_object_ids req))"
    and run: "compact_stream_object noop st req now = Inr (t, r)"
  shows "meta_inv t"
proof -
  let ?s = "kr_stream_id req" and ?i = "kr_object_id req"
  let ?so = "\<lparr>so_object_id = ?i, so_object_size = kr_object_size req, so_stream_id = ?s,
    so_start_offset = kr_start_offset req, so_end_offset = kr_end_offset req, so_attributes = kr_attributes req\<rparr>"
  let ?u = "remove_prepared st ?i"
  let ?w = "\<lambda>lw. if ?i \<noteq> noop then insert_stream_object ?u ?so now now lw else ?u"
  let ?drop = "\<lambda>j st. if (case oget (stream_object_ids st) j of None \<Rightarrow> False | Some key \<Rightarrow> fst key = ?s)
      then remove_stream_object st j else st"
  from run obtain row lw k where row: "oget (streams st) ?s = Some row"
    and free: "?i \<noteq> noop \<Longrightarrow> check_object_id_free st ?i k = Inr ()"
    and t: "mark_destroy_objects (fold ?drop (kr_source_object_ids req) (?w lw))
        (kr_source_object_ids req) (kr_operations req) = Inr t"
    unfolding compact_stream_object_def Let_def
    by (cases "?i \<noteq> noop") (auto split: if_splits)
  have "?i \<noteq> noop \<Longrightarrow> meta_inv (insert_stream_object ?u ?so now now lw)"
    using room free check_object_id_free_sso [of st ?i k] stream_row_below [OF _ row]
    by (intro meta_inv_insert_so meta_inv_remove_prepared) auto
  then have "inv_room (?w lw) (length (kr_source_object_ids req))"
    using room by (auto simp: inv_room_def seq_room_def meta_inv_remove_prepared insert_stream_object_def)
  then have "inv_room (fold ?drop (kr_source_object_ids req) (?w lw)) (length (kr_source_object_ids req))"
  proof (rule fold_invariant_list)
    fix j s assume s: "inv_room s (length (kr_source_object_ids req))"
    then have "inv_room (remove_stream_object s j) (length (kr_source_object_ids req))"
      by (rule inv_roomI [rotated 2]) (use s in \<open>simp_all add: meta_inv_remove_so\<close>)
    with s show "inv_room (?drop j s) (length (kr_source_object_ids req))"
      by (auto split: option.split)
  qed
  then show ?thesis by (rule inv_room_mark_objects) (rule t)
qed

section \<open>Every command\<close>

text \<open>
  \<open>fits st command\<close>: the counters that the command advances do not wrap. A trim or a delete marks
  at most the stream objects there are, a commit its compacted ids, a compaction its sources. A
  node that registers again takes the epoch after its stored one.
\<close>

fun fits :: "metadata_state \<Rightarrow> metadata_command \<Rightarrow> bool" where
  "fits st (CreateStream p) = (unat (next_stream_id st) + 1 < 2 ^ 64)"
| "fits st (CreateStreams p count) = (unat (next_stream_id st) + unat count < 2 ^ 64)"
| "fits st (PrepareObject p count ttl now) = (unat (next_object_id st) + unat count < 2 ^ 64)"
| "fits st (AllocateProducerIds p count) = (unat (next_producer_id st) + unat count < 2 ^ 64)"
| "fits st (TrimStream p s e off) = seq_room st (osize (stream_objects st))"
| "fits st (DeleteStream p s e) = seq_room st (osize (stream_objects st))"
| "fits st (CommitStreamSetObject p req now) = seq_room st (length (cr_compacted_object_ids req))"
| "fits st (CompactStreamObject p req now) = seq_room st (length (kr_source_object_ids req))"
| "fits st (RegisterNode n e http slots protos wal) =
    (case oget (nodes st) n of None \<Rightarrow> True | Some r \<Rightarrow> nr_epoch r < i64_max)"
| "fits st _ = True"

lemma meta_inv_run_command:
  assumes "meta_inv st" and "fits st c" and "run_command noop st c = Inr (t, r)"
  shows "meta_inv t"
proof (cases c)
  case (CommitStreamSetObject p req now)
  with assms show ?thesis
    by (intro meta_inv_commit [of st req]) (auto simp: inv_room_def)
next
  case (CompactStreamObject p req now)
  with assms show ?thesis
    by (intro meta_inv_compact [of st req]) (auto simp: inv_room_def)
next
  case (TrimStream p s e off)
  with assms show ?thesis
    by (intro meta_inv_trim_stream [of st]) (auto simp: inv_room_def)
next
  case (DeleteStream p s e)
  with assms show ?thesis
    by (intro meta_inv_delete_stream [of st]) (auto simp: inv_room_def)
qed (use assms(2,3) in \<open>auto dest: meta_inv_register_node [OF assms(1)] meta_inv_node_handlers [OF assms(1)]
    meta_inv_row_handlers [OF assms(1)] meta_inv_kv_handlers [OF assms(1)]
    meta_inv_simple_folds [OF assms(1)] meta_inv_create_stream [OF assms(1)]
    meta_inv_create_streams [OF assms(1)] meta_inv_prepare_object [OF assms(1)]\<close>)

text \<open>A command either fails and leaves the state alone, or its handler ran to the end.\<close>

lemma apply_command_cases:
  assumes "apply_command noop st c = (t, res)"
  obtains (err) e where "res = Inl e" and "t = st"
  | (ok) r where "res = Inr r" and "run_command noop st c = Inr (t, r)"
      and "\<And>p. command_proposer c = Some p \<Longrightarrow> check_proposer st p = Inr ()"
proof (cases "apply_inner noop st c")
  case (Inl e)
  with assms have "res = Inl e" "t = st" by (simp_all add: apply_command_def)
  then show thesis by (rule err)
next
  case (Inr p)
  with assms have res: "res = Inr (snd p)" and run: "apply_inner noop st c = Inr (t, snd p)"
    by (auto simp: apply_command_def split: prod.splits)
  have "run_command noop st c = Inr (t, snd p)"
    using run by (auto simp: apply_inner_def split: option.splits)
  moreover have "check_proposer st q = Inr ()" if "command_proposer c = Some q" for q
    using run that by (auto simp: apply_inner_def)
  ultimately show thesis by (rule ok [OF res])
qed

definition apply_state :: "u64 \<Rightarrow> metadata_state \<Rightarrow> metadata_command \<Rightarrow> metadata_state" where
  "apply_state noop st c = fst (apply_command noop st c)"

lemma meta_inv_apply_state:
  assumes "meta_inv st" and "fits st c"
  shows "meta_inv (apply_state noop st c)"
proof -
  obtain t res where run: "apply_command noop st c = (t, res)"
    by (cases "apply_command noop st c")
  from run show ?thesis
  proof (cases rule: apply_command_cases)
    case err
    with run assms show ?thesis by (simp add: apply_state_def)
  next
    case (ok r)
    from meta_inv_run_command [OF assms ok(2)] run show ?thesis by (simp add: apply_state_def)
  qed
qed

interpretation meta: guarded_machine "apply_state noop" fits meta_inv for noop
  by unfold_locales (rule meta_inv_apply_state)

end
