(* ===== verification/Meta_Life.thy ===== *)
theory Meta_Life
  imports Meta_Apply_Inv
begin

text \<open>
  What the commands may do to a stream, and what no sequence of commands can undo. A stream follows
  the abstract life cycle \<open>life_step\<close> (created once, closed or opened, placed only while closed,
  opened only at a higher epoch, deleted only while closed); every command of the state machine
  refines it. From that follow the fencing guarantees over whole logs: epochs never go back, one node
  per epoch, deleted ids never return, and a superseded or fenced proposer is rejected for good.
\<close>

section \<open>The abstract life cycle of a stream\<close>

inductive life_step :: "u64 \<Rightarrow> bool \<Rightarrow> stream_row option \<Rightarrow> stream_row option \<Rightarrow> bool"
  for s :: u64 and fresh :: bool where
  stay: "life_step s fresh x x"
| create: "fresh \<Longrightarrow> life_step s fresh None (Some (new_row s))"
| place: "row_state r = Closed \<Longrightarrow> life_step s fresh (Some r) (Some (r\<lparr>row_node_id := n\<rparr>))"
| openit: "row_state r = Closed \<Longrightarrow> row_epoch r < e \<Longrightarrow>
    life_step s fresh (Some r) (Some (r\<lparr>row_epoch := e, row_state := Opened, row_node_id := n\<rparr>))"
| closeit: "row_state r = Opened \<Longrightarrow> life_step s fresh (Some r) (Some (r\<lparr>row_state := Closed\<rparr>))"
| trim: "row_start_offset r \<le> off \<Longrightarrow> off \<le> row_end_offset r \<Longrightarrow>
    life_step s fresh (Some r) (Some (r\<lparr>row_start_offset := off\<rparr>))"
| extend: "life_step s fresh (Some r) (Some (r\<lparr>row_end_offset := off\<rparr>))"
| delete: "row_state r = Closed \<Longrightarrow> life_step s fresh (Some r) None"

text \<open>The abstraction: a stream's row without the derived byte count.\<close>

definition stream_view :: "metadata_state \<Rightarrow> u64 \<Rightarrow> stream_row option" where
  "stream_view st s = map_option bare (oget (streams st) s)"

lemma bare_simps [simp]:
  "row_stream_id (bare r) = row_stream_id r" "row_epoch (bare r) = row_epoch r"
  "row_start_offset (bare r) = row_start_offset r" "row_end_offset (bare r) = row_end_offset r"
  "row_state (bare r) = row_state r" "row_node_id (bare r) = row_node_id r"
  "bare (add_bytes b r) = bare r" "bare (stored_row st r) = bare r" "bare (bare r) = bare r"
  "bare (r\<lparr>row_epoch := e\<rparr>) = (bare r)\<lparr>row_epoch := e\<rparr>"
  "bare (r\<lparr>row_start_offset := o1\<rparr>) = (bare r)\<lparr>row_start_offset := o1\<rparr>"
  "bare (r\<lparr>row_end_offset := o1\<rparr>) = (bare r)\<lparr>row_end_offset := o1\<rparr>"
  "bare (r\<lparr>row_state := x\<rparr>) = (bare r)\<lparr>row_state := x\<rparr>"
  "bare (r\<lparr>row_node_id := n\<rparr>) = (bare r)\<lparr>row_node_id := n\<rparr>"
  "bare (new_row s) = new_row s"
  by (simp_all add: bare_def add_bytes_def stored_row_def new_row_def)

lemma stream_view_Some: "stream_view st s = Some r \<longleftrightarrow> (\<exists>r'. oget (streams st) s = Some r' \<and> r = bare r')"
  by (auto simp: stream_view_def)

lemma stream_view_None [simp]: "stream_view st s = None \<longleftrightarrow> oget (streams st) s = None"
  by (simp add: stream_view_def)

subsection \<open>How the primitive updates act on the view\<close>

lemma stream_view_cong: "streams t = streams st \<Longrightarrow> stream_view t s = stream_view st s"
  by (simp add: stream_view_def)

lemma view_put_stream [simp]:
  "stream_view (put_stream st row) s = (if s = row_stream_id row then Some (bare row) else stream_view st s)"
  by (simp add: stream_view_def)

lemma view_remove_stream [simp]:
  "stream_view (remove_stream st x) s = (if s = x then None else stream_view st s)"
  by (simp add: stream_view_def)

lemma view_bump: "map_option bare (oget (bump_bytes x b m) s) = map_option bare (oget m s)"
  by (simp add: oget_bump_bytes option.map_comp comp_def)

lemma view_add_bytes [simp]: "stream_view (add_stream_bytes st x b) s = stream_view st s"
  by (simp add: stream_view_def add_stream_bytes_eq view_bump)

lemma view_remove_bytes [simp]: "stream_view (remove_stream_bytes st x b) s = stream_view st s"
  by (simp add: stream_view_def remove_stream_bytes_eq view_bump)

lemma view_fields [simp]:
  "stream_view (st\<lparr>nodes := a1\<rparr>) s = stream_view st s"
  "stream_view (st\<lparr>next_stream_id := a2\<rparr>) s = stream_view st s"
  "stream_view (st\<lparr>epochs := a3\<rparr>) s = stream_view st s"
  "stream_view (st\<lparr>pending_transfers := a4\<rparr>) s = stream_view st s"
  "stream_view (st\<lparr>next_producer_id := a5\<rparr>) s = stream_view st s"
  "stream_view (st\<lparr>next_object_id := a6\<rparr>) s = stream_view st s"
  "stream_view (st\<lparr>stored_bytes := a7\<rparr>) s = stream_view st s"
  "stream_view (st\<lparr>stream_set_objects := a8\<rparr>) s = stream_view st s"
  "stream_view (st\<lparr>sso_ranges := a9\<rparr>) s = stream_view st s"
  "stream_view (st\<lparr>sso_by_node := b1\<rparr>) s = stream_view st s"
  "stream_view (st\<lparr>stream_objects := b2\<rparr>) s = stream_view st s"
  "stream_view (st\<lparr>stream_object_ids := b3\<rparr>) s = stream_view st s"
  "stream_view (st\<lparr>next_destroyed_seq := b4\<rparr>) s = stream_view st s"
  "stream_view (st\<lparr>kv := b5\<rparr>) s = stream_view st s"
  "stream_view (st\<lparr>kv_bytes := b6\<rparr>) s = stream_view st s"
  by (simp_all add: stream_view_def)

lemma view_fold_same:
  assumes "\<And>x st. stream_view (f x st) s = stream_view st s"
  shows "stream_view (fold f xs st) s = stream_view st s"
  by (rule fold_invariant_list [where P = "\<lambda>t. stream_view t s = stream_view st s"]) (simp_all add: assms)

lemma view_remove_sso [simp]: "stream_view (remove_stream_set_object st i) s = stream_view st s"
  by (simp add: remove_stream_set_object_def Let_def view_fold_same case_prod_unfold split: option.split)

lemma view_put_sso [simp]: "stream_view (put_stream_set_object st row) s = stream_view st s"
  by (simp add: put_stream_set_object_def Let_def view_fold_same case_prod_unfold)

lemma view_remove_so [simp]: "stream_view (remove_stream_object st i) s = stream_view st s"
  by (simp add: remove_stream_object_def Let_def split: option.split)

lemma view_put_so [simp]: "stream_view (put_stream_object st row) s = stream_view st s"
  by (simp add: put_stream_object_def Let_def)

lemma view_insert_so [simp]: "stream_view (insert_stream_object st so a b c) s = stream_view st s"
  by (simp add: insert_stream_object_def)

lemma view_small [simp]:
  "stream_view (put_prepared st i d) s = stream_view st s"
  "stream_view (remove_prepared st i) s = stream_view st s"
  "stream_view (put_destroyed st q i op) s = stream_view st s"
  "stream_view (remove_destroyed st i) s = stream_view st s"
  "stream_view (put_kv_row st k v) s = stream_view st s"
  "stream_view (fst (remove_kv_row st k)) s = stream_view st s"
  by (simp_all add: stream_view_def put_prepared_def put_destroyed_def remove_destroyed_def
    put_kv_row_def remove_kv_row_def Let_def split: option.split)

lemma view_mark [simp]: "stream_view (mark_destroyed_object st i op) s = stream_view st s"
  by (simp add: mark_destroyed_object_def Let_def split: option.split)

lemma view_destroy [simp]: "stream_view (destroy_stream_objects st keys) s = stream_view st s"
  by (simp add: destroy_stream_objects_def view_fold_same)

lemma view_mark_objects: "mark_destroy_objects st ids ops = Inr t \<Longrightarrow> stream_view t s = stream_view st s"
  by (auto simp: mark_destroy_objects_def view_fold_same case_prod_unfold split: if_splits)

subsection \<open>Commits extend streams\<close>

definition extends_view :: "stream_row option \<Rightarrow> stream_row option \<Rightarrow> bool" where
  "extends_view x y \<longleftrightarrow> x = y \<or> (\<exists>r off. x = Some r \<and> y = Some (r\<lparr>row_end_offset := off\<rparr>))"

lemma extends_view_refl [simp]: "extends_view x x"
  by (simp add: extends_view_def)

lemma extends_view_trans: "extends_view x y \<Longrightarrow> extends_view y z \<Longrightarrow> extends_view x z"
  by (auto simp: extends_view_def)

lemma extends_view_life: "extends_view x y \<Longrightarrow> life_step s fresh x y"
  by (auto simp: extends_view_def intro: life_step.intros)

lemma extends_advance:
  assumes "meta_inv st" and "advance_end_offset st x a b c = Inr t"
  shows "extends_view (stream_view st s) (stream_view t s)"
  using assms(2)
proof (rule advance_end_offset_cases)
  fix row assume row: "oget (streams st) x = Some row"
    and t: "t = st \<or> t = put_stream st (row\<lparr>row_end_offset := b\<rparr>)"
  from t show ?thesis
  proof
    assume t: "t = put_stream st (row\<lparr>row_end_offset := b\<rparr>)"
    have "stream_view st x = Some (bare row)"
      using row by (simp add: stream_view_def)
    with stream_row_id [OF assms(1) row] t show ?thesis
      by (auto simp: extends_view_def)
  qed simp
qed

lemma extends_advance_fold:
  assumes "rfold (\<lambda>st r. advance_end_offset st (f r) (g r) (h r) c) rs st = Inr t" and "meta_inv st"
  shows "extends_view (stream_view st s) (stream_view t s)"
proof -
  have "meta_inv t \<and> extends_view (stream_view st s) (stream_view t s)"
    by (rule rfold_invariant [OF assms(1)])
      (use assms(2) meta_inv_advance extends_advance extends_view_trans extends_view_refl in blast)+
  then show ?thesis ..
qed

lemma extends_set_part:
  assumes "meta_inv st" and "commit_set_part noop st n req now c dt lw = Inr t"
  shows "extends_view (stream_view st s) (stream_view t s)"
proof (cases "cr_object_id req = noop")
  case True
  with assms(2) show ?thesis by (simp add: commit_set_part_def)
next
  case False
  with assms(2) obtain u row where "rfold (\<lambda>st range. advance_end_offset st (osr_stream_id range)
      (osr_start_offset range) (osr_end_offset range) c) (cr_stream_ranges req)
      (remove_prepared st (cr_object_id req)) = Inr u" and "t = put_stream_set_object u row"
    by (auto simp: commit_set_part_def)
  with extends_advance_fold [OF this(1), of s] meta_inv_remove_prepared [OF assms(1)] show ?thesis
    by simp
qed

lemma extends_stream_part:
  assumes "meta_inv st" and "commit_stream_part st so now c dt lw = Inr t"
  shows "extends_view (stream_view st s) (stream_view t s)"
proof -
  from assms(2) obtain u where "advance_end_offset (remove_prepared st (so_object_id so)) (so_stream_id so)
      (so_start_offset so) (so_end_offset so) c = Inr u" and "t = insert_stream_object u so dt now lw"
    by (auto simp: commit_stream_part_def)
  with extends_advance [OF meta_inv_remove_prepared [OF assms(1)] this(1), of s] show ?thesis
    by simp
qed

lemma extends_commit:
  assumes "inv_room st (length (cr_compacted_object_ids req))"
    and run: "commit_stream_set_object noop st n req now = Inr (t, r)"
  shows "extends_view (stream_view st s) (stream_view t s)"
  using run
proof (rule commit_Ok_cases)
  let ?u = "fold (\<lambda>i st. mark_destroyed_object (remove_stream_set_object st i) i Delete) (cr_compacted_object_ids req) st"
  fix c dt lw v
  assume v: "commit_set_part noop ?u n req now c dt lw = Inr v"
    and t: "rfold (\<lambda>st so. commit_stream_part st so now c dt lw) (cr_stream_objects req) v = Inr t"
  have u: "meta_inv ?u" "stream_view ?u s = stream_view st s"
    using inv_room_compacted [OF assms(1)] by (simp_all add: view_fold_same)
  have "meta_inv t \<and> extends_view (stream_view st s) (stream_view t s)"
  proof (rule rfold_invariant [OF t])
    show "meta_inv v \<and> extends_view (stream_view st s) (stream_view v s)"
      using meta_inv_commit_set_part(1) [OF u(1) v] extends_set_part [OF u(1) v, of s] u(2) by simp
  qed (use meta_inv_commit_stream_part extends_stream_part extends_view_trans in blast)
  then show ?thesis ..
qed

lemma view_compact:
  assumes "compact_stream_object noop st req now = Inr (t, r)"
  shows "stream_view t s = stream_view st s"
proof -
  have drop: "stream_view (fold (\<lambda>j st. if P j st then remove_stream_object st j else st) ids u) s = stream_view u s"
    for P ids u
    by (rule view_fold_same) simp
  show ?thesis
    using assms unfolding compact_stream_object_def Let_def
    by (auto simp: drop dest!: view_mark_objects [where s = s] split: if_splits)
qed

section \<open>Every command refines the life cycle\<close>

lemma view_fold_new_rows:
  "stream_view (fold (\<lambda>i st. put_stream st (new_row i)) ids st) s =
    (if s \<in> set ids then Some (new_row s) else stream_view st s)"
  by (induction ids arbitrary: st) auto

lemma stream_view_existing:
  assumes "meta_inv st" and "oget (streams st) x = Some row"
  shows "stream_view (put_stream st (f row)) s =
    (if s = row_stream_id (f row) then Some (bare (f row)) else stream_view st s)"
    and "stream_view st x = Some (bare row)" and "row_stream_id row = x"
  using assms by (simp_all add: stream_view_def stream_row_id)

lemma life_row_handlers:
  assumes inv: "meta_inv st"
  shows "place_stream st x n = Inr (t, r) \<Longrightarrow> life_step s f (stream_view st s) (stream_view t s)"
    and "open_stream st n' x e = Inr (t, r) \<Longrightarrow> life_step s f (stream_view st s) (stream_view t s)"
    and "close_stream st n' x e = Inr (t, r) \<Longrightarrow> life_step s f (stream_view st s) (stream_view t s)"
    and "transfer_stream st x a b = Inr (t, r) \<Longrightarrow> life_step s f (stream_view st s) (stream_view t s)"
    and "complete_transfer st x e = Inr (t, r) \<Longrightarrow> life_step s f (stream_view st s) (stream_view t s)"
    and "trim_stream st n' x e off = Inr (t, r) \<Longrightarrow> life_step s f (stream_view st s) (stream_view t s)"
    and "delete_stream st n' x e = Inr (t, r) \<Longrightarrow> life_step s f (stream_view st s) (stream_view t s)"
proof -
  note view = stream_view_existing(2,3) [OF inv]
  have closed: "row_state r \<noteq> Opened \<longleftrightarrow> row_state r = Closed" for r
    by (cases "row_state r") auto
  show "place_stream st x n = Inr (t, r) \<Longrightarrow> life_step s f (stream_view st s) (stream_view t s)"
    by (auto simp: place_stream_def Let_def view closed split: option.splits if_splits) (auto intro: life_step.intros)
  show "open_stream st n' x e = Inr (t, r) \<Longrightarrow> life_step s f (stream_view st s) (stream_view t s)"
    by (auto simp: open_stream_def Let_def view closed not_less order.order_iff_strict split: if_splits) (auto intro: life_step.intros)
  show "close_stream st n' x e = Inr (t, r) \<Longrightarrow> life_step s f (stream_view st s) (stream_view t s)"
    by (auto simp: close_stream_def view split: if_splits) (auto intro: life_step.intros)
  show "transfer_stream st x a b = Inr (t, r) \<Longrightarrow> life_step s f (stream_view st s) (stream_view t s)"
    by (auto simp: transfer_stream_def split: option.splits if_splits) (auto intro: life_step.intros)
  show "complete_transfer st x e = Inr (t, r) \<Longrightarrow> life_step s f (stream_view st s) (stream_view t s)"
    by (auto simp: complete_transfer_def Let_def view split: option.splits if_splits) (auto intro: life_step.intros)
  show "trim_stream st n' x e off = Inr (t, r) \<Longrightarrow> life_step s f (stream_view st s) (stream_view t s)"
    by (auto simp: trim_stream_Ok trim_state_def Let_def view) (auto intro: life_step.intros)
  show "delete_stream st n' x e = Inr (t, r) \<Longrightarrow> life_step s f (stream_view st s) (stream_view t s)"
    by (auto simp: delete_stream_Ok delete_state_def Let_def view split: option.splits) (auto intro: life_step.intros)
qed

lemma view_other_handlers:
  "register_node st n e h sl pa w = Inr (t, r) \<Longrightarrow> stream_view t s = stream_view st s"
  "set_node_slots st n sl = Inr (t, r) \<Longrightarrow> stream_view t s = stream_view st s"
  "heartbeat st n = Inr (t, r) \<Longrightarrow> stream_view t s = stream_view st s"
  "fence_node st p n e hb = Inr (t, r) \<Longrightarrow> stream_view t s = stream_view st s"
  "put_kv st k v = Inr (t, r) \<Longrightarrow> stream_view t s = stream_view st s"
  "put_kv_if_absent st k v = Inr (t, r) \<Longrightarrow> stream_view t s = stream_view st s"
  "delete_kv st k = Inr (t, r) \<Longrightarrow> stream_view t s = stream_view st s"
  "put_kv_if_matches st k x v = Inr (t, r) \<Longrightarrow> stream_view t s = stream_view st s"
  "delete_kv_if_matches st k x = Inr (t, r) \<Longrightarrow> stream_view t s = stream_view st s"
  "expire_prepared_objects st now = Inr (t, r) \<Longrightarrow> stream_view t s = stream_view st s"
  "clean_destroyed_objects st ids = Inr (t, r) \<Longrightarrow> stream_view t s = stream_view st s"
  "allocate_producer_ids st c = Inr (t, r) \<Longrightarrow> stream_view t s = stream_view st s"
  "prepare_object st c ttl now = Inr (t, r) \<Longrightarrow> stream_view t s = stream_view st s"
  using view_small(6) [of st k s]
  by (auto simp: register_node_def set_node_slots_def heartbeat_def fence_node_def put_kv_def
      put_kv_if_absent_def delete_kv_def put_kv_if_matches_def delete_kv_if_matches_def
      expire_prepared_objects_def clean_destroyed_objects_def allocate_producer_ids_def
      prepare_object_def Let_def view_fold_same case_prod_unfold split: option.splits if_splits)

lemma life_creates:
  assumes inv: "meta_inv st"
  shows "create_stream st = Inr (t, r) \<Longrightarrow>
      life_step s (next_stream_id st \<le> s) (stream_view st s) (stream_view t s)"
    and "create_streams st c = Inr (t, r) \<Longrightarrow>
      life_step s (next_stream_id st \<le> s) (stream_view st s) (stream_view t s)"
proof -
  have fresh: "stream_view st s = None" if "next_stream_id st \<le> s"
    using stream_row_below [OF inv, of s] that
    by (cases "oget (streams st) s") (auto simp: not_less [symmetric])
  show "create_stream st = Inr (t, r) \<Longrightarrow>
      life_step s (next_stream_id st \<le> s) (stream_view st s) (stream_view t s)"
    using fresh by (cases "s = next_stream_id st")
      (auto simp: create_stream_def Let_def life_step.stay, simp add: stream_view_def life_step.create)
  show "create_streams st c = Inr (t, r) \<Longrightarrow>
      life_step s (next_stream_id st \<le> s) (stream_view st s) (stream_view t s)"
    using fresh by (cases "next_stream_id st \<le> s")
      (auto simp: create_streams_def Let_def view_fold_new_rows in_u64_range_iff life_step.stay
        split: if_splits, simp add: stream_view_def life_step.create)
qed

lemma life_run_command:
  assumes inv: "meta_inv st" and fits: "fits st c" and run: "run_command noop st c = Inr (t, r)"
  shows "life_step s (next_stream_id st \<le> s) (stream_view st s) (stream_view t s)"
proof (cases c)
  case (CommitStreamSetObject p req now)
  with assms show ?thesis
    by (intro extends_view_life extends_commit [of st req]) (auto simp: inv_room_def)
qed (use run in \<open>auto dest: life_row_handlers [OF inv] life_creates [OF inv]
    dest!: view_other_handlers [where s = s] view_compact [where s = s] simp: life_step.stay\<close>)

lemma life_apply_state:
  assumes "meta_inv st" and "fits st c"
  shows "life_step s (next_stream_id st \<le> s) (stream_view st s) (stream_view (apply_state noop st c) s)"
proof -
  obtain t res where run: "apply_command noop st c = (t, res)"
    by (cases "apply_command noop st c")
  from run show ?thesis
  proof (cases rule: apply_command_cases)
    case err
    with run show ?thesis by (simp add: apply_state_def life_step.stay)
  next
    case (ok r)
    from life_run_command [OF assms ok(2), of s] run show ?thesis by (simp add: apply_state_def)
  qed
qed

section \<open>The registry part of the state\<close>

text \<open>
  The fields that commits, compactions and the destruction queue never touch. Commands on the
  registry change one of these fields each.
\<close>

definition registry :: "metadata_state \<Rightarrow> u64 \<times> (i32, node_row) omap \<times> (u64, pending_transfer) omap \<times>
    (u64 \<times> i64, u64) omap \<times> u64 \<times> u64 \<times> (string, bytes) omap" where
  "registry st = (next_stream_id st, nodes st, pending_transfers st, epochs st, next_producer_id st,
     next_object_id st, kv st)"

lemma registry_prims [simp]:
  "registry (put_stream st row) = registry st" "registry (remove_stream st x) = registry st"
  "registry (remove_stream_set_object st i) = registry st"
  "registry (put_stream_set_object st sso) = registry st"
  "registry (remove_stream_object st i) = registry st" "registry (put_stream_object st so) = registry st"
  "registry (insert_stream_object st o1 a b c) = registry st"
  "registry (remove_prepared st i) = registry st"
  "registry (put_prepared st i d) = registry st"
  "registry (put_destroyed st q i op) = registry st" "registry (remove_destroyed st i) = registry st"
  by (simp_all add: registry_def insert_stream_object_def remove_prepared_def put_prepared_def
    put_destroyed_def remove_destroyed_def split: option.split)

lemma registry_fields [simp]:
  "registry (st\<lparr>next_destroyed_seq := b4\<rparr>) = registry st"
  by (simp_all add: registry_def)

lemma registry_fold:
  assumes "\<And>x st. registry (f x st) = registry st"
  shows "registry (fold f xs st) = registry st"
  by (rule fold_invariant_list [where P = "\<lambda>t. registry t = registry st"]) (simp_all add: assms)

lemma registry_mark [simp]: "registry (mark_destroyed_object st i op) = registry st"
  by (simp add: mark_destroyed_object_def Let_def split: option.split)

lemma registry_destroy [simp]: "registry (destroy_stream_objects st keys) = registry st"
  by (simp add: destroy_stream_objects_def registry_fold)

lemma registry_mark_objects: "mark_destroy_objects st ids ops = Inr t \<Longrightarrow> registry t = registry st"
  by (auto simp: mark_destroy_objects_def registry_fold case_prod_unfold split: if_splits)

lemma registry_advance: "advance_end_offset st x a b c = Inr t \<Longrightarrow> registry t = registry st"
  by (erule advance_end_offset_cases) auto

lemma registry_rfold:
  assumes "rfold f xs st = Inr t" and "\<And>x s u. f s x = Inr u \<Longrightarrow> registry u = registry s"
  shows "registry t = registry st"
  by (rule rfold_invariant [OF assms(1), where P = "\<lambda>t. registry t = registry st"]) (simp_all add: assms(2))

lemma registry_commit:
  assumes "commit_stream_set_object noop st n req now = Inr (t, r)"
  shows "registry t = registry st"
  using assms
proof (rule commit_Ok_cases)
  let ?u = "fold (\<lambda>i st. mark_destroyed_object (remove_stream_set_object st i) i Delete) (cr_compacted_object_ids req) st"
  fix c dt lw v
  assume v: "commit_set_part noop ?u n req now c dt lw = Inr v"
    and t: "rfold (\<lambda>st so. commit_stream_part st so now c dt lw) (cr_stream_objects req) v = Inr t"
  have "registry t = registry v"
    by (rule registry_rfold [OF t]) (auto simp: commit_stream_part_def dest!: registry_advance)
  also have "registry v = registry ?u"
    using v by (auto simp: commit_set_part_def registry_advance dest!: registry_rfold split: if_splits)
  also have "\<dots> = registry st" by (simp add: registry_fold)
  finally show ?thesis .
qed

lemma registry_compact:
  assumes "compact_stream_object noop st req now = Inr (t, r)"
  shows "registry t = registry st"
proof -
  have drop: "registry (fold (\<lambda>j st. if P j st then remove_stream_object st j else st) ids u) = registry u"
    for P ids u
    by (rule registry_fold) simp
  show ?thesis
    using assms unfolding compact_stream_object_def Let_def
    by (auto simp: drop dest!: registry_mark_objects split: if_splits)
qed

lemma registry_eqD:
  assumes "registry t = registry st"
  shows "next_stream_id t = next_stream_id st" "nodes t = nodes st" "pending_transfers t = pending_transfers st"
    "epochs t = epochs st" "next_producer_id t = next_producer_id st"
    "next_object_id t = next_object_id st" "kv t = kv st"
  using assms by (simp_all add: registry_def)

lemmas registry_object_handlers = registry_commit [THEN registry_eqD(1)] registry_commit [THEN registry_eqD(2)]
  registry_commit [THEN registry_eqD(3)] registry_commit [THEN registry_eqD(4)]
  registry_commit [THEN registry_eqD(5)] registry_commit [THEN registry_eqD(6)] registry_commit [THEN registry_eqD(7)]
  registry_compact [THEN registry_eqD(1)] registry_compact [THEN registry_eqD(2)]
  registry_compact [THEN registry_eqD(3)] registry_compact [THEN registry_eqD(4)]
  registry_compact [THEN registry_eqD(5)] registry_compact [THEN registry_eqD(6)] registry_compact [THEN registry_eqD(7)]

lemmas destroy_sels [simp] = registry_destroy [THEN registry_eqD(1)] registry_destroy [THEN registry_eqD(2)]
  registry_destroy [THEN registry_eqD(3)] registry_destroy [THEN registry_eqD(4)]
  registry_destroy [THEN registry_eqD(5)] registry_destroy [THEN registry_eqD(6)]
  registry_destroy [THEN registry_eqD(7)]

lemmas registry_handler_defs = register_node_def set_node_slots_def heartbeat_def fence_node_def
  put_kv_def put_kv_if_absent_def delete_kv_def put_kv_if_matches_def delete_kv_if_matches_def
  expire_prepared_objects_def clean_destroyed_objects_def allocate_producer_ids_def
  prepare_object_def place_stream_def open_stream_def close_stream_def transfer_stream_def
  complete_transfer_def create_stream_def create_streams_def trim_stream_Ok trim_state_def
  delete_stream_Ok delete_state_def put_kv_row_def remove_kv_row_def

lemma registry_folds [simp]:
  "registry (fold (\<lambda>i st. put_stream st (new_row i)) ids st) = registry st"
  "registry (fold (\<lambda>i st. put_prepared st i d) ids st) = registry st"
  "registry (fold (\<lambda>(x, i) st. remove_prepared st i) xs st) = registry st"
  "registry (fold (\<lambda>i st. remove_destroyed st i) ids st) = registry st"
  by (simp_all add: registry_fold case_prod_unfold)

lemmas fold_sels [simp] =
  registry_folds(1) [THEN registry_eqD(1)] registry_folds(1) [THEN registry_eqD(2)]
  registry_folds(1) [THEN registry_eqD(3)] registry_folds(1) [THEN registry_eqD(4)]
  registry_folds(1) [THEN registry_eqD(5)] registry_folds(1) [THEN registry_eqD(6)] registry_folds(1) [THEN registry_eqD(7)]
  registry_folds(2) [THEN registry_eqD(1)] registry_folds(2) [THEN registry_eqD(2)]
  registry_folds(2) [THEN registry_eqD(3)] registry_folds(2) [THEN registry_eqD(4)]
  registry_folds(2) [THEN registry_eqD(5)] registry_folds(2) [THEN registry_eqD(6)] registry_folds(2) [THEN registry_eqD(7)]
  registry_folds(3) [THEN registry_eqD(1)] registry_folds(3) [THEN registry_eqD(2)]
  registry_folds(3) [THEN registry_eqD(3)] registry_folds(3) [THEN registry_eqD(4)]
  registry_folds(3) [THEN registry_eqD(5)] registry_folds(3) [THEN registry_eqD(6)] registry_folds(3) [THEN registry_eqD(7)]
  registry_folds(4) [THEN registry_eqD(1)] registry_folds(4) [THEN registry_eqD(2)]
  registry_folds(4) [THEN registry_eqD(3)] registry_folds(4) [THEN registry_eqD(4)]
  registry_folds(4) [THEN registry_eqD(5)] registry_folds(4) [THEN registry_eqD(6)] registry_folds(4) [THEN registry_eqD(7)]

lemma next_stream_run:
  assumes "run_command noop st c = Inr (t, r)"
  shows "next_stream_id t =
    (case c of CreateStream p \<Rightarrow> next_stream_id st + 1
     | CreateStreams p count \<Rightarrow> next_stream_id st + ucast count
     | _ \<Rightarrow> next_stream_id st)"
  by (cases c) (use assms in \<open>auto simp: registry_handler_defs registry_object_handlers Let_def
      split: option.splits if_splits\<close>)

lemma nodes_run:
  assumes "run_command noop st c = Inr (t, r)"
    and "\<And>n e h sl pa w. c \<noteq> RegisterNode n e h sl pa w" "\<And>p n sl. c \<noteq> SetNodeSlots p n sl"
      "\<And>p. c \<noteq> Heartbeat p" "\<And>p n e hb. c \<noteq> FenceNode p n e hb"
  shows "nodes t = nodes st"
  by (cases c) (use assms in \<open>auto simp: registry_handler_defs registry_object_handlers Let_def
      split: option.splits if_splits\<close>)

section \<open>What a log can never undo\<close>

text \<open>
  \<open>row_later r r'\<close>: how a stream's row may look at a later time. Epoch and start offset do not go
  back, and at one epoch the stream is open in the hands of one node only, until it is closed.
\<close>

definition row_later :: "stream_row \<Rightarrow> stream_row \<Rightarrow> bool" where
  "row_later r r' \<longleftrightarrow>
    row_epoch r \<le> row_epoch r' \<and> row_start_offset r \<le> row_start_offset r' \<and>
    (row_epoch r' = row_epoch r \<longrightarrow> row_state r' = Opened \<longrightarrow>
      row_state r = Opened \<and> row_node_id r' = row_node_id r)"

lemma row_later_refl [simp]: "row_later r r"
  by (simp add: row_later_def)

lemma row_later_trans: "row_later r r' \<Longrightarrow> row_later r' r'' \<Longrightarrow> row_later r r''"
  unfolding row_later_def by (metis order.trans order.antisym)

lemma life_step_later: "life_step s f (Some r) (Some r') \<Longrightarrow> row_later r r'"
  by (erule life_step.cases) (auto simp: row_later_def)

lemma life_step_not_fresh: "life_step s False x (Some r') \<Longrightarrow> x \<noteq> None"
  by (erule life_step.cases) auto

definition streams_later :: "metadata_state \<Rightarrow> metadata_state \<Rightarrow> bool" where
  "streams_later st t \<longleftrightarrow>
    next_stream_id st \<le> next_stream_id t \<and>
    (\<forall>s < next_stream_id st. \<forall>r'. oget (streams t) s = Some r' \<longrightarrow>
      (\<exists>r. oget (streams st) s = Some r \<and> row_later r r'))"

lemma streams_later_refl: "streams_later st st"
  by (simp add: streams_later_def)

lemma streams_later_trans: "streams_later st t \<Longrightarrow> streams_later t u \<Longrightarrow> streams_later st u"
  unfolding streams_later_def by (meson order.trans order.strict_trans2 row_later_trans)

lemma row_later_bare [simp]: "row_later (bare r) (bare r') = row_later r r'"
  by (simp add: row_later_def)

lemma streams_later_step:
  assumes inv: "meta_inv st" and fits: "fits st c"
  shows "streams_later st (apply_state noop st c)"
proof -
  let ?t = "apply_state noop st c"
  obtain t res where run: "apply_command noop st c = (t, res)"
    by (cases "apply_command noop st c")
  have "next_stream_id st \<le> next_stream_id ?t"
    using run
  proof (cases rule: apply_command_cases)
    case (ok r)
    have "next_stream_id t = (case c of CreateStream p \<Rightarrow> next_stream_id st + 1
       | CreateStreams p count \<Rightarrow> next_stream_id st + ucast count | _ \<Rightarrow> next_stream_id st)"
      by (rule next_stream_run [OF ok(2)])
    moreover have "next_stream_id st \<le> next_stream_id st + 1" if "c = CreateStream p" for p
      using fits that u64_no_wrap [of "next_stream_id st" 1] by (simp add: word_le_nat_alt)
    moreover have "next_stream_id st \<le> next_stream_id st + ucast n" if "c = CreateStreams p n" for p n
      using fits that u64_no_wrap [of "next_stream_id st" "ucast n"]
      by (simp add: word_le_nat_alt unat_ucast_u32)
    ultimately show ?thesis
      using run by (cases c) (simp_all add: apply_state_def)
  qed (use run in \<open>simp add: apply_state_def\<close>)
  moreover have "\<exists>r. oget (streams st) s = Some r \<and> row_later r r'"
    if s: "s < next_stream_id st" and r': "oget (streams ?t) s = Some r'" for s r'
  proof -
    have "life_step s False (stream_view st s) (Some (bare r'))"
      using life_apply_state [OF inv fits, of s noop] s r' by (simp add: stream_view_def not_le [symmetric])
    then have "stream_view st s \<noteq> None"
      by (rule life_step_not_fresh)
    then obtain r where r: "oget (streams st) s = Some r" by auto
    with \<open>life_step s False (stream_view st s) (Some (bare r'))\<close>
    have "row_later (bare r) (bare r')"
      by (intro life_step_later) (simp add: stream_view_def)
    with r show ?thesis by simp
  qed
  ultimately show ?thesis
    by (simp add: streams_later_def)
qed

definition node_later :: "node_row \<Rightarrow> node_row \<Rightarrow> bool" where
  "node_later r r' \<longleftrightarrow>
    nr_epoch r \<le> nr_epoch r' \<and> (nr_epoch r' = nr_epoch r \<longrightarrow> nr_fenced r \<longrightarrow> nr_fenced r')"

lemma node_later_refl [simp]: "node_later r r"
  by (simp add: node_later_def)

lemma node_later_trans: "node_later r r' \<Longrightarrow> node_later r' r'' \<Longrightarrow> node_later r r''"
  unfolding node_later_def by (metis order.trans order.antisym)

definition nodes_later :: "metadata_state \<Rightarrow> metadata_state \<Rightarrow> bool" where
  "nodes_later st t \<longleftrightarrow>
    (\<forall>n r. oget (nodes st) n = Some r \<longrightarrow> (\<exists>r'. oget (nodes t) n = Some r' \<and> node_later r r'))"

lemma nodes_later_refl: "nodes_later st st"
  by (auto simp: nodes_later_def)

lemma nodes_later_trans: "nodes_later st t \<Longrightarrow> nodes_later t u \<Longrightarrow> nodes_later st u"
  unfolding nodes_later_def by (meson node_later_trans)

lemma nodes_later_put:
  assumes "\<And>r. oget (nodes st) n = Some r \<Longrightarrow> node_later r x" and "nodes t = oput n x (nodes st)"
  shows "nodes_later st t"
  using assms by (auto simp: nodes_later_def)

lemma i64_less_succ: "(x :: i64) < i64_max \<Longrightarrow> x < x + 1"
proof -
  assume "x < i64_max"
  then have "sval x < 2 ^ 63 - 1"
    by (simp add: sword_eval i64_max_def)
  moreover have "- (2 ^ 63) \<le> sval x"
    unfolding sval_def using sint_ge [of "sbits x"] by simp
  ultimately have "sval (x + 1) = sval x + 1"
    by (simp add: sval_def sint_word_ariths signed_take_bit_int_eq_self)
  then show "x < x + 1" by (simp add: less_sword_def)
qed

lemma nodes_later_same: "nodes t = nodes st \<Longrightarrow> nodes_later st t"
  by (simp add: nodes_later_def)

lemma nodes_later_register:
  assumes "fits st (RegisterNode n e h sl pa w)" and "register_node st n e h sl pa w = Inr (t, r)"
  shows "nodes_later st t"
proof -
  have "\<exists>x. nodes t = oput n x (nodes st) \<and>
      (\<forall>row. oget (nodes st) n = Some row \<longrightarrow> nr_epoch x = max e (nr_epoch row + 1))"
    using assms(2) by (auto simp: register_node_def Let_def)
  then obtain x where x: "nodes t = oput n x (nodes st)"
    and e: "\<And>row. oget (nodes st) n = Some row \<Longrightarrow> nr_epoch x = max e (nr_epoch row + 1)"
    by (elim exE conjE) simp
  have "node_later row x" if "oget (nodes st) n = Some row" for row
    using e [OF that] that assms(1) i64_less_succ [of "nr_epoch row"]
    by (auto simp: node_later_def max_def)
  then show ?thesis by (rule nodes_later_put [OF _ x])
qed

lemma nodes_later_handlers:
  "set_node_slots st n sl = Inr (t, r) \<Longrightarrow> nodes_later st t"
  "heartbeat st n = Inr (t, r) \<Longrightarrow> nodes_later st t"
  "fence_node st p n e hb = Inr (t, r) \<Longrightarrow> nodes_later st t"
  by (auto simp: set_node_slots_def heartbeat_def fence_node_def Let_def nodes_later_def node_later_def
      split: option.splits if_splits)

lemma nodes_later_step:
  assumes fits: "fits st c"
  shows "nodes_later st (apply_state noop st c)"
proof -
  obtain t res where run: "apply_command noop st c = (t, res)"
    by (cases "apply_command noop st c")
  have "nodes_later st t"
    using run
  proof (cases rule: apply_command_cases)
    case (ok r)
    show ?thesis
    proof (cases c)
      case (RegisterNode n e h sl pa w)
      with ok(2) fits show ?thesis by (intro nodes_later_register) auto
    qed (use ok(2) nodes_later_same [OF nodes_run [OF ok(2)]] in \<open>auto intro: nodes_later_handlers\<close>)
  qed (simp add: nodes_later_refl)
  with run show ?thesis by (simp add: apply_state_def)
qed

definition meta_later :: "metadata_state \<Rightarrow> metadata_state \<Rightarrow> bool" where
  "meta_later st t \<longleftrightarrow> streams_later st t \<and> nodes_later st t"

interpretation mono: monotone_machine "apply_state noop" fits meta_inv meta_later for noop
  by unfold_locales
    (auto simp: meta_later_def streams_later_refl nodes_later_refl streams_later_step nodes_later_step
      intro: streams_later_trans nodes_later_trans)

end
