(* ===== verification/Meta_Fencing.thy ===== *)
theory Meta_Fencing
  imports Meta_Life
begin

text \<open>
  The guarantees of the control plane over whole command logs, starting from the empty state:
  consistent indexes, one owner per stream epoch, no way back for epochs and deleted ids, and
  rejection of superseded and fenced nodes.
\<close>

abbreviation meta_run :: "u64 \<Rightarrow> metadata_command list \<Rightarrow> metadata_state" where
  "meta_run noop cs \<equiv> run_log (apply_state noop) new_state cs"

abbreviation meta_log_ok :: "u64 \<Rightarrow> metadata_command list \<Rightarrow> bool" where
  "meta_log_ok noop cs \<equiv> log_ok (apply_state noop) fits new_state cs"

section \<open>Logs to evaluate\<close>

definition demo_proposer :: proposer where
  "demo_proposer = \<lparr>prop_node_id = 1, prop_node_epoch = 1\<rparr>"

definition demo_log :: "metadata_command list" where
  "demo_log =
    [RegisterNode 1 1 ''http'' 4 oempty ''wal'',
     CreateStream demo_proposer,
     OpenStream demo_proposer 0 0]"

lemmas demo_eval = demo_log_def demo_proposer_def apply_state_def apply_command_def apply_inner_def
  check_proposer_def register_node_def kept_def create_stream_def new_row_def put_stream_def
  index_row_def unindex_row_def open_stream_def require_stream_def new_state_def i64_max_def sword_eval
  to_stream_metadata_def Let_def close_stream_def check_owner_def node_live_def

lemma demo_ok: "meta_log_ok noop demo_log"
  by (simp add: demo_eval)

text \<open>The state after closing the stream again, and after the node came back with a new epoch.\<close>

definition demo_row :: stream_row where
  "demo_row = \<lparr>row_stream_id = 0, row_epoch = 0, row_start_offset = 0, row_end_offset = 0,
     row_state = Closed, row_node_id = 1, row_stored_bytes = 0\<rparr>"

lemma demo_next: "0 < next_stream_id (meta_run noop demo_log)"
  by (simp add: demo_eval)

lemma demo_close_ok: "meta_log_ok noop (demo_log @ [CloseStream demo_proposer 0 0])"
  by (simp add: demo_eval)

lemma demo_close_row:
  "oget (streams (meta_run noop (demo_log @ [CloseStream demo_proposer 0 0]))) 0 = Some demo_row"
  by (simp add: demo_eval demo_row_def)

section \<open>Opening a stream\<close>

lemma open_stream_opens:
  assumes "meta_inv st" and "snd (apply_command noop st (OpenStream p s e)) = Inr r"
  shows "\<exists>row. oget (streams (fst (apply_command noop st (OpenStream p s e)))) s = Some row \<and>
    row_epoch row = e \<and> row_state row = Opened \<and> row_node_id row = prop_node_id p"
proof -
  obtain t res where run: "apply_command noop st (OpenStream p s e) = (t, res)"
    by (cases "apply_command noop st (OpenStream p s e)")
  from run show ?thesis
  proof (cases rule: apply_command_cases)
    case (ok r)
    then show ?thesis
      using run stream_row_id [OF assms(1)]
      by (auto simp: open_stream_def Let_def split: if_splits)
  qed (use assms(2) run in simp)
qed

lemma open_stream_accepts:
  assumes "snd (apply_command noop st (OpenStream p s e)) = Inr r"
  shows "\<exists>row. oget (streams st) s = Some row \<and> row_epoch row \<le> e \<and>
    (row_epoch row = e \<longrightarrow> row_state row = Opened \<and> row_node_id row = prop_node_id p)"
proof -
  obtain t res where run: "apply_command noop st (OpenStream p s e) = (t, res)"
    by (cases "apply_command noop st (OpenStream p s e)")
  from run show ?thesis
  proof (cases rule: apply_command_cases)
    case (ok r)
    then show ?thesis
      by (auto simp: open_stream_def Let_def split: if_splits)
  qed (use assms run in simp)
qed

section \<open>Guarantees over logs\<close>

text \<open>
  C1. However long the log, as long as no 64-bit counter is exhausted, every secondary index and
  every byte counter of the state agrees with the primary maps it is derived from.
\<close>

theorem indexes_consistent:
  assumes "meta_log_ok noop log"
  shows "meta_inv (meta_run noop log)"
  using meta_inv_new assms by (rule meta.run_inv)

theorem indexes_consistent_witness: "meta_inv (meta_run 7 demo_log)"
  by (rule indexes_consistent) (rule demo_ok)

text \<open>
  C2. Every command moves every stream along the abstract life cycle: a stream appears only under a
  fresh id, is placed, opened or deleted only while it is closed, is opened only at an epoch above
  the current one, and is trimmed only forward and only up to its end.
\<close>

theorem commands_refine_life_cycle:
  assumes "meta_log_ok noop (log @ [c])"
  shows "life_step s (next_stream_id (meta_run noop log) \<le> s)
    (stream_view (meta_run noop log) s) (stream_view (meta_run noop (log @ [c])) s)"
  using assms meta.run_inv [OF meta_inv_new, of noop log]
  by (simp add: log_ok_append run_log_append life_apply_state)

theorem commands_refine_life_cycle_witness:
  "life_step 0 True (stream_view (meta_run 7 [RegisterNode 1 1 ''http'' 4 oempty ''wal'']) 0)
     (stream_view (meta_run 7 ([RegisterNode 1 1 ''http'' 4 oempty ''wal''] @ [CreateStream demo_proposer])) 0)"
  using commands_refine_life_cycle
    [of 7 "[RegisterNode 1 1 ''http'' 4 oempty ''wal'']" "CreateStream demo_proposer" 0]
  by (simp add: demo_eval)

text \<open>
  C3. Over any log, a stream's epoch and start offset never go back, a deleted stream id never comes
  back to life, and within one epoch a stream that is open is open on the node that opened it.
\<close>

theorem streams_never_go_back:
  assumes "meta_log_ok noop (xs @ ys)"
    and "s < next_stream_id (meta_run noop xs)"
    and "oget (streams (meta_run noop (xs @ ys))) s = Some r'"
  shows "\<exists>r. oget (streams (meta_run noop xs)) s = Some r \<and>
    row_epoch r \<le> row_epoch r' \<and> row_start_offset r \<le> row_start_offset r' \<and>
    (row_epoch r' = row_epoch r \<longrightarrow> row_state r' = Opened \<longrightarrow>
      row_state r = Opened \<and> row_node_id r' = row_node_id r)"
  using mono.run_later_split [OF meta_inv_new assms(1)] assms(2,3)
  by (auto simp: meta_later_def streams_later_def row_later_def)

theorem streams_never_go_back_witness:
  "\<exists>r. oget (streams (meta_run 7 demo_log)) 0 = Some r \<and> row_epoch r \<le> row_epoch demo_row \<and>
    row_start_offset r \<le> row_start_offset demo_row"
  using streams_never_go_back [OF demo_close_ok demo_next demo_close_row] by blast

text \<open>
  C4. Two successful opens of one stream at one epoch come from the same node, however many commands
  lie between them: the epoch of a stream names its single writer.
\<close>

theorem single_writer_per_epoch:
  assumes ok: "meta_log_ok noop (xs @ [OpenStream p s e] @ ys)"
    and first: "snd (apply_command noop (meta_run noop xs) (OpenStream p s e)) = Inr r1"
    and second: "snd (apply_command noop (meta_run noop (xs @ [OpenStream p s e] @ ys)) (OpenStream q s e)) = Inr r2"
  shows "prop_node_id q = prop_node_id p"
proof -
  let ?u = "meta_run noop (xs @ [OpenStream p s e])"
  let ?v = "meta_run noop (xs @ [OpenStream p s e] @ ys)"
  have "meta_log_ok noop ((xs @ [OpenStream p s e]) @ ys)"
    using ok by simp
  from mono.run_later_split [OF meta_inv_new this] have later: "streams_later ?u ?v"
    by (simp add: meta_later_def)
  have inv: "meta_inv ?u"
    using meta.run_inv [OF meta_inv_new, of noop "xs @ [OpenStream p s e]"] ok
    by (simp add: log_ok_append)
  have xs: "meta_inv (meta_run noop xs)"
    using meta.run_inv [OF meta_inv_new, of noop xs] ok by (simp add: log_ok_append)
  from first obtain row where row: "oget (streams ?u) s = Some row"
      "row_epoch row = e" "row_state row = Opened" "row_node_id row = prop_node_id p"
    using open_stream_opens [OF xs first] by (auto simp: run_log_append apply_state_def)
  from second open_stream_accepts obtain row' where row': "oget (streams ?v) s = Some row'" "row_epoch row' \<le> e"
      "row_epoch row' = e \<longrightarrow> row_state row' = Opened \<and> row_node_id row' = prop_node_id q"
    by blast
  from later stream_row_below [OF inv row(1)] row'(1) row(1) have "row_later row row'"
    by (auto simp: streams_later_def)
  with row row' show ?thesis by (auto simp: row_later_def)
qed

theorem single_writer_per_epoch_witness:
  "prop_node_id \<lparr>prop_node_id = 1, prop_node_epoch = 2\<rparr> = prop_node_id demo_proposer"
proof (rule single_writer_per_epoch
    [of 7 "[RegisterNode 1 1 ''http'' 4 oempty ''wal'', CreateStream demo_proposer]" demo_proposer 0 0
      "[RegisterNode 1 2 ''http'' 4 oempty ''wal'']"])
  show "meta_log_ok 7 ([RegisterNode 1 1 ''http'' 4 oempty ''wal'', CreateStream demo_proposer] @
      [OpenStream demo_proposer 0 0] @ [RegisterNode 1 2 ''http'' 4 oempty ''wal''])"
    by (simp add: demo_eval)
  show "snd (apply_command 7 (meta_run 7 [RegisterNode 1 1 ''http'' 4 oempty ''wal'', CreateStream demo_proposer])
      (OpenStream demo_proposer 0 0)) = Inr (ResStream (to_stream_metadata (demo_row\<lparr>row_state := Opened\<rparr>)))"
    by (simp add: demo_eval demo_row_def)
  show "snd (apply_command 7 (meta_run 7 ([RegisterNode 1 1 ''http'' 4 oempty ''wal'', CreateStream demo_proposer] @
      [OpenStream demo_proposer 0 0] @ [RegisterNode 1 2 ''http'' 4 oempty ''wal'']))
      (OpenStream \<lparr>prop_node_id = 1, prop_node_epoch = 2\<rparr> 0 0)) =
      Inr (ResStream (to_stream_metadata (demo_row\<lparr>row_state := Opened\<rparr>)))"
    by (simp add: demo_eval demo_row_def max_def)
qed

text \<open>
  C5. Once a node has registered at a higher epoch than a proposer's, or has been fenced at the
  proposer's epoch, every later command of that proposer is refused and changes nothing.
\<close>

theorem superseded_proposer_rejected:
  assumes ok: "meta_log_ok noop (xs @ ys)"
    and node: "oget (nodes (meta_run noop xs)) (prop_node_id p) = Some r"
    and old: "prop_node_epoch p < nr_epoch r \<or> prop_node_epoch p = nr_epoch r \<and> nr_fenced r"
    and c: "command_proposer c = Some p"
  shows "apply_command noop (meta_run noop (xs @ ys)) c =
    (meta_run noop (xs @ ys), Inl (NodeEpochMismatch (prop_node_id p)))"
proof -
  from mono.run_later_split [OF meta_inv_new ok]
  have "nodes_later (meta_run noop xs) (meta_run noop (xs @ ys))" by (simp add: meta_later_def)
  with node obtain r' where "oget (nodes (meta_run noop (xs @ ys))) (prop_node_id p) = Some r'"
    and "node_later r r'" by (auto simp: nodes_later_def)
  with old c show ?thesis
    by (auto simp: node_later_def apply_command_def apply_inner_def check_proposer_def)
qed

theorem superseded_proposer_rejected_witness:
  "apply_command 7 (meta_run 7 ([RegisterNode 1 1 ''http'' 4 oempty ''wal'', RegisterNode 1 1 ''http'' 4 oempty ''wal''] @
      [CreateStream \<lparr>prop_node_id = 1, prop_node_epoch = 2\<rparr>])) (OpenStream demo_proposer 0 0) =
    (meta_run 7 ([RegisterNode 1 1 ''http'' 4 oempty ''wal'', RegisterNode 1 1 ''http'' 4 oempty ''wal''] @
      [CreateStream \<lparr>prop_node_id = 1, prop_node_epoch = 2\<rparr>]), Inl (NodeEpochMismatch 1))"
  using superseded_proposer_rejected
    [of 7 "[RegisterNode 1 1 ''http'' 4 oempty ''wal'', RegisterNode 1 1 ''http'' 4 oempty ''wal'']"
      "[CreateStream \<lparr>prop_node_id = 1, prop_node_epoch = 2\<rparr>]" demo_proposer
      "\<lparr>nr_node_id = 1, nr_epoch = 2, nr_http_address = ''http'', nr_slots = 4, nr_protocol_addresses = oempty,
        nr_wal = ''wal'', nr_heartbeats = 0, nr_fenced = False\<rparr>" "OpenStream demo_proposer 0 0"]
  by (simp add: demo_eval max_def)

end
