(* ===== verification/Meta_Objects.thy ===== *)
theory Meta_Objects
  imports Meta_Fencing
begin

text \<open>
  The object side of the control plane: what a commit does to the offsets of its streams, what a
  retried commit or compaction does, which objects a trim and a delete retire, the queue of
  destroyed objects, and the expiry of prepared ids.
\<close>

section \<open>Committed offsets\<close>

text \<open>
  \<open>chain e rs\<close> walks the ranges \<open>rs\<close> from offset \<open>e\<close>: every range must start where the last one
  ended. The result is the offset reached.
\<close>

fun chain :: "u64 option \<Rightarrow> (u64 \<times> u64) list \<Rightarrow> u64 option" where
  "chain e [] = e"
| "chain e ((a, b) # rs) = (if e = Some a then chain (Some b) rs else None)"

lemma chain_None [simp]: "chain None rs = None"
  by (cases rs) auto

lemma chain_append: "chain e (xs @ ys) = chain (chain e xs) ys"
  by (induction e xs rule: chain.induct) simp_all

definition view_end :: "metadata_state \<Rightarrow> u64 \<Rightarrow> u64 option" where
  "view_end st s = map_option row_end_offset (stream_view st s)"

text \<open>The ranges that a request appends to one stream, in the order they are checked.\<close>

definition appended :: "u64 \<Rightarrow> commit_request \<Rightarrow> u64 \<Rightarrow> (u64 \<times> u64) list" where
  "appended noop req s =
    (if cr_object_id req = noop then []
     else map (\<lambda>r. (osr_start_offset r, osr_end_offset r))
            (filter (\<lambda>r. osr_stream_id r = s) (cr_stream_ranges req))) @
    map (\<lambda>so. (so_start_offset so, so_end_offset so))
      (filter (\<lambda>so. so_stream_id so = s) (cr_stream_objects req))"

lemma advance_append:
  assumes "meta_inv st" and "advance_end_offset st x a b False = Inr t"
  shows "view_end t s = chain (view_end st s) (if x = s then [(a, b)] else [])"
  using assms(2) stream_row_id [OF assms(1)]
  by (auto simp: advance_end_offset_def view_end_def stream_view_def split: if_splits)

lemma advance_compact:
  assumes "advance_end_offset st x a b True = Inr t"
  shows "t = st" and "\<exists>row. oget (streams st) x = Some row \<and> row_start_offset row \<le> a \<and> b \<le> row_end_offset row"
  using assms by (auto simp: advance_end_offset_def not_less split: if_splits)

lemma advance_fold_chain:
  assumes "rfold (\<lambda>st r. advance_end_offset st (f r) (g r) (h r) False) rs st = Inr t" and "meta_inv st"
  shows "view_end t s = chain (view_end st s) (map (\<lambda>r. (g r, h r)) (filter (\<lambda>r. f r = s) rs))"
  using assms
proof (induction rs arbitrary: st)
  case (Cons r rs)
  from Cons.prems(1) obtain u where u: "advance_end_offset st (f r) (g r) (h r) False = Inr u"
    and run: "rfold (\<lambda>st r. advance_end_offset st (f r) (g r) (h r) False) rs u = Inr t" by auto
  from Cons.IH [OF run meta_inv_advance [OF Cons.prems(2) u]] advance_append [OF Cons.prems(2) u, of s]
  show ?case by simp
qed simp

lemma view_end_same [simp]:
  "view_end (remove_prepared st i) s = view_end st s" "view_end (put_stream_set_object st row) s = view_end st s"
  "view_end (insert_stream_object st so a b c) s = view_end st s"
  by (simp_all add: view_end_def)

lemma set_part_chain:
  assumes "meta_inv st" and "commit_set_part noop st n req now False dt lw = Inr t"
  shows "view_end t s = chain (view_end st s) (if cr_object_id req = noop then []
     else map (\<lambda>r. (osr_start_offset r, osr_end_offset r))
            (filter (\<lambda>r. osr_stream_id r = s) (cr_stream_ranges req)))"
  using assms advance_fold_chain [OF _ meta_inv_remove_prepared [OF assms(1)], where s = s]
  by (auto simp: commit_set_part_def split: if_splits)

lemma stream_parts_chain:
  assumes "rfold (\<lambda>st so. commit_stream_part st so now False dt lw) sos st = Inr t" and "meta_inv st"
  shows "view_end t s = chain (view_end st s)
    (map (\<lambda>so. (so_start_offset so, so_end_offset so)) (filter (\<lambda>so. so_stream_id so = s) sos))"
  using assms
proof (induction sos arbitrary: st)
  case (Cons so sos)
  from Cons.prems(1) obtain u where u: "commit_stream_part st so now False dt lw = Inr u"
    and run: "rfold (\<lambda>st so. commit_stream_part st so now False dt lw) sos u = Inr t" by auto
  have "view_end u s = chain (view_end st s) (if so_stream_id so = s then [(so_start_offset so, so_end_offset so)] else [])"
    using u advance_append [OF meta_inv_remove_prepared [OF Cons.prems(2)], where s = s]
    by (auto simp: commit_stream_part_def)
  with Cons.IH [OF run meta_inv_commit_stream_part [OF Cons.prems(2) u]] show ?case by simp
qed simp

lemma commit_chain:
  assumes inv: "meta_inv st" and append: "cr_compacted_object_ids req = []"
    and run: "commit_stream_set_object noop st n req now = Inr (t, r)"
  shows "view_end t s = chain (view_end st s) (appended noop req s)"
  using run
proof (rule commit_Ok_cases)
  fix c dt lw v
  assume "c \<longleftrightarrow> cr_compacted_object_ids req \<noteq> []"
    and "commit_set_part noop (fold (\<lambda>i st. mark_destroyed_object (remove_stream_set_object st i) i Delete)
      (cr_compacted_object_ids req) st) n req now c dt lw = Inr v"
    and "rfold (\<lambda>st so. commit_stream_part st so now c dt lw) (cr_stream_objects req) v = Inr t"
  then have v: "commit_set_part noop st n req now False dt lw = Inr v"
    and t: "rfold (\<lambda>st so. commit_stream_part st so now False dt lw) (cr_stream_objects req) v = Inr t"
    using append by simp_all
  show ?thesis
    unfolding stream_parts_chain [OF t meta_inv_commit_set_part(1) [OF inv v]] set_part_chain [OF inv v]
    by (simp add: appended_def chain_append)
qed

section \<open>A committed object stays findable\<close>

definition so_request_key :: "stream_object \<Rightarrow> stream_offset_key" where
  "so_request_key so = (so_stream_id so, so_start_offset so, so_object_id so)"

lemma commit_stream_part_ids:
  assumes "commit_stream_part st so now c dt lw = Inr t"
  shows "stream_object_ids t = oput (so_object_id so) (so_request_key so) (stream_object_ids st)"
    and "stream_set_objects t = stream_set_objects st"
    and "oget (stream_object_ids st) (so_object_id so) = Some k \<Longrightarrow> k = so_request_key so"
proof -
  from assms obtain u where free: "check_object_id_free st (so_object_id so) (Some (so_request_key so)) = Inr ()"
    and u: "advance_end_offset (remove_prepared st (so_object_id so)) (so_stream_id so)
            (so_start_offset so) (so_end_offset so) c = Inr u"
    and t: "t = insert_stream_object u so dt now lw"
    by (auto simp: commit_stream_part_def so_request_key_def)
  show "stream_object_ids t = oput (so_object_id so) (so_request_key so) (stream_object_ids st)"
    and "stream_set_objects t = stream_set_objects st"
    using same_objects_advance [OF u] t
    by (simp_all add: insert_stream_object_def same_objects_sels so_key_def first_range_def so_request_key_def)
  show "oget (stream_object_ids st) (so_object_id so) = Some k \<Longrightarrow> k = so_request_key so"
    using free by (auto simp: check_object_id_free_def split: if_splits)
qed

lemma commit_stream_parts_ids:
  assumes "rfold (\<lambda>st so. commit_stream_part st so now c dt lw) sos st = Inr t"
  shows "\<forall>so \<in> set sos. oget (stream_object_ids t) (so_object_id so) = Some (so_request_key so)"
    and "stream_set_objects t = stream_set_objects st"
proof -
  have "(\<forall>so \<in> set sos. oget (stream_object_ids t) (so_object_id so) = Some (so_request_key so)) \<and>
      stream_set_objects t = stream_set_objects st \<and>
      (\<forall>i k. oget (stream_object_ids st) i = Some k \<longrightarrow> oget (stream_object_ids t) i = Some k)"
    using assms
  proof (induction sos arbitrary: st)
    case (Cons so sos)
    from Cons.prems obtain u where u: "commit_stream_part st so now c dt lw = Inr u"
      and run: "rfold (\<lambda>st so. commit_stream_part st so now c dt lw) sos u = Inr t" by auto
    note one = commit_stream_part_ids [OF u]
    have "oget (stream_object_ids u) i = Some k" if "oget (stream_object_ids st) i = Some k" for i k
      using that one(1,3) by (cases "i = so_object_id so") auto
    moreover have "oget (stream_object_ids u) (so_object_id so) = Some (so_request_key so)"
      using one(1) by simp
    moreover note Cons.IH [OF run] one(2)
    ultimately show ?case
      unfolding set_simps ball_simps by (metis (no_types))
  qed simp
  then show "\<forall>so \<in> set sos. oget (stream_object_ids t) (so_object_id so) = Some (so_request_key so)"
    and "stream_set_objects t = stream_set_objects st" by auto
qed

lemma commit_findable:
  assumes "commit_stream_set_object noop st n req now = Inr (t, r)"
  shows "cr_object_id req \<noteq> noop \<Longrightarrow> ohas (stream_set_objects t) (cr_object_id req)"
    and "so \<in> set (cr_stream_objects req) \<Longrightarrow> stream_object_committed t (so_stream_id so) (so_object_id so)"
proof -
  let ?u = "fold (\<lambda>i st. mark_destroyed_object (remove_stream_set_object st i) i Delete) (cr_compacted_object_ids req) st"
  from assms obtain c dt lw v where v: "commit_set_part noop ?u n req now c dt lw = Inr v"
    and t: "rfold (\<lambda>st so. commit_stream_part st so now c dt lw) (cr_stream_objects req) v = Inr t"
    by (rule commit_Ok_cases)
  show "cr_object_id req \<noteq> noop \<Longrightarrow> ohas (stream_set_objects t) (cr_object_id req)"
    using v commit_stream_parts_ids(2) [OF t] by (auto simp: commit_set_part_def)
  show "so \<in> set (cr_stream_objects req) \<Longrightarrow> stream_object_committed t (so_stream_id so) (so_object_id so)"
    using commit_stream_parts_ids(1) [OF t] by (auto simp: stream_object_committed_def so_request_key_def)
qed

section \<open>What a trim and a delete retire\<close>

lemma objects_of_iff:
  "(k, row) \<in> set (objects_of st s) \<longleftrightarrow> fst k = s \<and> oget (stream_objects st) k = Some row"
  by (cases k) (auto simp: objects_of_def in_orange_iff less_eq_prod_def word_coorder.extremum)

lemma mark_frame [simp]:
  "stream_objects (mark_destroyed_object st i op) = stream_objects st"
  "stream_object_ids (mark_destroyed_object st i op) = stream_object_ids st"
  "stream_set_objects (mark_destroyed_object st i op) = stream_set_objects st"
  by (simp_all add: mark_destroyed_object_def put_destroyed_def Let_def split: option.split)

lemma mark_has: "ohas (destroyed_by_id (mark_destroyed_object st i op)) j \<longleftrightarrow> i = j \<or> ohas (destroyed_by_id st) j"
  by (auto simp: mark_destroyed_object_def put_destroyed_def Let_def ohas_def split: option.split)

lemma remove_so_objects:
  assumes "meta_inv st"
  shows "oget (stream_objects (remove_stream_object st i)) k =
    (if oget (stream_object_ids st) i = Some k then None else oget (stream_objects st) k)"
proof (cases "oget (stream_object_ids st) i")
  case None
  then show ?thesis by (simp add: remove_stream_object_def)
next
  case (Some key)
  from assms Some obtain row where "oget (stream_objects st) key = Some row" by (rule so_id_row)
  with Some show ?thesis by (simp add: remove_so_eq)
qed

text \<open>
  Destroying a list of stream objects removes exactly their rows and marks every one of them.
\<close>

lemma destroy_objects:
  assumes "inv_room st (length keys)" and "\<And>k. k \<in> set keys \<Longrightarrow> ohas (stream_objects st) k" and "distinct keys"
  shows "oget (stream_objects (destroy_stream_objects st keys)) k =
      (if k \<in> set keys then None else oget (stream_objects st) k)"
    and "ohas (destroyed_by_id (destroy_stream_objects st keys)) i \<longleftrightarrow>
      ohas (destroyed_by_id st) i \<or> i \<in> (\<lambda>k. snd (snd k)) ` set keys"
    and "stream_set_objects (destroy_stream_objects st keys) = stream_set_objects st"
proof -
  have "oget (stream_objects (destroy_stream_objects st keys)) k =
      (if k \<in> set keys then None else oget (stream_objects st) k) \<and>
    (ohas (destroyed_by_id (destroy_stream_objects st keys)) i \<longleftrightarrow>
      ohas (destroyed_by_id st) i \<or> i \<in> (\<lambda>k. snd (snd k)) ` set keys) \<and>
    stream_set_objects (destroy_stream_objects st keys) = stream_set_objects st"
    using assms
  proof (induction keys arbitrary: st)
    case Nil
    then show ?case by (simp add: destroy_stream_objects_def)
  next
    case (Cons key keys)
    let ?j = "snd (snd key)"
    let ?r = "remove_stream_object st ?j"
    let ?u = "mark_destroyed_object ?r ?j Delete"
    have inv: "meta_inv st" using Cons.prems(1) by simp
    from Cons.prems(2) [of key] obtain row where "oget (stream_objects st) key = Some row"
      by (auto simp: ohas_def)
    from so_row_facts(3) [OF inv this] have key: "oget (stream_object_ids st) ?j = Some key" .
    have r: "inv_room ?r (Suc (length keys))"
      using Cons.prems(1) by (intro inv_roomI [OF meta_inv_remove_so [OF inv]]) simp_all
    then have "inv_room ?u (length keys)" by (rule inv_room_mark)
    moreover have obj: "oget (stream_objects ?u) k = (if k = key then None else oget (stream_objects st) k)" for k
      using remove_so_objects [OF inv, of ?j k] key by auto
    moreover have "ohas (stream_objects ?u) k" if "k \<in> set keys" for k
      using Cons.prems(2,3) that obj by (auto simp: ohas_def)
    ultimately have IH: "oget (stream_objects (destroy_stream_objects ?u keys)) k =
        (if k \<in> set keys then None else oget (stream_objects ?u) k)"
      "ohas (destroyed_by_id (destroy_stream_objects ?u keys)) i \<longleftrightarrow>
        ohas (destroyed_by_id ?u) i \<or> i \<in> (\<lambda>k. snd (snd k)) ` set keys"
      "stream_set_objects (destroy_stream_objects ?u keys) = stream_set_objects ?u"
      using Cons.IH [of ?u] Cons.prems(3) by auto
    have "destroy_stream_objects st (key # keys) = destroy_stream_objects ?u keys"
      by (simp add: destroy_stream_objects_def)
    then show ?case
      using IH obj by (auto simp: mark_has)
  qed
  then show "oget (stream_objects (destroy_stream_objects st keys)) k =
      (if k \<in> set keys then None else oget (stream_objects st) k)"
    and "ohas (destroyed_by_id (destroy_stream_objects st keys)) i \<longleftrightarrow>
      ohas (destroyed_by_id st) i \<or> i \<in> (\<lambda>k. snd (snd k)) ` set keys"
    and "stream_set_objects (destroy_stream_objects st keys) = stream_set_objects st"
    by auto
qed

lemma distinct_objects_of: "distinct (map fst (objects_of st s))"
  unfolding objects_of_def using sorted_orange strict_sorted_iff by blast

lemma destroy_selected:
  assumes inv: "meta_inv u" and room: "seq_room u (osize (stream_objects u))"
  shows "oget (stream_objects (destroy_stream_objects u (map fst (filter P (objects_of u s))))) k =
      (case oget (stream_objects u) k of None \<Rightarrow> None
       | Some row \<Rightarrow> if fst k = s \<and> P (k, row) then None else Some row)"
    and "ohas (destroyed_by_id (destroy_stream_objects u (map fst (filter P (objects_of u s))))) i \<longleftrightarrow>
      ohas (destroyed_by_id u) i \<or>
      (\<exists>k row. oget (stream_objects u) k = Some row \<and> fst k = s \<and> snd (snd k) = i \<and> P (k, row))"
proof -
  let ?keys = "map fst (filter P (objects_of u s))"
  have mem: "x \<in> set ?keys \<longleftrightarrow> (\<exists>row. oget (stream_objects u) x = Some row \<and> fst x = s \<and> P (x, row))" for x
    by (force simp: objects_of_iff)
  have "length ?keys \<le> osize (stream_objects u)"
    using length_orange_le [of "(s, 0, 0)" "(s, u64_max, u64_max)" "stream_objects u"]
    by (simp add: objects_of_def order_trans [OF length_filter_le])
  then have 1: "inv_room u (length ?keys)"
    using inv room by (simp add: inv_room_def seq_room_def)
  have 2: "ohas (stream_objects u) x" if "x \<in> set ?keys" for x
    using that unfolding mem by (auto simp: ohas_def)
  have 3: "distinct ?keys"
    using distinct_objects_of [of u s] by (simp add: distinct_map_filter)
  show "oget (stream_objects (destroy_stream_objects u ?keys)) k =
      (case oget (stream_objects u) k of None \<Rightarrow> None
       | Some row \<Rightarrow> if fst k = s \<and> P (k, row) then None else Some row)"
    using destroy_objects(1) [OF 1 2 3, of k] mem [of k] by (auto simp del: set_map split: option.split)
  show "ohas (destroyed_by_id (destroy_stream_objects u ?keys)) i \<longleftrightarrow> ohas (destroyed_by_id u) i \<or>
      (\<exists>k row. oget (stream_objects u) k = Some row \<and> fst k = s \<and> snd (snd k) = i \<and> P (k, row))"
    using destroy_objects(2) [OF 1 2 3, of i] unfolding image_iff Bex_def mem by (simp only:) blast
qed

lemma i64_bounds [simp]: "i64_min \<le> x" "x \<le> i64_max"
proof -
  have "- (2 ^ 63) \<le> sval x" "sval x < 2 ^ 63"
    unfolding sval_def using sint_ge [of "sbits x"] sint_lt [of "sbits x"] by simp_all
  moreover have "sval i64_min = - (2 ^ 63)" "sval i64_max = 2 ^ 63 - 1"
    by (simp_all add: i64_min_def i64_max_def sval_def)
  ultimately show "i64_min \<le> x" "x \<le> i64_max"
    by (simp_all add: less_eq_sword_def)
qed

lemma stream_epochs_iff: "(e, off) \<in> set (stream_epochs st s) \<longleftrightarrow> oget (epochs st) (s, e) = Some off"
proof -
  have "(e, off) \<in> set (stream_epochs st s) \<longleftrightarrow>
      (\<exists>x. ((x, e), off) \<in> set (orange (s, i64_min) (s, i64_max) (epochs st)))"
    unfolding stream_epochs_def by force
  also have "\<dots> \<longleftrightarrow> oget (epochs st) (s, e) = Some off"
    by (auto simp: in_orange_iff less_eq_prod_def)
  finally show ?thesis .
qed

lemma oget_fold_odel_epochs:
  "oget (fold (\<lambda>(e, _). odel (s, e)) xs m) (s', x) = (if s' = s \<and> x \<in> fst ` set xs then None else oget m (s', x))"
  by (induction xs arbitrary: m) auto

lemma epochs_all_removed:
  "epochs u = epochs st \<Longrightarrow> oget (fold (\<lambda>(e, _). odel (s, e)) (stream_epochs u s) (epochs st)) (s, x) = None"
  using stream_epochs_iff [of x _ u s]
  by (cases "oget (epochs st) (s, x)") (force simp: oget_fold_odel_epochs)+

lemma delete_facts:
  assumes inv: "meta_inv st" and room: "seq_room st (osize (stream_objects st))"
    and run: "delete_stream st n s e = Inr (t, r)" and row: "oget (streams st) s = Some row"
  shows "oget (streams t) s = None" and "\<not> ohas (opening_by_node t) (m, s)" and "\<not> ohas (placed_by_node t) (m, s)"
    and "oget (pending_transfers t) s = None" and "oget (epochs t) (s, x) = None"
    and "oget (stream_objects t) k = (if fst k = s then None else oget (stream_objects st) k)"
    and "oget (stream_objects st) k = Some obj \<Longrightarrow> fst k = s \<Longrightarrow> ohas (destroyed_by_id t) (snd (snd k))"
proof -
  let ?p = "(remove_stream st s)\<lparr>pending_transfers := odel s (pending_transfers st)\<rparr>"
  let ?es = "fold (\<lambda>(epoch, _). odel (s, epoch)) (stream_epochs ?p s) (epochs st)"
  let ?u = "?p\<lparr>epochs := ?es\<rparr>"
  have t: "t = destroy_stream_objects ?u (map fst (filter (\<lambda>_. True) (objects_of ?u s)))"
    using run row by (simp add: delete_stream_Ok delete_state_def Let_def)
  have u: "meta_inv ?u" using inv by (simp add: meta_inv_remove_stream)
  have "seq_room ?u (osize (stream_objects ?u))" using room by (simp add: seq_room_def)
  note sel = destroy_selected [OF u this, of "\<lambda>_. True" s, folded t]
  show "oget (streams t) s = None"
    using view_destroy [of ?u "map fst (filter (\<lambda>_. True) (objects_of ?u s))" s] unfolding t [symmetric]
    by simp
  moreover have "meta_inv t"
    using run inv room by (intro meta_inv_delete_stream [of st]) (simp_all add: inv_room_def)
  ultimately show "\<not> ohas (opening_by_node t) (m, s)" "\<not> ohas (placed_by_node t) (m, s)"
    by (auto simp: meta_inv_def inv_streams_def idx_ok_def)
  show "oget (pending_transfers t) s = None"
    unfolding t by simp
  show "oget (epochs t) (s, x) = None"
    unfolding t by (simp add: epochs_all_removed)
  show "oget (stream_objects t) k = (if fst k = s then None else oget (stream_objects st) k)"
    using sel(1) [of k] by (auto split: option.splits)
  show "oget (stream_objects st) k = Some obj \<Longrightarrow> fst k = s \<Longrightarrow> ohas (destroyed_by_id t) (snd (snd k))"
    using sel(2) [of "snd (snd k)"] by (cases k) auto
qed

section \<open>The queue of destroyed objects\<close>

text \<open>
  The abstract queue: marking an id that waits already changes its operation in place, a new id goes
  to the end; cleaning drops an id. This is the insertion-ordered map that the code builds from a
  sequence counter and two ordered maps.
\<close>

fun queue_mark :: "u64 \<Rightarrow> compact_operations \<Rightarrow> (u64 \<times> compact_operations) list \<Rightarrow> (u64 \<times> compact_operations) list" where
  "queue_mark i op [] = [(i, op)]"
| "queue_mark i op ((j, x) # q) = (if i = j then (i, op) # q else (j, x) # queue_mark i op q)"

definition queue_clean :: "u64 \<Rightarrow> (u64 \<times> compact_operations) list \<Rightarrow> (u64 \<times> compact_operations) list" where
  "queue_clean i q = filter (\<lambda>(j, _). j \<noteq> i) q"

definition destroyed_queue :: "metadata_state \<Rightarrow> (u64 \<times> compact_operations) list" where
  "destroyed_queue st = map snd (oentries (mark_destroyed st))"

lemma queue_mark_new: "i \<notin> fst ` set q \<Longrightarrow> queue_mark i op q = q @ [(i, op)]"
  by (induction i op q rule: queue_mark.induct) auto

lemma al_put_last: "\<forall>k \<in> fst ` set xs. k < q \<Longrightarrow> al_put q v xs = xs @ [(q, v)]"
  by (induction q v xs rule: al_put.induct) auto

lemma map_snd_al_put:
  assumes "sorted_wrt (<) (map fst xs)" and "(q, i, x) \<in> set xs"
    and "\<And>p y. (p, i, y) \<in> set xs \<Longrightarrow> p = q"
  shows "map snd (al_put q (i, op) xs) = queue_mark i op (map snd xs)"
  using assms
proof (induction xs)
  case (Cons e xs)
  obtain p j y where e: "e = (p, j, y)" by (cases e)
  show ?case
  proof (cases "p = q")
    case True
    have "q \<notin> set (map fst xs)"
      using Cons.prems(1) True by (simp add: e) blast
    then have "(q, i, x) \<notin> set xs"
      by (metis fst_conv image_eqI set_map)
    then have "(q, i, x) = (p, j, y)"
      using Cons.prems(2) by (simp add: e)
    then show ?thesis by (simp add: e)
  next
    case False
    then have mem: "(q, i, x) \<in> set xs"
      using Cons.prems(2) by (auto simp: e)
    then have "q \<in> set (map fst xs)"
      by (metis fst_conv image_eqI set_map)
    then have "p < q"
      using Cons.prems(1) by (auto simp: e)
    moreover have "j \<noteq> i"
    proof
      assume "j = i"
      then have "(p, i, y) \<in> set (e # xs)" by (simp add: e)
      from Cons.prems(3) [OF this] False show False by simp
    qed
    moreover have "map snd (al_put q (i, op) xs) = queue_mark i op (map snd xs)"
    proof (rule Cons.IH [OF _ mem])
      show "sorted_wrt (<) (map fst xs)" using Cons.prems(1) by simp
      show "p' = q" if "(p', i, y') \<in> set xs" for p' y'
        by (rule Cons.prems(3) [of _ y']) (simp add: that)
    qed
    ultimately show ?thesis by (auto simp: e)
  qed
qed simp

lemma destroyed_queue_mark:
  assumes "meta_inv st"
  shows "destroyed_queue (mark_destroyed_object st i op) = queue_mark i op (destroyed_queue st)"
proof (cases "oget (destroyed_by_id st) i")
  case (Some q)
  from assms Some obtain x where "oget (mark_destroyed st) q = Some (i, x)" by (rule destroyed_id_seq)
  then have mem: "(q, i, x) \<in> set (oentries (mark_destroyed st))" by (simp add: om.in_entries_iff)
  have "p = q" if "(p, i, y) \<in> set (oentries (mark_destroyed st))" for p y
    using destroyed_seq_id [OF assms, of p i y] Some that by (simp add: om.in_entries_iff)
  from map_snd_al_put [OF om.sorted_entries mem this]
  have "map snd (al_put q (i, op) (oentries (mark_destroyed st))) =
    queue_mark i op (map snd (oentries (mark_destroyed st)))" .
  with Some show ?thesis
    by (simp add: mark_destroyed_object_def put_destroyed_def destroyed_queue_def)
next
  case None
  have "i \<notin> fst ` set (destroyed_queue st)"
  proof
    assume "i \<in> fst ` set (destroyed_queue st)"
    then obtain p x where "(p, i, x) \<in> set (oentries (mark_destroyed st))"
      by (auto simp: destroyed_queue_def)
    then have "oget (mark_destroyed st) p = Some (i, x)" by (simp add: om.in_entries_iff)
    from destroyed_seq_id [OF assms this] None show False by simp
  qed
  moreover have "\<forall>k \<in> fst ` set (oentries (mark_destroyed st)). k < next_destroyed_seq st"
    using assms by (auto simp: meta_inv_def inv_destroyed_def om.in_entries_iff)
  from al_put_last [OF this] have "al_put (next_destroyed_seq st) (i, op) (oentries (mark_destroyed st)) =
    oentries (mark_destroyed st) @ [(next_destroyed_seq st, i, op)]" .
  ultimately show ?thesis
    using None
    by (simp add: mark_destroyed_object_def put_destroyed_def destroyed_queue_def Let_def queue_mark_new)
qed

lemma destroyed_queue_clean:
  assumes "meta_inv st"
  shows "destroyed_queue (remove_destroyed st i) = queue_clean i (destroyed_queue st)"
proof (cases "oget (destroyed_by_id st) i")
  case None
  have "fst e \<noteq> i" if "e \<in> set (destroyed_queue st)" for e
  proof
    assume "fst e = i"
    with that obtain p where "(p, i, snd e) \<in> set (oentries (mark_destroyed st))"
      by (auto simp: destroyed_queue_def)
    then have "oget (mark_destroyed st) p = Some (i, snd e)" by (simp add: om.in_entries_iff)
    from destroyed_seq_id [OF assms this] None show False by simp
  qed
  then have "queue_clean i (destroyed_queue st) = destroyed_queue st"
    unfolding queue_clean_def case_prod_unfold by (intro filter_True) blast
  with None show ?thesis
    by (simp add: remove_destroyed_def destroyed_queue_def)
next
  case (Some q)
  have same: "p \<noteq> q \<longleftrightarrow> j \<noteq> i" if "(p, j, x) \<in> set (oentries (mark_destroyed st))" for p j x
  proof -
    from that have p: "oget (mark_destroyed st) p = Some (j, x)" by (simp add: om.in_entries_iff)
    from assms Some obtain y where "oget (mark_destroyed st) q = Some (i, y)" by (rule destroyed_id_seq)
    with p destroyed_seq_id [OF assms p] Some show ?thesis by auto
  qed
  have "filter (\<lambda>(p, w). p \<noteq> q) (oentries (mark_destroyed st)) =
      filter ((\<lambda>(j, _). j \<noteq> i) \<circ> snd) (oentries (mark_destroyed st))"
  proof (rule filter_cong)
    fix e assume "e \<in> set (oentries (mark_destroyed st))"
    then show "(case e of (p, w) \<Rightarrow> p \<noteq> q) = ((\<lambda>(j, _). j \<noteq> i) \<circ> snd) e"
      using same [of "fst e" "fst (snd e)" "snd (snd e)"] by (simp add: case_prod_unfold)
  qed simp
  with Some show ?thesis
    by (simp add: remove_destroyed_def destroyed_queue_def queue_clean_def al_del_def filter_map)
qed

section \<open>Expiry of prepared ids\<close>

lemma fold_remove_prepared:
  "oget (prepared (fold (\<lambda>(_, i) st. remove_prepared st i) ks st)) j =
    (if j \<in> snd ` set ks then None else oget (prepared st) j)"
proof (induction ks arbitrary: st)
  case (Cons k ks)
  have "oget (prepared (remove_prepared st i)) j = (if j = i then None else oget (prepared st) j)" for i j
    by (auto simp: remove_prepared_def split: option.split)
  with Cons show ?case by (cases k) auto
qed simp

lemma expired_ids:
  assumes "meta_inv st"
  shows "j \<in> snd ` set (filter (\<lambda>key. key \<le> (now, u64_max)) (okeys (prepared_by_deadline st))) \<longleftrightarrow>
    (\<exists>d. oget (prepared st) j = Some d \<and> d \<le> now)"
proof -
  have "(d, j) \<in> set (okeys (prepared_by_deadline st)) \<longleftrightarrow> oget (prepared st) j = Some d" for d
    using assms by (simp add: okeys_iff meta_inv_def inv_prepared_def del: set_map)
  then have "j \<in> snd ` set (filter (\<lambda>key. key \<le> (now, u64_max)) (okeys (prepared_by_deadline st))) \<longleftrightarrow>
      (\<exists>d. (d, j) \<le> (now, u64_max) \<and> oget (prepared st) j = Some d)"
    unfolding set_filter image_iff by (metis (mono_tags, lifting) mem_Collect_eq prod.collapse snd_conv)
  then show ?thesis
    by (auto simp: less_eq_prod_def word_coorder.extremum)
qed

lemma expired_count:
  assumes "meta_inv st"
  shows "length (filter (\<lambda>key. key \<le> (now, u64_max)) (okeys (prepared_by_deadline st))) =
    length (filter (\<lambda>(_, d). d \<le> now) (oentries (prepared st)))"
proof -
  let ?ks = "filter (\<lambda>key. key \<le> (now, u64_max)) (okeys (prepared_by_deadline st))"
  let ?es = "filter (\<lambda>(_, d). d \<le> now) (oentries (prepared st))"
  have "distinct ?ks" "distinct (map fst (oentries (prepared st)))"
    by (simp_all add: om.distinct_entries)
  then have "distinct ?es"
    by (simp add: distinct_map)
  have "set ?ks = prod.swap ` set ?es"
  proof (rule set_eqI)
    fix x :: "i64 \<times> u64"
    obtain d i where x: "x = (d, i)" by (cases x)
    have "x \<in> set ?ks \<longleftrightarrow> d \<le> now \<and> oget (prepared st) i = Some d"
      using assms
      by (auto simp: x okeys_iff meta_inv_def inv_prepared_def less_eq_prod_def word_coorder.extremum simp del: set_map)
    also have "\<dots> \<longleftrightarrow> x \<in> prod.swap ` set ?es"
      by (force simp: x om.in_entries_iff)
    finally show "x \<in> set ?ks \<longleftrightarrow> x \<in> prod.swap ` set ?es" .
  qed
  then have "card (set ?ks) = card (set ?es)"
    by (simp add: card_image inj_on_def)
  with \<open>distinct ?ks\<close> \<open>distinct ?es\<close> show ?thesis
    by (simp only: distinct_card)
qed

section \<open>A log with a committed object\<close>

definition demo_object :: stream_object where
  "demo_object = \<lparr>so_object_id = 100, so_object_size = 10, so_stream_id = 0, so_start_offset = 0,
     so_end_offset = 5, so_attributes = 0\<rparr>"

definition demo_request :: commit_request where
  "demo_request = \<lparr>cr_object_id = 7, cr_object_size = 0, cr_attributes = 0, cr_stream_ranges = [],
     cr_stream_objects = [demo_object], cr_compacted_object_ids = []\<rparr>"

definition demo_commit_log :: "metadata_command list" where
  "demo_commit_log = demo_log @ [CommitStreamSetObject demo_proposer demo_request 50]"

lemmas commit_eval = demo_object_def demo_request_def commit_stream_set_object_def
  redundant_commit_check_def stream_object_committed_def commit_set_part_def commit_stream_part_def
  check_object_id_free_def remove_prepared_def advance_end_offset_def insert_stream_object_def
  put_stream_object_def remove_stream_object_def first_range_def add_stream_bytes_def
  remove_stream_bytes_def seq_room_def max_or_def ohas_def

lemma demo_commit_ok: "meta_log_ok 7 demo_commit_log"
  by (simp add: demo_commit_log_def demo_eval commit_eval)

lemma demo_commit_inv: "meta_inv (meta_run 7 demo_commit_log)"
  by (rule meta.run_inv [OF meta_inv_new demo_commit_ok])

lemma demo_inv: "meta_inv (meta_run 7 demo_log)"
  by (rule meta.run_inv [OF meta_inv_new demo_ok])

lemma demo_open_row: "oget (streams (meta_run noop demo_log)) 0 = Some (demo_row\<lparr>row_state := Opened\<rparr>)"
  by (simp add: demo_eval demo_row_def)

lemma demo_commit_run:
  "commit_stream_set_object 7 (meta_run 7 demo_log) 1 demo_request 50 = Inr (meta_run 7 demo_commit_log, ResUnit)"
  by (simp add: demo_commit_log_def demo_eval commit_eval)

lemmas retire_eval = trim_stream_def delete_stream_def stream_epochs_def objects_of_def orange_def
  destroy_stream_objects_def mark_destroyed_object_def put_destroyed_def i64_min_def remove_stream_def
  unindex_row_def al_del_def

lemma demo_trim_run:
  "trim_stream (meta_run 7 demo_commit_log) 1 0 0 5 =
    Inr (meta_run 7 (demo_commit_log @ [TrimStream demo_proposer 0 0 5]), ResUnit)"
  by (simp add: demo_commit_log_def demo_eval commit_eval retire_eval)

lemma demo_closed_inv: "meta_inv (meta_run 7 (demo_commit_log @ [CloseStream demo_proposer 0 0]))"
  by (rule meta.run_inv [OF meta_inv_new]) (simp add: demo_commit_log_def demo_eval commit_eval)

lemma demo_delete_run:
  "delete_stream (meta_run 7 (demo_commit_log @ [CloseStream demo_proposer 0 0])) 1 0 0 =
    Inr (meta_run 7 (demo_commit_log @ [CloseStream demo_proposer 0 0, DeleteStream demo_proposer 0 0]), ResUnit)"
  by (simp add: demo_commit_log_def demo_eval commit_eval retire_eval)

text \<open>A stream-set object with one range, and a request that rewrites it.\<close>

definition demo_set_request :: "u64 \<Rightarrow> u64 list \<Rightarrow> commit_request" where
  "demo_set_request i old = \<lparr>cr_object_id = i, cr_object_size = 10, cr_attributes = 0,
     cr_stream_ranges = [\<lparr>osr_stream_id = 0, osr_epoch = 0, osr_start_offset = 0, osr_end_offset = 5, osr_size = 10\<rparr>],
     cr_stream_objects = [], cr_compacted_object_ids = old\<rparr>"

definition demo_set_log :: "metadata_command list" where
  "demo_set_log = demo_log @ [CommitStreamSetObject demo_proposer (demo_set_request 200 []) 50]"

lemmas set_eval = demo_set_request_def demo_set_log_def put_stream_set_object_def
  remove_stream_set_object_def

lemma demo_rewrite_run:
  "commit_stream_set_object 7 (meta_run 7 demo_set_log) 1 (demo_set_request 201 [200]) 60 =
    Inr (meta_run 7 (demo_set_log @ [CommitStreamSetObject demo_proposer (demo_set_request 201 [200]) 60]), ResUnit)"
  by (simp add: set_eval demo_eval commit_eval retire_eval)

text \<open>Two prepared ids with deadline 15.\<close>

definition demo_prepare_log :: "metadata_command list" where
  "demo_prepare_log = [RegisterNode 1 1 ''http'' 4 oempty ''wal'', PrepareObject demo_proposer 2 10 5]"

lemmas prepare_eval = demo_prepare_log_def prepare_object_def expire_prepared_objects_def put_prepared_def
  u64_range_def

lemma demo_prepare_inv: "meta_inv (meta_run 7 demo_prepare_log)"
  by (rule meta.run_inv [OF meta_inv_new]) (simp add: prepare_eval demo_eval upt_rec)

lemma demo_expire_run:
  "expire_prepared_objects (meta_run 7 demo_prepare_log) 20 =
    Inr (meta_run 7 (demo_prepare_log @ [ExpirePreparedObjects demo_proposer 20]), ResCount 2)"
  by (simp add: prepare_eval demo_eval remove_prepared_def upt_rec less_eq_prod_def less_prod_def al_del_def)

section \<open>Properties\<close>

text \<open>
  C6. A commit that compacts nothing appends contiguously: for every stream, the ranges the request
  names for it start where the stream's committed end is, each next one starts where the previous
  one ended, and the last one's end is the new committed end. Streams the request does not name
  keep their end.
\<close>

theorem commit_appends_contiguously:
  assumes "meta_inv st" and "cr_compacted_object_ids req = []"
    and "commit_stream_set_object noop st n req now = Inr (t, r)"
    and "oget (streams st) s = Some row"
  shows "\<exists>row'. oget (streams t) s = Some row' \<and>
    chain (Some (row_end_offset row)) (appended noop req s) = Some (row_end_offset row')"
proof -
  have "inv_room st (length (cr_compacted_object_ids req))"
    using assms(1,2) unsigned_less [of "next_destroyed_seq st", where ?'a = nat]
    by (simp add: inv_room_def seq_room_def)
  from extends_commit [OF this assms(3), of s] assms(4) obtain row' where row': "oget (streams t) s = Some row'"
    by (cases "oget (streams t) s") (auto simp: extends_view_def stream_view_def)
  with commit_chain [OF assms(1-3), of s] assms(4) show ?thesis
    by (simp add: view_end_def stream_view_def)
qed

theorem commit_appends_contiguously_witness:
  "\<exists>row'. oget (streams (meta_run 7 demo_commit_log)) 0 = Some row' \<and>
    chain (Some 0) (appended 7 demo_request 0) = Some (row_end_offset row')"
  using commit_appends_contiguously [OF demo_inv _ demo_commit_run demo_open_row]
  by (simp add: demo_request_def demo_row_def)

text \<open>
  C7. A commit that compacts stream-set objects rewrites data in place: no stream row changes, except
  for its byte count.
\<close>

theorem compacting_commit_keeps_streams:
  assumes "cr_compacted_object_ids req \<noteq> []"
    and "commit_stream_set_object noop st n req now = Inr (t, r)"
  shows "stream_view t s = stream_view st s"
  using assms(2)
proof (rule commit_Ok_cases)
  let ?u = "fold (\<lambda>i st. mark_destroyed_object (remove_stream_set_object st i) i Delete) (cr_compacted_object_ids req) st"
  fix c dt lw v
  assume "c \<longleftrightarrow> cr_compacted_object_ids req \<noteq> []" and v: "commit_set_part noop ?u n req now c dt lw = Inr v"
    and t: "rfold (\<lambda>st so. commit_stream_part st so now c dt lw) (cr_stream_objects req) v = Inr t"
  with assms(1) have c: "c" by simp
  have same: "stream_view y s = stream_view x s" if "commit_stream_part x so now c dt lw = Inr y" for x so y
    using that c by (auto simp: commit_stream_part_def dest!: advance_compact(1))
  have "stream_view t s = stream_view v s"
    by (rule rfold_invariant [OF t]) (simp_all add: same)
  also have "\<dots> = stream_view ?u s"
  proof (cases "cr_object_id req = noop")
    case True
    with v show ?thesis by (simp add: commit_set_part_def)
  next
    case False
    with v c obtain w row where w: "rfold (\<lambda>st range. advance_end_offset st (osr_stream_id range)
        (osr_start_offset range) (osr_end_offset range) True) (cr_stream_ranges req)
        (remove_prepared ?u (cr_object_id req)) = Inr w" and v: "v = put_stream_set_object w row"
      by (auto simp: commit_set_part_def)
    have "stream_view w s = stream_view (remove_prepared ?u (cr_object_id req)) s"
      by (rule rfold_invariant [OF w]) (auto dest!: advance_compact(1))
    with v show ?thesis by simp
  qed
  also have "\<dots> = stream_view st s" by (simp add: view_fold_same)
  finally show ?thesis .
qed

theorem compacting_commit_keeps_streams_witness:
  "stream_view (meta_run 7 (demo_set_log @ [CommitStreamSetObject demo_proposer (demo_set_request 201 [200]) 60])) 0 =
    stream_view (meta_run 7 demo_set_log) 0"
  by (rule compacting_commit_keeps_streams [OF _ demo_rewrite_run]) (simp add: demo_set_request_def)



text \<open>
  C9. A successful trim retires exactly the stream objects of the stream that lie wholly below the
  new start offset: their rows are gone and their ids wait for destruction. All other rows stay.
\<close>

theorem trim_retires_exactly:
  assumes inv: "meta_inv st" and room: "seq_room st (osize (stream_objects st))"
    and run: "trim_stream st n s e off = Inr (t, r)"
  shows "(oget (stream_objects t) k = Some row \<longleftrightarrow>
      oget (stream_objects st) k = Some row \<and>
      \<not> (fst k = s \<and> rng_end_offset (first_range (sor_object row)) \<le> off)) \<and>
    (ohas (destroyed_by_id t) i \<longleftrightarrow> ohas (destroyed_by_id st) i \<or>
      (\<exists>k row. oget (stream_objects st) k = Some row \<and> fst k = s \<and> snd (snd k) = i \<and>
        rng_end_offset (first_range (sor_object row)) \<le> off))"
proof -
  from run obtain row0 where row0: "oget (streams st) s = Some row0" and t: "t = trim_state st s row0 off"
    unfolding trim_stream_Ok by (elim exE conjE)
  let ?P = "\<lambda>(_, row). rng_end_offset (first_range (sor_object row)) \<le> off"
  let ?p = "put_stream st (row0\<lparr>row_start_offset := off\<rparr>)"
  obtain es where t: "t = destroy_stream_objects (?p\<lparr>epochs := es\<rparr>)
      (map fst (filter ?P (objects_of (?p\<lparr>epochs := es\<rparr>) s)))"
    using t unfolding trim_state_def Let_def by blast
  let ?u = "?p\<lparr>epochs := es\<rparr>"
  have "meta_inv ?u" using meta_inv_put_existing [OF inv row0] by simp
  moreover have "seq_room ?u (osize (stream_objects ?u))" using room by (simp add: seq_room_def)
  ultimately show ?thesis
    using destroy_selected(1) [of ?u ?P s k] destroy_selected(2) [of ?u ?P s i] unfolding t
    by (simp split: option.splits) blast
qed

theorem trim_retires_exactly_witness:
  "ohas (destroyed_by_id (meta_run 7 (demo_commit_log @ [TrimStream demo_proposer 0 0 5]))) 100 \<longleftrightarrow>
    ohas (destroyed_by_id (meta_run 7 demo_commit_log)) 100 \<or>
    (\<exists>k row. oget (stream_objects (meta_run 7 demo_commit_log)) k = Some row \<and> fst k = 0 \<and> snd (snd k) = 100 \<and>
      rng_end_offset (first_range (sor_object row)) \<le> 5)"
proof -
  have "seq_room (meta_run 7 demo_commit_log) (osize (stream_objects (meta_run 7 demo_commit_log)))"
    by (simp add: demo_commit_log_def demo_eval commit_eval)
  from trim_retires_exactly [OF demo_commit_inv this demo_trim_run, where i = 100] show ?thesis by blast
qed



text \<open>
  C11. The destruction queue is first in, first out by the time of the first marking: marking an id
  that waits already only replaces its operation, marking a new id puts it last, and cleaning an id
  takes it out and keeps the order of the rest.
\<close>

theorem destroyed_queue_refines:
  assumes "meta_inv st"
  shows "destroyed_queue (mark_destroyed_object st i op) = queue_mark i op (destroyed_queue st) \<and>
    destroyed_queue (remove_destroyed st i) = queue_clean i (destroyed_queue st)"
  using destroyed_queue_mark [OF assms] destroyed_queue_clean [OF assms] by blast

theorem destroyed_queue_refines_witness:
  "destroyed_queue (mark_destroyed_object (meta_run 7 demo_commit_log) 100 KeepData) =
    queue_mark 100 KeepData (destroyed_queue (meta_run 7 demo_commit_log))"
  using destroyed_queue_refines [OF demo_commit_inv] by blast

text \<open>
  C12. Expiry drops exactly the prepared ids whose deadline has passed, and reports how many.
\<close>

theorem expire_is_exact:
  assumes "meta_inv st" and "expire_prepared_objects st now = Inr (t, r)"
  shows "(oget (prepared t) i = Some d \<longleftrightarrow> oget (prepared st) i = Some d \<and> now < d) \<and>
    r = ResCount (of_nat (length (filter (\<lambda>(_, d). d \<le> now) (oentries (prepared st)))))"
proof -
  let ?ks = "filter (\<lambda>key. key \<le> (now, u64_max)) (okeys (prepared_by_deadline st))"
  have t: "t = fold (\<lambda>(_, i) st. remove_prepared st i) ?ks st" and r: "r = ResCount (of_nat (length ?ks))"
    using assms(2) by (simp_all add: expire_prepared_objects_def Let_def case_prod_unfold)
  have "length ?ks = length (filter (\<lambda>(_, d). d \<le> now) (oentries (prepared st)))"
    using expired_count [OF assms(1)] .
  moreover have "oget (prepared t) i = Some d \<longleftrightarrow> oget (prepared st) i = Some d \<and> now < d"
    unfolding t fold_remove_prepared expired_ids [OF assms(1)] by auto
  ultimately show ?thesis using r by simp
qed

theorem expire_is_exact_witness:
  "oget (prepared (meta_run 7 (demo_prepare_log @ [ExpirePreparedObjects demo_proposer 20]))) 0 = Some 15 \<longleftrightarrow>
    oget (prepared (meta_run 7 demo_prepare_log)) 0 = Some 15 \<and> 20 < (15 :: i64)"
  using expire_is_exact [OF demo_prepare_inv demo_expire_run, of 0 15] by blast

end
