(* ===== verification/Meta_Query.thy ===== *)
theory Meta_Query
  imports Meta_Placement "HOL-Library.Multiset" "HOL-Library.Sublist"
begin

text \<open>
  The read side, \<^verbatim>\<open>pico-metadata/src/query.rs\<close>. The scans of the code stop early, merge two
  sorted indexes and page through the key space; the theorems say what they compute: the fetch query
  is the stable sort of all overlapping ranges cut at the limit, the prefix listings are plain
  filters of the store, and the per-node counters count the rows.

  \<^verbatim>\<open>map[&key]\<close> panics on a missing key. The model reads such an entry with \<open>the\<close>, and
  \<open>queries_never_panic\<close> shows that under the state's invariant the entry is always there.
\<close>

section \<open>Queries\<close>

definition is_live :: "metadata_state \<Rightarrow> proposer \<Rightarrow> bool" where
  "is_live st node =
    (case oget (nodes st) (prop_node_id node) of
       None \<Rightarrow> False
     | Some row \<Rightarrow> nr_epoch row = prop_node_epoch node \<and> \<not> nr_fenced row)"

definition get_stream :: "metadata_state \<Rightarrow> u64 \<Rightarrow> stream_metadata option" where
  "get_stream st stream_id = map_option to_stream_metadata (oget (streams st) stream_id)"

definition get_streams :: "metadata_state \<Rightarrow> u64 list \<Rightarrow> stream_metadata list" where
  "get_streams st stream_ids = List.map_filter (get_stream st) stream_ids"

definition get_opening_streams :: "metadata_state \<Rightarrow> i32 \<Rightarrow> stream_metadata list" where
  "get_opening_streams st node_id =
    List.map_filter (\<lambda>((_, stream_id), ()). get_stream st stream_id)
      (orange (node_id, 0) (node_id, u64_max) (opening_by_node st))"

definition placed_on :: "metadata_state \<Rightarrow> i32 \<Rightarrow> u64 list" where
  "placed_on st node_id =
    map (\<lambda>((_, stream_id), ()). stream_id) (orange (node_id, 0) (node_id, u64_max) (placed_by_node st))"

definition opening_count :: "metadata_state \<Rightarrow> i32 \<Rightarrow> nat" where
  "opening_count st node_id = length (orange (node_id, 0) (node_id, u64_max) (opening_by_node st))"

definition placed_count :: "metadata_state \<Rightarrow> i32 \<Rightarrow> nat" where
  "placed_count st node_id = length (orange (node_id, 0) (node_id, u64_max) (placed_by_node st))"

definition non_empty :: "string option \<Rightarrow> string option" where
  "non_empty a = (case a of None \<Rightarrow> None | Some a \<Rightarrow> if a = [] then None else Some a)"

definition get_node_address :: "metadata_state \<Rightarrow> i32 \<Rightarrow> string option" where
  "get_node_address st node_id = non_empty (map_option nr_http_address (oget (nodes st) node_id))"

definition get_node_protocol_address :: "metadata_state \<Rightarrow> i32 \<Rightarrow> string \<Rightarrow> string option" where
  "get_node_protocol_address st node_id protocol =
    non_empty (case oget (nodes st) node_id of
      None \<Rightarrow> None | Some n \<Rightarrow> oget (nr_protocol_addresses n) protocol)"

definition object_spans :: "metadata_state \<Rightarrow> u64 \<Rightarrow> object_span list" where
  "object_spans st stream_id =
    (case oget (streams st) stream_id of
       None \<Rightarrow> []
     | Some stream \<Rightarrow>
         (let slices = map (\<lambda>((_, start_offset, object_id), (end_offset, bs)).
                \<lparr>span_start_offset = start_offset, span_end_offset = end_offset, span_bytes = bs,
                 span_last_write_ms = sso_last_write_ms (the (oget (stream_set_objects st) object_id))\<rparr>)
                (orange (stream_id, 0, 0) (stream_id, u64_max, u64_max) (sso_ranges st));
              objects = map (\<lambda>(_, row).
                \<lparr>span_start_offset = rng_start_offset (first_range (sor_object row)),
                 span_end_offset = rng_end_offset (first_range (sor_object row)),
                 span_bytes = obj_object_size (sor_object row),
                 span_last_write_ms = sor_last_write_ms row\<rparr>)
                (orange (stream_id, 0, 0) (stream_id, u64_max, u64_max) (stream_objects st))
          in sort_key span_start_offset
               (filter (\<lambda>span. span_end_offset span > row_start_offset stream) (slices @ objects))))"

definition overlaps :: "u64 \<Rightarrow> u64 \<Rightarrow> u64 \<Rightarrow> u64 \<Rightarrow> bool" where
  "overlaps start_offset end_offset range_start range_end \<longleftrightarrow>
    range_end > start_offset \<and> range_start < end_offset"

text \<open>The loop of \<^verbatim>\<open>get_objects\<close>: the first argument counts the results still allowed.\<close>

fun merge_objects :: "metadata_state \<Rightarrow> nat \<Rightarrow> (u64 \<times> u64) list \<Rightarrow> (stream_offset_key \<times> stream_object_row) list
    \<Rightarrow> s3_object_metadata list" where
  "merge_objects st 0 sso stream_objs = []"
| "merge_objects st (Suc room) ((sso_start, object_id) # sso) stream_objs =
    (if \<not> (case stream_objs of [] \<Rightarrow> False | ((_, so_start, _), _) # _ \<Rightarrow> so_start < sso_start)
     then sso_object (the (oget (stream_set_objects st) object_id)) # merge_objects st room sso stream_objs
     else sor_object (snd (hd stream_objs)) # merge_objects st room ((sso_start, object_id) # sso) (tl stream_objs))"
| "merge_objects st (Suc room) [] ((_, row) # stream_objs) = sor_object row # merge_objects st room [] stream_objs"
| "merge_objects st (Suc room) [] [] = []"

definition sso_scan :: "metadata_state \<Rightarrow> u64 \<Rightarrow> u64 \<Rightarrow> u64 \<Rightarrow> (u64 \<times> u64) list" where
  "sso_scan st stream_id start_offset end_offset =
    map (\<lambda>((_, range_start, object_id), _). (range_start, object_id))
      (filter (\<lambda>((_, range_start, _), (range_end, _)). overlaps start_offset end_offset range_start range_end)
        (takeWhile (\<lambda>((_, range_start, _), _). range_start < end_offset)
          (orange (stream_id, 0, 0) (stream_id, u64_max, u64_max) (sso_ranges st))))"

definition stream_scan :: "metadata_state \<Rightarrow> u64 \<Rightarrow> u64 \<Rightarrow> u64 \<Rightarrow> (stream_offset_key \<times> stream_object_row) list" where
  "stream_scan st stream_id start_offset end_offset =
    filter (\<lambda>(_, row). overlaps start_offset end_offset (rng_start_offset (first_range (sor_object row)))
        (rng_end_offset (first_range (sor_object row))))
      (takeWhile (\<lambda>((_, range_start, _), _). range_start < end_offset)
        (orange (stream_id, 0, 0) (stream_id, u64_max, u64_max) (stream_objects st)))"

definition get_objects :: "metadata_state \<Rightarrow> u64 \<Rightarrow> u64 \<Rightarrow> u64 \<Rightarrow> nat \<Rightarrow> s3_object_metadata list" where
  "get_objects st stream_id start_offset end_offset limit =
    merge_objects st limit (sso_scan st stream_id start_offset end_offset)
      (stream_scan st stream_id start_offset end_offset)"

definition get_stream_objects :: "metadata_state \<Rightarrow> u64 \<Rightarrow> u64 \<Rightarrow> u64 \<Rightarrow> nat \<Rightarrow> s3_object_metadata list" where
  "get_stream_objects st stream_id start_offset end_offset limit =
    map (\<lambda>(_, row). sor_object row) (take limit (stream_scan st stream_id start_offset end_offset))"

definition get_server_objects :: "metadata_state \<Rightarrow> i32 \<Rightarrow> s3_object_metadata list" where
  "get_server_objects st node_id =
    map (\<lambda>((_, object_id), ()). sso_object (the (oget (stream_set_objects st) object_id)))
      (orange (node_id, 0) (node_id, u64_max) (sso_by_node st))"

definition is_object_exist :: "metadata_state \<Rightarrow> u64 \<Rightarrow> bool" where
  "is_object_exist st object_id \<longleftrightarrow>
    ohas (stream_set_objects st) object_id \<or> ohas (prepared st) object_id \<or>
    ohas (stream_object_ids st) object_id"

definition objects_count :: "metadata_state \<Rightarrow> nat" where
  "objects_count st = osize (stream_set_objects st) + osize (stream_objects st)"

definition prepared_objects_count :: "metadata_state \<Rightarrow> nat" where
  "prepared_objects_count st = osize (prepared st)"

definition peek_destroyed_objects :: "metadata_state \<Rightarrow> nat \<Rightarrow> (u64 \<times> compact_operations) list" where
  "peek_destroyed_objects st limit = take limit (ovals (mark_destroyed st))"

definition stream_object_keys_page :: "metadata_state \<Rightarrow> stream_offset_key option \<Rightarrow> nat \<Rightarrow> stream_offset_key list" where
  "stream_object_keys_page st start_after limit =
    map fst (take limit (filter (\<lambda>(key, _). case start_after of None \<Rightarrow> True | Some after \<Rightarrow> after < key)
      (oentries (stream_objects st))))"

definition get_kv :: "metadata_state \<Rightarrow> string \<Rightarrow> bytes option" where
  "get_kv st key = oget (kv st) key"

definition list_kv :: "metadata_state \<Rightarrow> string \<Rightarrow> (string \<times> bytes) list" where
  "list_kv st prefix' =
    takeWhile (\<lambda>(key, _). prefix prefix' key) (filter (\<lambda>(key, _). prefix' \<le> key) (oentries (kv st)))"

definition list_kv_page :: "metadata_state \<Rightarrow> string \<Rightarrow> string option \<Rightarrow> nat \<Rightarrow> (string \<times> bytes) list" where
  "list_kv_page st prefix' start_after limit =
    (let in_range = (case start_after of
           Some after \<Rightarrow> if prefix' \<le> after then (\<lambda>key. after < key) else (\<lambda>key. prefix' \<le> key)
         | None \<Rightarrow> (\<lambda>key. prefix' \<le> key))
     in take limit (takeWhile (\<lambda>(key, _). prefix prefix' key)
          (filter (\<lambda>(key, _). in_range key) (oentries (kv st)))))"

section \<open>Prefix listings\<close>

lemma prefix_le: "prefix p k \<Longrightarrow> p \<le> (k :: string)"
proof (induction p arbitrary: k)
  case (Cons a p)
  then show ?case by (cases k) auto
qed simp

lemma prefix_convex:
  fixes x y :: string
  assumes "p \<le> x" and "x \<le> y" and "prefix p y"
  shows "prefix p x"
  using assms
proof (induction p arbitrary: x y)
  case (Cons a p)
  from Cons.prems(3) obtain y' where y: "y = a # y'" "prefix p y'"
    by (cases y) auto
  from Cons.prems(1,2) y obtain x' where "x = a # x'" "p \<le> x'" "x' \<le> y'"
    by (cases x) auto
  with Cons.IH [OF _ _ y(2)] show ?case by simp
qed simp

lemma prefix_scan:
  assumes sorted: "sorted_wrt (<) (map fst xs)" and above: "\<And>e. e \<in> set xs \<Longrightarrow> p \<le> fst e"
  shows "takeWhile (\<lambda>(key, _). prefix p key) xs = filter (\<lambda>(key, _). prefix p key) (xs :: (string \<times> 'v) list)"
proof (rule takeWhile_eq_filter_sorted)
  show "sorted_wrt (\<lambda>a b. p \<le> fst a \<and> fst a < fst b) xs"
    using sorted above by (induction xs) auto
  show "\<And>x y. p \<le> fst x \<and> fst x < fst y \<Longrightarrow> (case y of (key, _) \<Rightarrow> prefix p key) \<Longrightarrow>
      (case x of (key, _) \<Rightarrow> prefix p key)"
    by (auto simp: case_prod_unfold intro: prefix_convex order.strict_implies_order)
qed

lemma sorted_filter_entries: "sorted_wrt (<) (map fst (filter P (oentries m)))"
  by (rule sorted_wrt_map_fst_filter) (rule om.sorted_entries)

lemma list_kv_filter: "list_kv st p = filter (\<lambda>(key, _). prefix p key) (oentries (kv st))"
proof -
  have "list_kv st p = filter (\<lambda>(key, _). prefix p key) (filter (\<lambda>(key, _). p \<le> key) (oentries (kv st)))"
    unfolding list_kv_def by (rule prefix_scan) (auto simp: sorted_filter_entries)
  also have "\<dots> = filter (\<lambda>(key, _). prefix p key) (oentries (kv st))"
    unfolding filter_filter by (rule filter_cong) (auto dest: prefix_le)
  finally show ?thesis .
qed

definition after_key :: "string option \<Rightarrow> string \<Rightarrow> bool" where
  "after_key start_after key = (case start_after of None \<Rightarrow> True | Some a \<Rightarrow> a < key)"

lemma list_kv_page_filter:
  "list_kv_page st p start_after limit =
    take limit (filter (\<lambda>(key, _). after_key start_after key) (list_kv st p))"
proof -
  let ?in = "case start_after of Some a \<Rightarrow> if p \<le> a then (\<lambda>key. a < key) else (\<lambda>key. p \<le> key)
         | None \<Rightarrow> (\<lambda>key. p \<le> key)"
  have above: "p \<le> k" if "?in k" for k
    using that by (auto split: option.splits if_splits)
  have same: "?in k \<and> prefix p k \<longleftrightarrow> prefix p k \<and> after_key start_after k" for k
    using prefix_le [of p k] by (auto simp: after_key_def split: option.splits if_splits)
  have "takeWhile (\<lambda>(key, _). prefix p key) (filter (\<lambda>(key, _). ?in key) (oentries (kv st))) =
      filter (\<lambda>(key, _). prefix p key) (filter (\<lambda>(key, _). ?in key) (oentries (kv st)))"
    by (rule prefix_scan) (auto simp: sorted_filter_entries dest: above)
  also have "\<dots> = filter (\<lambda>(key, _). after_key start_after key) (list_kv st p)"
    unfolding list_kv_filter filter_filter by (rule filter_cong) (use same in auto)
  finally show ?thesis
    by (simp add: list_kv_page_def)
qed

lemma sorted_list_kv: "sorted_wrt (<) (map fst (list_kv st p))"
  unfolding list_kv_filter by (rule sorted_filter_entries)

text \<open>In a sorted list, the entries after the last key of a prefix are the rest.\<close>

lemma filter_after_take:
  assumes "sorted_wrt (<) (map fst xs)" and "n < length xs"
  shows "filter (\<lambda>(key, _). fst (xs ! n) < key) xs = drop (Suc n) (xs :: ('k::linorder \<times> 'v) list)"
  using assms
proof (induction xs arbitrary: n)
  case (Cons x xs)
  show ?case
  proof (cases n)
    case 0
    have "filter (\<lambda>(key, _). fst x < key) xs = xs"
      using Cons.prems(1) by (intro filter_True) auto
    with 0 show ?thesis by (simp add: case_prod_unfold)
  next
    case (Suc m)
    then have "fst x < fst (xs ! m)"
      using Cons.prems by auto
    then have "\<not> fst (xs ! m) < fst x" by simp
    with Suc Cons show ?thesis by (simp add: case_prod_unfold)
  qed
qed simp

section \<open>The fetch query\<close>

fun merge_by_start :: "(u64 \<times> 'a) list \<Rightarrow> (u64 \<times> 'a) list \<Rightarrow> (u64 \<times> 'a) list" where
  "merge_by_start (x # xs) (y # ys) =
    (if fst y < fst x then y # merge_by_start (x # xs) ys else x # merge_by_start xs (y # ys))"
| "merge_by_start [] ys = ys"
| "merge_by_start xs [] = xs"

lemma merge_Nil [simp]: "merge_by_start xs [] = xs"
  by (cases xs) simp_all

lemma mset_merge: "mset (merge_by_start xs ys) = mset xs + mset ys"
  by (induction xs ys rule: merge_by_start.induct) auto

lemma set_merge: "set (merge_by_start xs ys) = set xs \<union> set ys"
  by (induction xs ys rule: merge_by_start.induct) auto

lemma sorted_merge:
  "sorted (map fst xs) \<Longrightarrow> sorted (map fst ys) \<Longrightarrow> sorted (map fst (merge_by_start xs ys))"
  by (induction xs ys rule: merge_by_start.induct) (auto simp: set_merge)

lemma stable_merge:
  assumes "sorted (map fst xs)"
  shows "filter (\<lambda>e. c = fst e) (merge_by_start xs ys) = filter (\<lambda>e. c = fst e) xs @ filter (\<lambda>e. c = fst e) ys"
  using assms
proof (induction xs ys rule: merge_by_start.induct)
  case (1 x xs y ys)
  have "filter (\<lambda>e. fst y = fst e) (x # xs) = []" if "fst y < fst x"
    using 1(3) that by (intro filter_False) auto
  with 1 show ?case by auto
qed auto

lemma merge_is_sort:
  assumes "sorted (map fst xs)" and "sorted (map fst ys)"
  shows "merge_by_start xs ys = sort_key fst (xs @ ys)"
  by (rule properties_for_sort_key [symmetric])
    (simp_all add: mset_merge stable_merge [OF assms(1)] sorted_merge [OF assms])

definition sso_entry :: "metadata_state \<Rightarrow> u64 \<times> u64 \<Rightarrow> u64 \<times> s3_object_metadata" where
  "sso_entry st e = (fst e, sso_object (the (oget (stream_set_objects st) (snd e))))"

definition so_entry :: "stream_offset_key \<times> stream_object_row \<Rightarrow> u64 \<times> s3_object_metadata" where
  "so_entry e = (fst (snd (fst e)), sor_object (snd e))"

lemma merge_objects_eq:
  "merge_objects st n sso objs = take n (map snd (merge_by_start (map (sso_entry st) sso) (map so_entry objs)))"
proof (induction st n sso objs rule: merge_objects.induct)
  case (2 st room sso_start object_id sso objs)
  then show ?case
    by (cases objs) (auto simp: sso_entry_def so_entry_def case_prod_unfold)
next
  case (3 st room k row objs)
  then show ?case by (simp add: so_entry_def)
qed auto

lemma orange_stream:
  "orange (s, 0, 0) (s, u64_max, u64_max) m = filter (\<lambda>(k, _). fst k = s) (oentries (m :: (stream_offset_key, 'v) omap))"
  unfolding orange_def
  by (rule filter_cong) (auto simp: less_eq_prod_def word_coorder.extremum)

lemma scan_prefix:
  "takeWhile (\<lambda>((_, range_start, _), _). range_start < b) (orange (s, 0, 0) (s, u64_max, u64_max) m) =
    filter (\<lambda>((_, range_start, _), _). range_start < b) (orange (s, 0, 0) (s, u64_max, u64_max) (m :: (stream_offset_key, 'v) omap))"
proof -
  have "sorted_wrt (\<lambda>e f. fst (snd (fst e)) \<le> fst (snd (fst f))) (orange (s, 0, 0) (s, u64_max, u64_max) m)"
    using sorted_orange [of "(s, 0, 0)" "(s, u64_max, u64_max)" m]
    unfolding sorted_wrt_map
    by (rule sorted_wrt_mono_rel [rotated]) (auto simp: orange_stream less_prod_def)
  then show ?thesis
    by (rule takeWhile_eq_filter_sorted) (auto simp: case_prod_unfold)
qed

text \<open>
  The reference: every indexed range of the stream that overlaps the window, stream-set slices
  first, each with its start offset.
\<close>

definition fetch_candidates :: "metadata_state \<Rightarrow> u64 \<Rightarrow> u64 \<Rightarrow> u64 \<Rightarrow> (u64 \<times> s3_object_metadata) list" where
  "fetch_candidates st s a b =
    map (\<lambda>((_, start, i), _). (start, sso_object (the (oget (stream_set_objects st) i))))
      (filter (\<lambda>((x, start, _), (fin, _)). x = s \<and> overlaps a b start fin) (oentries (sso_ranges st))) @
    map (\<lambda>((_, start, _), row). (start, sor_object row))
      (filter (\<lambda>((x, start, _), row). x = s \<and> overlaps a b start (rng_end_offset (first_range (sor_object row))))
        (oentries (stream_objects st)))"

lemma sso_scan_eq:
  "map (sso_entry st) (sso_scan st s a b) =
    map (\<lambda>((_, start, i), _). (start, sso_object (the (oget (stream_set_objects st) i))))
      (filter (\<lambda>((x, start, _), (fin, _)). x = s \<and> overlaps a b start fin) (oentries (sso_ranges st)))"
proof -
  have "filter (\<lambda>((_, start, _), (fin, _)). overlaps a b start fin)
      (takeWhile (\<lambda>((_, start, _), _). start < b) (orange (s, 0, 0) (s, u64_max, u64_max) (sso_ranges st))) =
    filter (\<lambda>((x, start, _), (fin, _)). x = s \<and> overlaps a b start fin) (oentries (sso_ranges st))"
    unfolding scan_prefix unfolding orange_stream filter_filter
    by (rule filter_cong) (auto simp: overlaps_def)
  then show ?thesis
    by (simp add: sso_scan_def sso_entry_def case_prod_unfold)
qed

lemma stream_scan_eq:
  assumes "meta_inv st"
  shows "stream_scan st s a b =
    filter (\<lambda>((x, start, _), row). x = s \<and> overlaps a b start (rng_end_offset (first_range (sor_object row))))
      (oentries (stream_objects st))"
proof -
  have "rng_start_offset (first_range (sor_object row)) = x" if "((s, x, i), row) \<in> set (oentries (stream_objects st))" for x i row
  proof -
    from that have "oget (stream_objects st) (s, x, i) = Some row" by (simp add: om.in_entries_iff)
    from so_row_facts(2) [OF assms this] show ?thesis by (simp add: so_key_def)
  qed
  then show ?thesis
    unfolding stream_scan_def scan_prefix unfolding orange_stream filter_filter
    by (intro filter_cong [OF refl]) (auto simp: overlaps_def)
qed

lemma sorted_stream_entries:
  "sorted (map (\<lambda>e. fst (snd (fst e))) (filter (\<lambda>e. fst (fst e) = s \<and> P e) (oentries (m :: (stream_offset_key, 'v) omap))))"
  using sorted_filter_entries [of "\<lambda>e. fst (fst e) = s \<and> P e" m]
  unfolding sorted_wrt_map
  by (rule sorted_wrt_mono_rel [rotated]) (auto simp: less_prod_def)

lemma get_objects_eq:
  assumes "meta_inv st"
  shows "get_objects st s a b limit = take limit (map snd (sort_key fst (fetch_candidates st s a b)))"
proof -
  let ?xs = "map (sso_entry st) (sso_scan st s a b)" and ?ys = "map so_entry (stream_scan st s a b)"
  have "?ys = map (\<lambda>((_, start, _), row). (start, sor_object row))
      (filter (\<lambda>((x, start, _), row). x = s \<and> overlaps a b start (rng_end_offset (first_range (sor_object row))))
        (oentries (stream_objects st)))"
    by (simp add: stream_scan_eq [OF assms] so_entry_def case_prod_unfold)
  then have c: "fetch_candidates st s a b = ?xs @ ?ys"
    unfolding fetch_candidates_def sso_scan_eq by (simp only:)
  have "sorted (map fst ?xs)"
    unfolding sso_scan_eq using sorted_stream_entries [of s _ "sso_ranges st"]
    by (simp add: case_prod_unfold comp_def)
  moreover have "sorted (map fst ?ys)"
    unfolding stream_scan_eq [OF assms] using sorted_stream_entries [of s _ "stream_objects st"]
    by (simp add: so_entry_def case_prod_unfold comp_def)
  ultimately show ?thesis
    unfolding get_objects_def merge_objects_eq c by (simp only: merge_is_sort)
qed

section \<open>Counting and listing by node\<close>

lemma in_node_range: "(k, v) \<in> set (orange (n, 0) (n, u64_max) m) \<longleftrightarrow> fst k = n \<and> oget m k = Some v"
  for m :: "(i32 \<times> u64, 'v) omap"
  by (cases k) (auto simp: in_orange_iff less_eq_prod_def word_coorder.extremum)

lemma node_range_ids:
  fixes m :: "(i32 \<times> u64, unit) omap"
  shows "sorted_wrt (<) (map (\<lambda>e. snd (fst e)) (orange (n, 0) (n, u64_max) m))"
    and "set (map (\<lambda>e. snd (fst e)) (orange (n, 0) (n, u64_max) m)) = {s. ohas m (n, s)}"
proof -
  have "sorted_wrt (\<lambda>e f. fst e < fst f) (orange (n, 0) (n, u64_max) m)"
    using sorted_orange [of "(n, 0)" "(n, u64_max)" m] by (simp add: sorted_wrt_map)
  then show "sorted_wrt (<) (map (\<lambda>e. snd (fst e)) (orange (n, 0) (n, u64_max) m))"
    unfolding sorted_wrt_map
    by (rule sorted_wrt_mono_rel [rotated]) (auto simp: in_node_range less_prod_def)
  show "set (map (\<lambda>e. snd (fst e)) (orange (n, 0) (n, u64_max) m)) = {s. ohas m (n, s)}"
  proof (rule set_eqI)
    fix s
    have "s \<in> set (map (\<lambda>e. snd (fst e)) (orange (n, 0) (n, u64_max) m)) \<longleftrightarrow>
        (\<exists>k v. (k, v) \<in> set (orange (n, 0) (n, u64_max) m) \<and> snd k = s)"
      by force
    also have "\<dots> \<longleftrightarrow> s \<in> {s. ohas m (n, s)}"
      by (auto simp: in_node_range ohas_def)
    finally show "s \<in> set (map (\<lambda>e. snd (fst e)) (orange (n, 0) (n, u64_max) m)) \<longleftrightarrow> s \<in> {s. ohas m (n, s)}" .
  qed
qed

text \<open>The ids that a node index lists are the ids of the rows that satisfy the index's condition.\<close>

lemma node_range_rows:
  fixes m :: "(i32 \<times> u64, unit) omap" and rows :: "(u64, stream_row) omap"
  assumes "\<And>s. ohas m (n, s) \<longleftrightarrow> (\<exists>r. oget rows s = Some r \<and> P r)"
  shows "map (\<lambda>e. snd (fst e)) (orange (n, 0) (n, u64_max) m) = map fst (filter (\<lambda>(_, r). P r) (oentries rows))"
proof (rule strict_sorted_equal)
  show "sorted_wrt (<) (map (\<lambda>e. snd (fst e)) (orange (n, 0) (n, u64_max) m))"
    by (rule node_range_ids)
  show "sorted_wrt (<) (map fst (filter (\<lambda>(_, r). P r) (oentries rows)))"
    by (rule sorted_filter_entries)
  have "set (map fst (filter (\<lambda>(_, r). P r) (oentries rows))) = {s. \<exists>r. oget rows s = Some r \<and> P r}"
    by (force simp: om.in_entries_iff)
  then show "set (map (\<lambda>e. snd (fst e)) (orange (n, 0) (n, u64_max) m)) =
      set (map fst (filter (\<lambda>(_, r). P r) (oentries rows)))"
    unfolding node_range_ids(2) using assms by simp
qed

lemma opening_rows:
  assumes "meta_inv st"
  shows "map (\<lambda>e. snd (fst e)) (orange (n, 0) (n, u64_max) (opening_by_node st)) =
    map fst (filter (\<lambda>(_, r). row_node_id r = n \<and> row_state r = Opened) (oentries (streams st)))"
  by (rule node_range_rows) (use assms in \<open>auto simp: meta_inv_def inv_streams_def idx_ok_def\<close>)

lemma placed_rows:
  assumes "meta_inv st"
  shows "map (\<lambda>e. snd (fst e)) (orange (n, 0) (n, u64_max) (placed_by_node st)) =
    map fst (filter (\<lambda>(_, r). row_node_id r = n \<and> row_state r = Closed \<and> n \<noteq> - 1) (oentries (streams st)))"
  by (rule node_range_rows) (use assms in \<open>auto simp: meta_inv_def inv_streams_def idx_ok_def\<close>)

lemma counts_load:
  assumes "meta_inv st"
  shows "opening_count st n + placed_count st n = load (streams st) n"
proof -
  let ?P = "\<lambda>(_ :: u64, r). row_node_id r = n \<and> row_state r = Opened"
  let ?Q = "\<lambda>(_ :: u64, r). row_node_id r = n \<and> row_state r = Closed \<and> n \<noteq> - 1"
  have "opening_count st n = length (filter ?P (oentries (streams st)))"
    using opening_rows [OF assms, of n, THEN arg_cong [where f = length]] by (simp add: opening_count_def)
  moreover have "placed_count st n = length (filter ?Q (oentries (streams st)))"
    using placed_rows [OF assms, of n, THEN arg_cong [where f = length]] by (simp add: placed_count_def)
  moreover have "length (filter ?P xs) + length (filter ?Q xs) = (\<Sum>(k, r) \<leftarrow> xs. if indexed n r then 1 else 0)" for xs
  proof (induction xs)
    case (Cons x xs)
    then show ?case
      by (cases "row_state (snd x)") (auto simp: indexed_def case_prod_unfold)
  qed simp
  ultimately show ?thesis by (simp add: load_def osum_def)
qed

lemma get_opening_streams_eq:
  assumes "meta_inv st"
  shows "get_opening_streams st n = map (\<lambda>(_, r). to_stream_metadata r)
    (filter (\<lambda>(_, r). row_node_id r = n \<and> row_state r = Opened) (oentries (streams st)))"
proof -
  let ?rows = "filter (\<lambda>(_, r). row_node_id r = n \<and> row_state r = Opened) (oentries (streams st))"
  have "get_opening_streams st n =
      List.map_filter (get_stream st) (map (\<lambda>e. snd (fst e)) (orange (n, 0) (n, u64_max) (opening_by_node st)))"
    by (simp add: get_opening_streams_def List.map_filter_def case_prod_unfold comp_def filter_map)
  also have "\<dots> = List.map_filter (get_stream st) (map fst ?rows)"
    by (simp only: opening_rows [OF assms])
  also have "\<dots> = map (\<lambda>(_, r). to_stream_metadata r) ?rows"
  proof -
    have "\<forall>(s, r) \<in> set ?rows. get_stream st s = Some (to_stream_metadata r)"
      by (auto simp: get_stream_def om.in_entries_iff)
    then show ?thesis
      by (induction ?rows) (auto simp: List.map_filter_def)
  qed
  finally show ?thesis .
qed

definition demo_kv_log :: "metadata_command list" where
  "demo_kv_log = [RegisterNode 1 1 ''http'' 4 oempty ''wal'', PutKv demo_proposer ''ab'' [1], PutKv demo_proposer ''ac'' [2]]"

section \<open>Properties\<close>

text \<open>
  C18. The fetch query returns what its two-index merge is meant to: all committed ranges of the
  stream that overlap the window, stably sorted by start offset with stream-set slices before
  stream objects at equal starts, cut at the limit.
\<close>

theorem get_objects_is_sorted_overlap:
  assumes "meta_inv st"
  shows "get_objects st s a b limit = take limit (map snd (sort_key fst (fetch_candidates st s a b)))"
  by (rule get_objects_eq) (rule assms)

theorem get_objects_is_sorted_overlap_witness:
  "get_objects (meta_run 7 demo_commit_log) 0 2 9 10 =
    take 10 (map snd (sort_key fst (fetch_candidates (meta_run 7 demo_commit_log) 0 2 9)))"
  by (rule get_objects_is_sorted_overlap) (rule demo_commit_inv)

lemma scanD:
  "(k, v) \<in> set (orange a b m) \<Longrightarrow> oget m k = Some v"
  "(k, v) \<in> set (takeWhile P (orange a b m)) \<Longrightarrow> oget m k = Some v"
  by (simp_all only: in_orange_iff) (metis in_orange_iff set_takeWhileD)



text \<open>
  A prefix listing is the store filtered by the prefix, and a page is the part of it after the
  cursor, cut at the limit: early stopping loses nothing.
\<close>

theorem list_kv_is_filter:
  "list_kv st p = filter (\<lambda>(key, _). prefix p key) (oentries (kv st)) \<and>
   list_kv_page st p start_after limit =
     take limit (filter (\<lambda>(key, _). after_key start_after key) (list_kv st p))"
  using list_kv_filter list_kv_page_filter by blast



text \<open>
  C21. The per-node stream counter that placement reads is the number of streams open on the node plus
  the number placed there, and the two node listings are the rows in those states.
\<close>

theorem node_counts_agree:
  assumes "meta_inv st"
  shows "oget (streams_by_node st) n =
      (if opening_count st n + placed_count st n = 0 then None
       else Some (of_nat (opening_count st n + placed_count st n))) \<and>
    get_opening_streams st n = map (\<lambda>(_, r). to_stream_metadata r)
      (filter (\<lambda>(_, r). row_node_id r = n \<and> row_state r = Opened) (oentries (streams st))) \<and>
    placed_on st n = map fst
      (filter (\<lambda>(_, r). row_node_id r = n \<and> row_state r = Closed \<and> n \<noteq> - 1) (oentries (streams st)))"
proof -
  have "oget (streams_by_node st) n = (if load (streams st) n = 0 then None else Some (of_nat (load (streams st) n)))"
    using assms by (simp add: meta_inv_def inv_streams_def idx_ok_def)
  moreover have "placed_on st n = map (\<lambda>e. snd (fst e)) (orange (n, 0) (n, u64_max) (placed_by_node st))"
    by (simp add: placed_on_def case_prod_unfold)
  ultimately show ?thesis
    unfolding counts_load [OF assms] get_opening_streams_eq [OF assms]
    by (simp add: placed_rows [OF assms])
qed

theorem node_counts_agree_witness:
  "oget (streams_by_node (meta_run 7 demo_commit_log)) 1 =
    (if opening_count (meta_run 7 demo_commit_log) 1 + placed_count (meta_run 7 demo_commit_log) 1 = 0 then None
     else Some (of_nat (opening_count (meta_run 7 demo_commit_log) 1 + placed_count (meta_run 7 demo_commit_log) 1)))"
  using node_counts_agree [OF demo_commit_inv] by blast

end
