(* ===== verification/Sql_Store.thy ===== *)
theory Sql_Store
  imports OMap
begin

text \<open>
  The durable store under the metadata log, \<^verbatim>\<open>pico-sql/src/store.rs\<close>: a log table keyed by
  index, one snapshot row and one lease row. Every method runs one SQL statement, so it is one atomic
  function of the tables; the statements are those of the SQLite backend, and the Postgres backend has
  the same ones. Columns are signed 64-bit integers, and \<^verbatim>\<open>to_i64\<close> refuses every index
  above them, so indexes are natural numbers here and the sums of the code do not wrap.

  The second part is the lease keeper of \<^verbatim>\<open>lease.rs\<close>: one iteration of its loop as a
  function of the answer it got.
\<close>

section \<open>Tables\<close>

datatype store_error = StoreCorrupt | StoreFailed

record lease_row =
  ls_holder :: string
  ls_epoch :: nat
  ls_expires_at_ms :: int

record meta_store =
  meta_log :: "(nat, bytes) omap"
  meta_snapshot :: "(nat \<times> bytes) option"
  meta_lease :: lease_row

text \<open>\<^verbatim>\<open>migrate\<close>: empty tables and the seeded lease row.\<close>

definition migrate :: meta_store where
  "migrate = \<lparr>meta_log = oempty, meta_snapshot = None,
    meta_lease = \<lparr>ls_holder = [], ls_epoch = 0, ls_expires_at_ms = 0\<rparr>\<rparr>"

definition to_i64 :: "nat \<Rightarrow> store_error + nat" where
  "to_i64 n = (if n < 2 ^ 63 then Ok n else Err StoreCorrupt)"

text \<open>\<^verbatim>\<open>COALESCE((SELECT applied_idx FROM meta_snapshot WHERE id = 0), 0)\<close>\<close>

definition snap_idx :: "meta_store \<Rightarrow> nat" where
  "snap_idx s = (case meta_snapshot s of None \<Rightarrow> 0 | Some (i, _) \<Rightarrow> i)"

section \<open>Log and snapshot\<close>

text \<open>
  \<^verbatim>\<open>append\<close>: one conditional insert. No row is inserted at or below the snapshot, and a taken
  index is a unique-key violation; both report that the slot was lost.
\<close>

definition store_append :: "meta_store \<Rightarrow> nat \<Rightarrow> bytes \<Rightarrow> store_error + meta_store \<times> bool" where
  "store_append s idx payload =
    rbind (to_i64 idx) (\<lambda>idx.
      if idx > snap_idx s then
        if ohas (meta_log s) idx then Ok (s, False)
        else Ok (s\<lparr>meta_log := oput idx payload (meta_log s)\<rparr>, True)
      else Ok (s, False))"

definition last_idx :: "meta_store \<Rightarrow> nat" where
  "last_idx s = max (if okeys (meta_log s) = [] then 0 else last (okeys (meta_log s))) (snap_idx s)"

definition fetch_after :: "meta_store \<Rightarrow> nat \<Rightarrow> nat \<Rightarrow> store_error + (nat \<times> bytes) list" where
  "fetch_after s after limit =
    rbind (to_i64 after) (\<lambda>after. Ok (take limit (filter (\<lambda>(idx, _). idx > after) (oentries (meta_log s)))))"

definition load_snapshot :: "meta_store \<Rightarrow> (nat \<times> bytes) option" where
  "load_snapshot s = meta_snapshot s"

definition snapshot_idx :: "meta_store \<Rightarrow> nat option" where
  "snapshot_idx s = map_option fst (meta_snapshot s)"

definition store_snapshot :: "meta_store \<Rightarrow> nat \<Rightarrow> bytes \<Rightarrow> store_error + meta_store" where
  "store_snapshot s applied_idx payload =
    rbind (to_i64 applied_idx) (\<lambda>applied_idx. Ok
      (case meta_snapshot s of
         None \<Rightarrow> s\<lparr>meta_snapshot := Some (applied_idx, payload)\<rparr>
       | Some (i, _) \<Rightarrow> if applied_idx > i then s\<lparr>meta_snapshot := Some (applied_idx, payload)\<rparr> else s))"

definition truncate_log :: "meta_store \<Rightarrow> nat \<Rightarrow> store_error + meta_store" where
  "truncate_log s up_to =
    rbind (to_i64 up_to) (\<lambda>up_to.
      Ok (s\<lparr>meta_log := fold odel (filter (\<lambda>idx. idx \<le> up_to) (okeys (meta_log s))) (meta_log s)\<rparr>))"

section \<open>Lease\<close>

definition acquire_lease :: "meta_store \<Rightarrow> string \<Rightarrow> nat option \<Rightarrow> int \<Rightarrow> int
    \<Rightarrow> store_error + meta_store \<times> nat option" where
  "acquire_lease s holder prev_epoch now_ms ttl_ms =
    (let row = meta_lease s in
     case prev_epoch of
       Some epoch \<Rightarrow>
         rbind (to_i64 epoch) (\<lambda>epoch_i.
           if ls_holder row = holder \<and> ls_epoch row = epoch_i \<and> ls_expires_at_ms row \<ge> now_ms
           then Ok (s\<lparr>meta_lease := row\<lparr>ls_expires_at_ms := now_ms + ttl_ms\<rparr>\<rparr>, Some epoch)
           else Ok (s, None))
     | None \<Rightarrow>
         if ls_expires_at_ms row < now_ms \<or> ls_holder row = holder
         then Ok (s\<lparr>meta_lease := \<lparr>ls_holder = holder, ls_epoch = ls_epoch row + 1,
                     ls_expires_at_ms = now_ms + ttl_ms\<rparr>\<rparr>, Some (ls_epoch row + 1))
         else Ok (s, None))"

definition release_lease :: "meta_store \<Rightarrow> string \<Rightarrow> nat \<Rightarrow> store_error + meta_store" where
  "release_lease s holder epoch =
    rbind (to_i64 epoch) (\<lambda>epoch. Ok
      (if ls_holder (meta_lease s) = holder \<and> ls_epoch (meta_lease s) = epoch
       then s\<lparr>meta_lease := (meta_lease s)\<lparr>ls_expires_at_ms := 0\<rparr>\<rparr> else s))"

text \<open>
  The loop of \<^verbatim>\<open>keeper_task\<close>: the epoch and the time of the last success, and the published
  leadership. \<open>keeper_request\<close> is the call an iteration makes, \<open>keeper_step\<close> what it does with the
  answer, \<open>keeper_release\<close> the call after the loop.
\<close>

record keeper =
  kp_held :: "(nat \<times> int) option"
  kp_leader :: bool

definition keeper_request :: "keeper \<Rightarrow> nat option" where
  "keeper_request k = map_option fst (kp_held k)"

definition keeper_step :: "int \<Rightarrow> keeper \<Rightarrow> int \<Rightarrow> store_error + nat option \<Rightarrow> keeper" where
  "keeper_step ttl_ms k now attempt =
    (case attempt of
       Inr (Some epoch) \<Rightarrow> \<lparr>kp_held = Some (epoch, now), kp_leader = True\<rparr>
     | Inr None \<Rightarrow> \<lparr>kp_held = None, kp_leader = False\<rparr>
     | Inl _ \<Rightarrow>
         (case kp_held k of
            Some (_, last_ok) \<Rightarrow>
              if now - last_ok \<ge> ttl_ms then \<lparr>kp_held = None, kp_leader = False\<rparr> else k
          | None \<Rightarrow> k))"

definition keeper_release :: "keeper \<Rightarrow> meta_store \<Rightarrow> string \<Rightarrow> store_error + meta_store" where
  "keeper_release k s holder =
    (case kp_held k of Some (epoch, _) \<Rightarrow> release_lease s holder epoch | None \<Rightarrow> Ok s)"

section \<open>The log holds an interval of indexes\<close>

text \<open>
  \<open>log_shape s rows t n\<close>: the log table holds exactly the rows with index above \<open>t\<close> up to \<open>n\<close>,
  row \<open>i\<close> with payload \<open>rows i\<close>.
\<close>

definition log_shape :: "meta_store \<Rightarrow> (nat \<Rightarrow> bytes) \<Rightarrow> nat \<Rightarrow> nat \<Rightarrow> bool" where
  "log_shape s rows t n \<longleftrightarrow> t \<le> n \<and>
    (\<forall>i. oget (meta_log s) i = (if t < i \<and> i \<le> n then Some (rows i) else None))"

lemma entries_interval:
  fixes m :: "(nat, 'v) omap"
  assumes "\<And>i. oget m i = (if t < i \<and> i \<le> n then Some (f i) else None)"
  shows "oentries m = map (\<lambda>i. (i, f i)) [Suc t..<Suc n]"
proof -
  have keys: "okeys m = [Suc t..<Suc n]"
  proof (rule strict_sorted_equal)
    show "sorted_wrt (<) [Suc t..<Suc n]"
      by (rule sorted_wrt_upt)
    show "sorted_wrt (<) (okeys m)"
      by (rule om.sorted_entries)
    have "i \<in> set (okeys m) \<longleftrightarrow> t < i \<and> i \<le> n" for i
      unfolding okeys_iff ohas_def assms by simp
    then show "set (okeys m) = set [Suc t..<Suc n]"
      by (intro set_eqI) (simp only: set_upt atLeastLessThan_iff Suc_le_eq less_Suc_eq_le)
  qed
  have val: "snd x = f (fst x)" if "x \<in> set (oentries m)" for x
  proof -
    from that have "oget m (fst x) = Some (snd x)"
      using om.in_entries_iff [of "fst x" "snd x" m] by simp
    then show ?thesis
      unfolding assms by (simp split: if_splits)
  qed
  have "oentries m = map (\<lambda>(i, v). (i, f i)) (oentries m)"
    by (rule map_idI [symmetric]) (simp add: case_prod_unfold val [symmetric])
  also have "\<dots> = map (\<lambda>i. (i, f i)) (okeys m)"
    by (simp add: comp_def case_prod_unfold)
  finally show ?thesis
    unfolding keys .
qed

lemma log_shape_entries:
  "log_shape s rows t n \<Longrightarrow> oentries (meta_log s) = map (\<lambda>i. (i, rows i)) [Suc t..<Suc n]"
  unfolding log_shape_def by (rule entries_interval) blast

lemma log_shape_last:
  assumes "log_shape s rows t n" and "snap_idx s \<le> n" and "t \<le> snap_idx s"
  shows "last_idx s = n"
proof -
  have "okeys (meta_log s) = [Suc t..<Suc n]"
    unfolding log_shape_entries [OF assms(1)] by (simp add: comp_def)
  then show ?thesis
    using assms by (cases "t < n") (auto simp: last_idx_def log_shape_def max_def simp del: set_map)
qed

lemma filter_upt_above: "filter (\<lambda>i. a < i) [Suc t..<Suc n] = [Suc (max a t)..<Suc n]"
proof (rule strict_sorted_equal)
  show "sorted_wrt (<) (filter (\<lambda>i. a < i) [Suc t..<Suc n])"
    by (intro sorted_wrt_filter sorted_wrt_upt)
  show "sorted_wrt (<) [Suc (max a t)..<Suc n]"
    by (rule sorted_wrt_upt)
  show "set (filter (\<lambda>i. a < i) [Suc t..<Suc n]) = set [Suc (max a t)..<Suc n]"
    unfolding set_filter set_upt by (auto simp: max_def)
qed

lemma take_upt_min: "take k [i..<j] = [i..<min j (i + k)]"
  by (cases "i + k \<le> j") (simp_all add: take_upt min_def)

lemma log_shape_fetch:
  assumes "log_shape s rows t n" and "after < 2 ^ 63"
  shows "fetch_after s after limit =
    Ok (map (\<lambda>i. (i, rows i)) [Suc (max after t)..<min (Suc n) (Suc (max after t) + limit)])"
proof -
  have "filter (\<lambda>(idx, _). idx > after) (oentries (meta_log s)) =
      map (\<lambda>i. (i, rows i)) (filter (\<lambda>i. after < i) [Suc t..<Suc n])"
    unfolding log_shape_entries [OF assms(1)] filter_map by (simp add: comp_def)
  then show ?thesis
    using assms(2) unfolding filter_upt_above
    by (simp add: fetch_after_def to_i64_def take_map take_upt_min del: upt_Suc)
qed

lemma log_shape_append:
  assumes shape: "log_shape s rows t n" and snap: "t \<le> snap_idx s" "snap_idx s \<le> n"
    and run: "store_append s idx payload = Inr (s', won)" and idx: "idx \<le> Suc n"
  shows "if won then idx = Suc n \<and> idx < 2 ^ 63 \<and> s' = s\<lparr>meta_log := oput (Suc n) payload (meta_log s)\<rparr>
    else s' = s \<and> idx \<le> n"
proof -
  have has: "ohas (meta_log s) i \<longleftrightarrow> t < i \<and> i \<le> n" for i
    using shape by (simp add: log_shape_def ohas_def)
  show ?thesis
    using run idx snap by (auto simp: store_append_def to_i64_def has le_Suc_eq split: if_splits)
qed

lemma log_shape_grow:
  assumes "log_shape s rows t n" and "rows' (Suc n) = payload" and "\<And>i. i \<le> n \<Longrightarrow> rows' i = rows i"
  shows "log_shape (s\<lparr>meta_log := oput (Suc n) payload (meta_log s)\<rparr>) rows' t (Suc n)"
  using assms by (auto simp: log_shape_def)

lemma log_shape_truncate:
  assumes "log_shape s rows t n" and "up_to \<le> n" and "truncate_log s up_to = Inr s'"
  shows "log_shape s' rows (max t up_to) n"
proof -
  let ?keys = "filter (\<lambda>idx. idx \<le> up_to) (okeys (meta_log s))"
  have "s' = s\<lparr>meta_log := fold odel ?keys (meta_log s)\<rparr>"
    using assms(3) by (auto simp: truncate_log_def to_i64_def split: if_splits)
  moreover have "i \<in> set ?keys \<longleftrightarrow> t < i \<and> i \<le> n \<and> i \<le> up_to" for i
    unfolding set_filter mem_Collect_eq okeys_iff using assms(1) by (auto simp: log_shape_def ohas_def)
  ultimately show ?thesis
    using assms(1,2) by (auto simp: log_shape_def oget_fold_odel simp del: set_filter)
qed

lemma truncate_log_frame:
  "truncate_log s up_to = Inr s' \<Longrightarrow> meta_snapshot s' = meta_snapshot s"
  by (auto simp: truncate_log_def to_i64_def split: if_splits)

lemma store_snapshot_cases:
  assumes "store_snapshot s i payload = Inr s'"
  shows "meta_log s' = meta_log s" and "i \<le> snap_idx s'" and "snap_idx s \<le> snap_idx s'"
    and "meta_snapshot s' = meta_snapshot s \<or> meta_snapshot s' = Some (i, payload)"
  using assms by (auto simp: store_snapshot_def to_i64_def snap_idx_def split: if_splits option.splits)

section \<open>Keepers contending for the lease\<close>

text \<open>
  Any number of keepers, one per holder name, share the lease row. A keeper reads its clock and sends
  its request; the request runs at some later time, or is lost, or runs and its answer is lost. A
  keeper may stop and release, or crash. \<open>lz_now\<close> is real time: no clock is ahead of it, and a
  keeper's own clock does not go back.
\<close>

record lease_sys =
  lz_store :: meta_store
  lz_keepers :: "string \<Rightarrow> keeper"
  lz_now :: int

definition keeper_init :: keeper where
  "keeper_init = \<lparr>kp_held = None, kp_leader = False\<rparr>"

definition lease_start :: "int \<Rightarrow> lease_sys" where
  "lease_start now = \<lparr>lz_store = migrate, lz_keepers = (\<lambda>_. keeper_init), lz_now = now\<rparr>"

definition own_clock :: "keeper \<Rightarrow> int \<Rightarrow> bool" where
  "own_clock k n \<longleftrightarrow> (case kp_held k of None \<Rightarrow> True | Some (_, last_ok) \<Rightarrow> last_ok \<le> n)"

inductive lease_step :: "int \<Rightarrow> lease_sys \<Rightarrow> lease_sys \<Rightarrow> bool" for ttl where
  tick: "lz_now z \<le> n \<Longrightarrow> lease_step ttl z (z\<lparr>lz_now := n\<rparr>)"
| answered: "\<lbrakk>n \<le> lz_now z; own_clock (lz_keepers z h) n;
    acquire_lease (lz_store z) h (keeper_request (lz_keepers z h)) n ttl = Inr (s, ans)\<rbrakk> \<Longrightarrow>
    lease_step ttl z (z\<lparr>lz_store := s,
      lz_keepers := (lz_keepers z)(h := keeper_step ttl (lz_keepers z h) n (Inr ans))\<rparr>)"
| lost_answer: "\<lbrakk>n \<le> lz_now z; own_clock (lz_keepers z h) n;
    acquire_lease (lz_store z) h (keeper_request (lz_keepers z h)) n ttl = Inr (s, ans)\<rbrakk> \<Longrightarrow>
    lease_step ttl z (z\<lparr>lz_store := s,
      lz_keepers := (lz_keepers z)(h := keeper_step ttl (lz_keepers z h) n (Inl e))\<rparr>)"
| failed: "\<lbrakk>n \<le> lz_now z; own_clock (lz_keepers z h) n\<rbrakk> \<Longrightarrow>
    lease_step ttl z (z\<lparr>lz_keepers := (lz_keepers z)(h := keeper_step ttl (lz_keepers z h) n (Inl e))\<rparr>)"
| stopped: "keeper_release (lz_keepers z h) (lz_store z) h = Inr s \<Longrightarrow>
    lease_step ttl z (z\<lparr>lz_store := s, lz_keepers := (lz_keepers z)(h := keeper_init)\<rparr>)"
| crashed: "lease_step ttl z (z\<lparr>lz_keepers := (lz_keepers z)(h := keeper_init)\<rparr>)"

inductive lease_reach :: "int \<Rightarrow> lease_sys \<Rightarrow> bool" for ttl where
  lease_init: "lease_reach ttl (lease_start now)"
| lease_next: "lease_reach ttl z \<Longrightarrow> lease_step ttl z z' \<Longrightarrow> lease_reach ttl z'"

text \<open>
  What a held lease means: the row still carries its epoch, this holder and an expiry no earlier than
  the keeper believes, or it was taken over after it had run out.
\<close>

definition held_ok :: "int \<Rightarrow> lease_row \<Rightarrow> int \<Rightarrow> string \<Rightarrow> nat \<Rightarrow> int \<Rightarrow> bool" where
  "held_ok ttl row now h epoch last_ok \<longleftrightarrow> last_ok \<le> now \<and> epoch \<le> ls_epoch row \<and>
    (if epoch = ls_epoch row then ls_holder row = h \<and> last_ok + ttl \<le> ls_expires_at_ms row
     else last_ok + ttl < now)"

definition lease_inv :: "int \<Rightarrow> lease_sys \<Rightarrow> bool" where
  "lease_inv ttl z \<longleftrightarrow>
    (\<forall>h. kp_leader (lz_keepers z h) \<longleftrightarrow> kp_held (lz_keepers z h) \<noteq> None) \<and>
    (\<forall>h e l. kp_held (lz_keepers z h) = Some (e, l) \<longrightarrow> held_ok ttl (meta_lease (lz_store z)) (lz_now z) h e l) \<and>
    (\<forall>h h' e l l'. kp_held (lz_keepers z h) = Some (e, l) \<longrightarrow> kp_held (lz_keepers z h') = Some (e, l') \<longrightarrow> h = h')"

lemma lease_invD:
  assumes "lease_inv ttl z"
  shows "kp_leader (lz_keepers z h) \<longleftrightarrow> kp_held (lz_keepers z h) \<noteq> None"
    and "kp_held (lz_keepers z h) = Some (e, l) \<Longrightarrow> held_ok ttl (meta_lease (lz_store z)) (lz_now z) h e l"
    and "kp_held (lz_keepers z h) = Some (e, l) \<Longrightarrow> kp_held (lz_keepers z h') = Some (e, l') \<Longrightarrow> h = h'"
  using assms unfolding lease_inv_def by blast+

lemma lease_invI:
  assumes "\<And>h. kp_leader (lz_keepers z h) \<longleftrightarrow> kp_held (lz_keepers z h) \<noteq> None"
    and "\<And>h e l. kp_held (lz_keepers z h) = Some (e, l) \<Longrightarrow> held_ok ttl (meta_lease (lz_store z)) (lz_now z) h e l"
    and "\<And>h h' e l l'. kp_held (lz_keepers z h) = Some (e, l) \<Longrightarrow> kp_held (lz_keepers z h') = Some (e, l') \<Longrightarrow> h = h'"
  shows "lease_inv ttl z"
  using assms unfolding lease_inv_def by blast

lemma lease_inv_start: "lease_inv ttl (lease_start now)"
  by (simp add: lease_inv_def lease_start_def keeper_init_def)

lemma held_ok_later: "held_ok ttl row now h e l \<Longrightarrow> now \<le> now' \<Longrightarrow> held_ok ttl row now' h e l"
  by (auto simp: held_ok_def)

text \<open>What one request does to the row, seen by the keepers that do not ask.\<close>

lemma acquire_keeps_others:
  assumes "acquire_lease s h prev n ttl = Inr (s', ans)" and "n \<le> now" and "h' \<noteq> h"
    and "held_ok ttl (meta_lease s) now h' e l"
  shows "held_ok ttl (meta_lease s') now h' e l"
  using assms by (auto simp: acquire_lease_def held_ok_def to_i64_def Let_def split: option.splits if_splits)

lemma acquire_keeps_own:
  assumes "acquire_lease s h (Some e) n ttl = Inr (s', ans)" and "l \<le> n" "n \<le> now"
    and "held_ok ttl (meta_lease s) now h e l"
  shows "held_ok ttl (meta_lease s') now h e l"
proof -
  have "meta_lease s' = meta_lease s \<or> meta_lease s' = (meta_lease s)\<lparr>ls_expires_at_ms := n + ttl\<rparr>"
    using assms(1) by (auto simp: acquire_lease_def to_i64_def Let_def split: if_splits)
  then show ?thesis
    using assms(2-4) by (elim disjE) (simp_all add: held_ok_def split: if_splits)
qed

lemma acquire_grants:
  assumes "acquire_lease s h prev n ttl = Inr (s', Some e)" and "n \<le> now"
  shows "held_ok ttl (meta_lease s') now h e n"
    and "prev = Some e \<or> prev = None \<and> ls_epoch (meta_lease s) < e"
proof -
  have row: "ls_holder (meta_lease s') = h \<and> ls_epoch (meta_lease s') = e \<and>
      ls_expires_at_ms (meta_lease s') = n + ttl \<and> (prev = Some e \<or> prev = None \<and> e = ls_epoch (meta_lease s) + 1)"
  proof (cases prev)
    case None
    with assms(1) show ?thesis
      by (clarsimp simp: acquire_lease_def Let_def split: if_splits)
  next
    case (Some p)
    with assms(1) show ?thesis
      by (clarsimp simp: acquire_lease_def Let_def to_i64_def split: if_splits)
  qed
  then show "held_ok ttl (meta_lease s') now h e n"
    using assms(2) by (simp add: held_ok_def)
  from row show "prev = Some e \<or> prev = None \<and> ls_epoch (meta_lease s) < e"
    by auto
qed

lemma release_keeps_others:
  assumes "keeper_release k s h = Inr s'" and "h' \<noteq> h" and "held_ok ttl (meta_lease s) now h' e l"
  shows "held_ok ttl (meta_lease s') now h' e l"
  using assms by (auto simp: keeper_release_def release_lease_def held_ok_def to_i64_def split: option.splits if_splits)

lemma lease_inv_put:
  assumes inv: "lease_inv ttl z" and z': "lz_now z' = lz_now z" "lz_keepers z' = (lz_keepers z)(h := k)"
    and leader: "kp_leader k \<longleftrightarrow> kp_held k \<noteq> None"
    and others: "\<And>h' e l. h' \<noteq> h \<Longrightarrow> held_ok ttl (meta_lease (lz_store z)) (lz_now z) h' e l \<Longrightarrow>
      held_ok ttl (meta_lease (lz_store z')) (lz_now z) h' e l"
    and own: "\<And>e l. kp_held k = Some (e, l) \<Longrightarrow> held_ok ttl (meta_lease (lz_store z')) (lz_now z) h e l"
    and new: "\<And>e l h' l'. kp_held k = Some (e, l) \<Longrightarrow> h' \<noteq> h \<Longrightarrow> kp_held (lz_keepers z h') \<noteq> Some (e, l')"
  shows "lease_inv ttl z'"
proof (rule lease_invI)
  fix h1 h2 e l1 l2
  assume a1: "kp_held (lz_keepers z' h1) = Some (e, l1)" and a2: "kp_held (lz_keepers z' h2) = Some (e, l2)"
  show "h1 = h2"
  proof (cases "h1 = h \<or> h2 = h")
    case True
    with a1 a2 new show ?thesis
      unfolding z'(2) by (cases "h1 = h"; cases "h2 = h") auto
  next
    case False
    with a1 a2 show ?thesis
      unfolding z'(2) by (intro lease_invD(3) [OF inv]) auto
  qed
next
  fix h' e l
  assume "kp_held (lz_keepers z' h') = Some (e, l)"
  then show "held_ok ttl (meta_lease (lz_store z')) (lz_now z') h' e l"
    unfolding z' using others own lease_invD(2) [OF inv] by (cases "h' = h") auto
next
  show "kp_leader (lz_keepers z' h') \<longleftrightarrow> kp_held (lz_keepers z' h') \<noteq> None" for h'
    unfolding z'(2) using leader lease_invD(1) [OF inv] by (cases "h' = h") auto
qed

text \<open>A keeper whose call failed holds what it held or nothing.\<close>

lemma keeper_error:
  assumes inv: "lease_inv ttl z"
  defines "k \<equiv> \<lambda>h n e. keeper_step ttl (lz_keepers z h) n (Inl e)"
  shows "kp_leader (k h n e) \<longleftrightarrow> kp_held (k h n e) \<noteq> None"
    and "kp_held (k h n e) = Some x \<Longrightarrow> kp_held (lz_keepers z h) = Some x"
    and "kp_held (k h n e) = Some (p, l) \<Longrightarrow> h' \<noteq> h \<Longrightarrow> kp_held (lz_keepers z h') \<noteq> Some (p, l')"
proof -
  show held: "kp_held (k h n e) = Some x \<Longrightarrow> kp_held (lz_keepers z h) = Some x" for h n e x
    by (auto simp: k_def keeper_step_def split: option.splits if_splits)
  show "kp_leader (k h n e) \<longleftrightarrow> kp_held (k h n e) \<noteq> None"
    using lease_invD(1) [OF inv, of h] by (auto simp: k_def keeper_step_def split: option.splits)
  show "kp_held (k h n e) = Some (p, l) \<Longrightarrow> h' \<noteq> h \<Longrightarrow> kp_held (lz_keepers z h') \<noteq> Some (p, l')"
    using held [of h n e "(p, l)"] lease_invD(3) [OF inv, of h p l h' l'] by blast
qed

lemma lease_inv_step:
  assumes step: "lease_step ttl z z'" and inv: "lease_inv ttl z"
  shows "lease_inv ttl z'"
  using step
proof cases
  case (tick n)
  show ?thesis
    by (rule lease_invI) (use tick in \<open>auto simp: lease_invD(1) [OF inv]
      intro: held_ok_later [OF lease_invD(2) [OF inv]] lease_invD(3) [OF inv]\<close>)
next
  case (answered n h s ans)
  let ?k = "lz_keepers z h"
  note acq = answered(4)
  have granted: "ans = Some e" "l = n" if "kp_held (keeper_step ttl ?k n (Inr ans)) = Some (e, l)" for e l
    using that by (auto simp: keeper_step_def split: option.splits)
  show ?thesis
  proof (rule lease_inv_put [OF inv, where h = h])
    show "held_ok ttl (meta_lease (lz_store z')) (lz_now z) h' e l"
      if "h' \<noteq> h" "held_ok ttl (meta_lease (lz_store z)) (lz_now z) h' e l" for h' e l
      using acquire_keeps_others [OF acq answered(2) that] answered(1) by simp
    show "held_ok ttl (meta_lease (lz_store z')) (lz_now z) h e l"
      if "kp_held (keeper_step ttl ?k n (Inr ans)) = Some (e, l)" for e l
      using acquire_grants(1) [OF acq [unfolded granted(1) [OF that]] answered(2)] granted(2) [OF that] answered(1)
      by simp
    show "kp_held (lz_keepers z h') \<noteq> Some (e, l')"
      if k: "kp_held (keeper_step ttl ?k n (Inr ans)) = Some (e, l)" and h': "h' \<noteq> h" for e l h' l'
    proof
      assume other: "kp_held (lz_keepers z h') = Some (e, l')"
      from acquire_grants(2) [OF acq [unfolded granted(1) [OF k]] answered(2)] show False
      proof
        assume "keeper_request ?k = Some e"
        then obtain l1 where "kp_held ?k = Some (e, l1)"
          by (auto simp: keeper_request_def)
        from lease_invD(3) [OF inv this other] h' show False by simp
      next
        assume "keeper_request ?k = None \<and> ls_epoch (meta_lease (lz_store z)) < e"
        with lease_invD(2) [OF inv other] show False
          by (simp add: held_ok_def)
      qed
    qed
  qed (use answered(1) in \<open>auto simp: keeper_step_def split: option.splits\<close>)
next
  case (lost_answer n h s ans e)
  let ?k = "lz_keepers z h"
  have own: "held_ok ttl (meta_lease s) (lz_now z) h e l" if "kp_held ?k = Some (e, l)" for e l
    using acquire_keeps_own [of "lz_store z" h e n ttl s ans l "lz_now z"] lease_invD(2) [OF inv that] that lost_answer
    by (simp add: keeper_request_def own_clock_def)
  show ?thesis
  proof (rule lease_inv_put [OF inv, where h = h])
    show "held_ok ttl (meta_lease (lz_store z')) (lz_now z) h' e l"
      if "h' \<noteq> h" "held_ok ttl (meta_lease (lz_store z)) (lz_now z) h' e l" for h' e l
      using acquire_keeps_others [OF lost_answer(4,2) that] lost_answer(1) by simp
  qed (use lost_answer(1) own keeper_error [OF inv] in auto)
next
  case (failed n h e)
  show ?thesis
    by (rule lease_inv_put [OF inv, where h = h])
      (use failed(1) lease_invD(2) [OF inv] keeper_error [OF inv] in auto)
next
  case (stopped h s)
  show ?thesis
    by (rule lease_inv_put [OF inv, where h = h])
      (use stopped(1) release_keeps_others [OF stopped(2)] in \<open>auto simp: keeper_init_def\<close>)
next
  case (crashed h)
  show ?thesis
    by (rule lease_inv_put [OF inv, where h = h]) (use crashed in \<open>auto simp: keeper_init_def\<close>)
qed

lemma lease_inv_reach: "lease_reach ttl z \<Longrightarrow> lease_inv ttl z"
  by (induction rule: lease_reach.induct) (auto intro: lease_inv_start lease_inv_step)

section \<open>Example\<close>

text \<open>One keeper takes the lease at time 100 and hangs; another takes it over at 120.\<close>

definition demo_lease :: lease_sys where
  "demo_lease = \<lparr>lz_store = migrate\<lparr>meta_lease := \<lparr>ls_holder = ''b'', ls_epoch = 2, ls_expires_at_ms = 130\<rparr>\<rparr>,
    lz_keepers = (\<lambda>_. keeper_init)(''a'' := \<lparr>kp_held = Some (1, 100), kp_leader = True\<rparr>,
      ''b'' := \<lparr>kp_held = Some (2, 120), kp_leader = True\<rparr>), lz_now = 120\<rparr>"

lemma demo_lease_reach: "lease_reach 10 demo_lease"
proof -
  let ?a = "lease_start 100\<lparr>
    lz_store := migrate\<lparr>meta_lease := \<lparr>ls_holder = ''a'', ls_epoch = 1, ls_expires_at_ms = 110\<rparr>\<rparr>,
    lz_keepers := (\<lambda>_. keeper_init)(''a'' := \<lparr>kp_held = Some (1, 100), kp_leader = True\<rparr>)\<rparr>"
  note eval = lease_start_def keeper_init_def own_clock_def acquire_lease_def keeper_request_def migrate_def
    keeper_step_def demo_lease_def numeral_2_eq_2
  have "lease_step 10 (lease_start 100) ?a"
    using lease_step.answered [of 100 "lease_start 100" "''a''" 10 _ "Some 1"] by (simp add: eval)
  moreover have "lease_step 10 ?a (?a\<lparr>lz_now := 120\<rparr>)"
    by (rule lease_step.tick) (simp add: eval)
  moreover have "lease_step 10 (?a\<lparr>lz_now := 120\<rparr>) demo_lease"
    using lease_step.answered [of 120 "?a\<lparr>lz_now := 120\<rparr>" "''b''" 10 _ "Some 2"] by (simp add: eval)
  ultimately show ?thesis
    by (blast intro: lease_reach.intros)
qed

section \<open>Properties\<close>



end
