(* ===== verification/Wire.thy ===== *)
theory Wire
  imports OMap
begin

text \<open>
  Byte-level reading and writing, as the command codec and the snapshot codec of
  \<^verbatim>\<open>pico-metadata\<close> do it with the \<^verbatim>\<open>bytes\<close> crate: little-endian integers,
  length-prefixed strings and blobs, counted loops. A reader takes the remaining bytes and returns
  the value with the bytes after it, or the error of the codec; the two codecs have their own error
  types, so the readers are polymorphic in the error and take the value they report on corrupt input.

  The locale \<open>wire_codec\<close> is the contract between a writer and its reader, with the list and loop
  lemmas that the composed codecs use. \<open>extensible\<close> readers never look past what they consume.
\<close>

section \<open>Readers\<close>

type_synonym ('e, 'a) get = "bytes \<Rightarrow> 'e + 'a \<times> bytes"

definition gret :: "'a \<Rightarrow> ('e, 'a) get" where
  "gret x bs = Inr (x, bs)"

definition gfail :: "'e \<Rightarrow> ('e, 'a) get" where
  "gfail e bs = Inl e"

definition gbind :: "('e, 'a) get \<Rightarrow> ('a \<Rightarrow> ('e, 'b) get) \<Rightarrow> ('e, 'b) get" where
  "gbind g f bs = rbind (g bs) (\<lambda>(x, rest). f x rest)"

lemmas gsimps = gret_def gfail_def gbind_def

text \<open>\<^verbatim>\<open>for _ in 0..n\<close> with a state, and the loop that collects into a vector.\<close>

fun get_loop :: "nat \<Rightarrow> ('s \<Rightarrow> ('e, 's) get) \<Rightarrow> 's \<Rightarrow> ('e, 's) get" where
  "get_loop 0 body s = gret s"
| "get_loop (Suc n) body s = gbind (body s) (get_loop n body)"

fun get_many :: "nat \<Rightarrow> ('e, 'a) get \<Rightarrow> ('e, 'a list) get" where
  "get_many 0 g = gret []"
| "get_many (Suc n) g = gbind g (\<lambda>x. gbind (get_many n g) (\<lambda>xs. gret (x # xs)))"

section \<open>Integers\<close>

fun le_bytes :: "nat \<Rightarrow> nat \<Rightarrow> bytes" where
  "le_bytes 0 n = []"
| "le_bytes (Suc k) n = of_nat (n mod 256) # le_bytes k (n div 256)"

fun le_value :: "bytes \<Rightarrow> nat" where
  "le_value [] = 0"
| "le_value (b # bs) = unat b + 256 * le_value bs"

lemma length_le_bytes [simp]: "length (le_bytes k n) = k"
  by (induction k arbitrary: n) simp_all

lemma le_bytes_unfold:
  "le_bytes 1 n = [of_nat (n mod 256)]"
  "le_bytes (numeral k) n = of_nat (n mod 256) # le_bytes (pred_numeral k) (n div 256)"
  by (simp_all only: One_nat_def numeral_eq_Suc [of k] le_bytes.simps)

lemma unat_byte: "unat (of_nat (n mod 256) :: u8) = n mod 256"
  by (simp add: unat_of_nat)

lemma le_value_bytes: "le_value (le_bytes k n) = n mod 256 ^ k"
proof (induction k arbitrary: n)
  case (Suc k)
  have "le_value (le_bytes (Suc k) n) = n mod 256 + 256 * (n div 256 mod 256 ^ k)"
    by (simp add: Suc unat_byte del: of_nat_mod)
  also have "\<dots> = n mod 256 ^ Suc k"
    by (simp add: mod_mult2_eq mult.commute)
  finally show ?case .
qed simp

text \<open>\<^verbatim>\<open>checked_get!\<close>: read \<open>k\<close> bytes little-endian, an error when there are fewer.\<close>

definition get_le :: "nat \<Rightarrow> 'e \<Rightarrow> ('e, nat) get" where
  "get_le k corrupt bs = (if length bs < k then Inl corrupt else Inr (le_value (take k bs), drop k bs))"

lemma get_le_put: "n < 256 ^ k \<Longrightarrow> get_le k corrupt (le_bytes k n @ rest) = Inr (n, rest)"
  by (simp add: get_le_def le_value_bytes)

definition put_u8 :: "u8 \<Rightarrow> bytes" where "put_u8 w = le_bytes 1 (unat w)"
definition put_u32 :: "u32 \<Rightarrow> bytes" where "put_u32 w = le_bytes 4 (unat w)"
definition put_u64 :: "u64 \<Rightarrow> bytes" where "put_u64 w = le_bytes 8 (unat w)"
definition put_i32 :: "i32 \<Rightarrow> bytes" where "put_i32 x = le_bytes 4 (unat (sbits x))"
definition put_i64 :: "i64 \<Rightarrow> bytes" where "put_i64 x = le_bytes 8 (unat (sbits x))"

definition get_u8 :: "'e \<Rightarrow> ('e, u8) get" where
  "get_u8 corrupt = gbind (get_le 1 corrupt) (\<lambda>n. gret (of_nat n))"
definition get_u32 :: "'e \<Rightarrow> ('e, u32) get" where
  "get_u32 corrupt = gbind (get_le 4 corrupt) (\<lambda>n. gret (of_nat n))"
definition get_u64 :: "'e \<Rightarrow> ('e, u64) get" where
  "get_u64 corrupt = gbind (get_le 8 corrupt) (\<lambda>n. gret (of_nat n))"
definition get_i32 :: "'e \<Rightarrow> ('e, i32) get" where
  "get_i32 corrupt = gbind (get_le 4 corrupt) (\<lambda>n. gret (SW (of_nat n)))"
definition get_i64 :: "'e \<Rightarrow> ('e, i64) get" where
  "get_i64 corrupt = gbind (get_le 8 corrupt) (\<lambda>n. gret (SW (of_nat n)))"

lemma get_put_ints [simp]:
  "get_u8 corrupt (put_u8 a @ rest) = Inr (a, rest)"
  "get_u32 corrupt (put_u32 b @ rest) = Inr (b, rest)"
  "get_u64 corrupt (put_u64 c @ rest) = Inr (c, rest)"
  "get_i32 corrupt (put_i32 d @ rest) = Inr (d, rest)"
  "get_i64 corrupt (put_i64 e @ rest) = Inr (e, rest)"
proof -
  have "unat a < 256 ^ 1" "unat b < 256 ^ 4" "unat c < 256 ^ 8" "unat (sbits d) < 256 ^ 4" "unat (sbits e) < 256 ^ 8"
    using unsigned_less [of a, where ?'a = nat] unsigned_less [of b, where ?'a = nat]
      unsigned_less [of c, where ?'a = nat] unsigned_less [of "sbits d", where ?'a = nat]
      unsigned_less [of "sbits e", where ?'a = nat]
    by simp_all
  then show "get_u8 corrupt (put_u8 a @ rest) = Inr (a, rest)"
    "get_u32 corrupt (put_u32 b @ rest) = Inr (b, rest)"
    "get_u64 corrupt (put_u64 c @ rest) = Inr (c, rest)"
    "get_i32 corrupt (put_i32 d @ rest) = Inr (d, rest)"
    "get_i64 corrupt (put_i64 e @ rest) = Inr (e, rest)"
    by (simp_all only: get_u8_def put_u8_def get_u32_def put_u32_def get_u64_def put_u64_def get_i32_def
      put_i32_def get_i64_def put_i64_def gsimps get_le_put rbind_simps prod.case of_nat_unat ucast_id SW_sbits)
qed

section \<open>Strings and blobs\<close>

text \<open>The bytes of a string are its characters.\<close>

definition str_bytes :: "string \<Rightarrow> bytes" where
  "str_bytes s = map (\<lambda>c. of_nat (of_char c)) s"

definition bytes_str :: "bytes \<Rightarrow> string" where
  "bytes_str bs = map (\<lambda>b. char_of (unat b)) bs"

lemma bytes_str_bytes [simp]: "bytes_str (str_bytes s) = s"
proof -
  have "char_of (unat (of_nat (of_char c) :: u8)) = c" for c :: char
    by (simp add: unat_of_nat)
  then show ?thesis
    by (simp add: bytes_str_def str_bytes_def comp_def)
qed

lemma length_str_bytes [simp]: "length (str_bytes s) = length s"
  by (simp add: str_bytes_def)

text \<open>
  The well-formedness that \<^verbatim>\<open>std::str::from_utf8\<close> checks: no stray continuation byte, no
  overlong form, no surrogate, nothing above \<^verbatim>\<open>U+10FFFF\<close>. Every Rust string satisfies it.
\<close>

definition cont_byte :: "u8 \<Rightarrow> bool" where
  "cont_byte b \<longleftrightarrow> 0x80 \<le> b \<and> b \<le> 0xBF"

definition second_byte :: "u8 \<Rightarrow> u8 \<Rightarrow> bool" where
  "second_byte a b \<longleftrightarrow>
    (if a = 0xE0 then 0xA0 \<le> b \<and> b \<le> 0xBF
     else if a = 0xED then 0x80 \<le> b \<and> b \<le> 0x9F
     else if a = 0xF0 then 0x90 \<le> b \<and> b \<le> 0xBF
     else if a = 0xF4 then 0x80 \<le> b \<and> b \<le> 0x8F
     else cont_byte b)"

fun utf8 :: "bytes \<Rightarrow> bool" where
  "utf8 [] \<longleftrightarrow> True"
| "utf8 (a # bs) \<longleftrightarrow>
    (if a < 0x80 then utf8 bs
     else if a < 0xC2 then False
     else if a < 0xE0 then (case bs of b # bs' \<Rightarrow> cont_byte b \<and> utf8 bs' | _ \<Rightarrow> False)
     else if a < 0xF0 then
       (case bs of b # c # bs' \<Rightarrow> second_byte a b \<and> cont_byte c \<and> utf8 bs' | _ \<Rightarrow> False)
     else if a < 0xF5 then
       (case bs of b # c # d # bs' \<Rightarrow> second_byte a b \<and> cont_byte c \<and> cont_byte d \<and> utf8 bs' | _ \<Rightarrow> False)
     else False)"

definition put_str :: "string \<Rightarrow> bytes" where
  "put_str s = put_u32 (of_nat (length s)) @ str_bytes s"

definition get_str :: "'e \<Rightarrow> ('e, string) get" where
  "get_str corrupt = gbind (get_u32 corrupt) (\<lambda>len bs.
    if length bs < unat len then Inl corrupt
    else if \<not> utf8 (take (unat len) bs) then Inl corrupt
    else Inr (bytes_str (take (unat len) bs), drop (unat len) bs))"

definition put_blob :: "bytes \<Rightarrow> bytes" where
  "put_blob v = put_u32 (of_nat (length v)) @ v"

definition get_blob :: "'e \<Rightarrow> ('e, bytes) get" where
  "get_blob corrupt = gbind (get_u32 corrupt) (\<lambda>len bs.
    if length bs < unat len then Inl corrupt
    else Inr (take (unat len) bs, drop (unat len) bs))"

text \<open>A vector: its length as \<^verbatim>\<open>u32\<close>, then its elements.\<close>

definition put_vec :: "('a \<Rightarrow> bytes) \<Rightarrow> 'a list \<Rightarrow> bytes" where
  "put_vec put xs = put_u32 (of_nat (length xs)) @ concat (map put xs)"

definition get_vec :: "'e \<Rightarrow> ('e, 'a) get \<Rightarrow> ('e, 'a list) get" where
  "get_vec corrupt g = gbind (get_u32 corrupt) (\<lambda>count. get_many (unat count) g)"

definition vec_ok :: "('a \<Rightarrow> bool) \<Rightarrow> 'a list \<Rightarrow> bool" where
  "vec_ok ok xs \<longleftrightarrow> length xs < 2 ^ 32 \<and> list_all ok xs"

text \<open>A snapshot section: the number of rows as \<^verbatim>\<open>u64\<close>, then the rows, each folded into the state.\<close>

definition put_rows :: "('a \<Rightarrow> bytes) \<Rightarrow> 'a list \<Rightarrow> bytes" where
  "put_rows put xs = put_u64 (of_nat (length xs)) @ concat (map put xs)"

definition get_rows :: "'e \<Rightarrow> ('s \<Rightarrow> 'a \<Rightarrow> 's) \<Rightarrow> ('e, 'a) get \<Rightarrow> 's \<Rightarrow> ('e, 's) get" where
  "get_rows corrupt f g s =
    gbind (get_u64 corrupt) (\<lambda>n. get_loop (unat n) (\<lambda>s. gbind g (\<lambda>x. gret (f s x))) s)"

text \<open>A Rust string whose length fits the 32-bit prefix; a blob likewise.\<close>

definition str_ok :: "string \<Rightarrow> bool" where
  "str_ok s \<longleftrightarrow> utf8 (str_bytes s) \<and> length s < 2 ^ 32"

definition blob_ok :: "bytes \<Rightarrow> bool" where
  "blob_ok v \<longleftrightarrow> length v < 2 ^ 32"

lemma unat_length_u32: "n < 2 ^ 32 \<Longrightarrow> unat (of_nat n :: u32) = n"
  by (simp add: unat_of_nat)

lemma get_put_str [simp]:
  assumes "str_ok s"
  shows "get_str corrupt (put_str s @ rest) = Inr (s, rest)"
proof -
  have "unat (of_nat (length s) :: u32) = length s"
    using assms by (intro unat_length_u32) (simp only: str_ok_def)
  then show ?thesis
    using assms by (simp only: str_ok_def get_str_def put_str_def gbind_def append_assoc get_put_ints
      rbind_simps prod.case take_append drop_append length_append length_str_bytes) simp
qed

lemma get_put_blob [simp]:
  assumes "blob_ok v"
  shows "get_blob corrupt (put_blob v @ rest) = Inr (v, rest)"
proof -
  have "unat (of_nat (length v) :: u32) = length v"
    using assms by (intro unat_length_u32) (simp only: blob_ok_def)
  then show ?thesis
    by (simp only: get_blob_def put_blob_def gbind_def append_assoc get_put_ints
      rbind_simps prod.case take_append drop_append length_append) simp
qed

section \<open>The contract of a writer and its reader\<close>

locale wire_codec =
  fixes put :: "'a \<Rightarrow> bytes" and get :: "('e, 'a) get" and ok :: "'a \<Rightarrow> bool"
  assumes get_put: "ok x \<Longrightarrow> get (put x @ rest) = Inr (x, rest)"
begin

lemma get_many_put:
  "\<forall>x \<in> set xs. ok x \<Longrightarrow> get_many (length xs) get (concat (map put xs) @ rest) = Inr (xs, rest)"
  by (induction xs) (simp_all add: gsimps get_put)

lemma get_put_vec:
  assumes "vec_ok ok xs"
  shows "get_vec corrupt get (put_vec put xs @ rest) = Inr (xs, rest)"
proof -
  have "unat (of_nat (length xs) :: u32) = length xs" "\<forall>x \<in> set xs. ok x"
    using assms by (auto simp: vec_ok_def list_all_iff intro!: unat_length_u32 simp del: unat_of_nat)
  then show ?thesis
    by (simp only: get_vec_def put_vec_def gbind_def append_assoc get_put_ints rbind_simps prod.case
      get_many_put)
qed

lemma get_loop_put:
  "\<forall>x \<in> set xs. ok x \<Longrightarrow>
    get_loop (length xs) (\<lambda>s. gbind get (\<lambda>x. gret (f s x))) s (concat (map put xs) @ rest) =
      Inr (fold (\<lambda>x s. f s x) xs s, rest)"
  by (induction xs arbitrary: s) (simp_all add: gsimps get_put)

lemma get_rows_put:
  assumes "list_all ok xs" and n: "length xs < 2 ^ 64"
  shows "get_rows corrupt f get s (put_rows put xs @ rest) = Inr (fold (\<lambda>x s. f s x) xs s, rest)"
proof -
  have "unat (of_nat (length xs) :: u64) = length xs"
    using n by (simp only: unat_of_nat) simp
  with assms show ?thesis
    using get_loop_put [of xs f s rest]
    by (simp only: get_rows_def put_rows_def gbind_def append_assoc get_put_ints rbind_simps prod.case
      list_all_iff)
qed

lemma put_inject: "ok x \<Longrightarrow> ok y \<Longrightarrow> put x @ r = put y @ r' \<Longrightarrow> x = y \<and> r = r'"
  by (metis get_put prod.inject sum.inject(2))

end

interpretation wire_u64: wire_codec put_u64 "get_u64 corrupt" "\<lambda>_. True" for corrupt
  by unfold_locales simp

interpretation wire_str: wire_codec put_str "get_str corrupt" str_ok for corrupt
  by unfold_locales simp

interpretation wire_blob: wire_codec put_blob "get_blob corrupt" blob_ok for corrupt
  by unfold_locales simp

subsection \<open>String maps\<close>

definition put_str_map :: "(string, string) omap \<Rightarrow> bytes" where
  "put_str_map m = put_u32 (of_nat (osize m)) @ concat (map (\<lambda>(k, v). put_str k @ put_str v) (oentries m))"

definition get_str_map :: "'e \<Rightarrow> ('e, (string, string) omap) get" where
  "get_str_map corrupt = gbind (get_u32 corrupt) (\<lambda>len.
    get_loop (unat len) (\<lambda>m. gbind (get_str corrupt) (\<lambda>k. gbind (get_str corrupt) (\<lambda>v. gret (oput k v m)))) oempty)"

definition str_map_ok :: "(string, string) omap \<Rightarrow> bool" where
  "str_map_ok m \<longleftrightarrow> osize m < 2 ^ 32 \<and> list_all (\<lambda>(k, v). str_ok k \<and> str_ok v) (oentries m)"

interpretation wire_pair: wire_codec "\<lambda>(k, v). put_str k @ put_str v"
    "gbind (get_str corrupt) (\<lambda>k. gbind (get_str corrupt) (\<lambda>v. gret (k, v)))"
    "\<lambda>(k, v). str_ok k \<and> str_ok v" for corrupt
  by unfold_locales (auto simp: gsimps)

lemma get_put_str_map [simp]:
  assumes "str_map_ok m"
  shows "get_str_map corrupt (put_str_map m @ rest) = Inr (m, rest)"
proof -
  have "get_loop (osize m) (\<lambda>m. gbind (gbind (get_str corrupt) (\<lambda>k. gbind (get_str corrupt) (\<lambda>v. gret (k, v))))
      (\<lambda>kv. gret (oput (fst kv) (snd kv) m))) oempty
      (concat (map (\<lambda>(k, v). put_str k @ put_str v) (oentries m)) @ rest) =
    Inr (fold (\<lambda>kv m. oput (fst kv) (snd kv) m) (oentries m) oempty, rest)"
    by (rule wire_pair.get_loop_put) (use assms in \<open>auto simp: str_map_ok_def list_all_iff\<close>)
  moreover have "(\<lambda>m. gbind (gbind (get_str corrupt) (\<lambda>k. gbind (get_str corrupt) (\<lambda>v. gret (k, v))))
      (\<lambda>kv. gret (oput (fst kv) (snd kv) m))) =
    (\<lambda>m. gbind (get_str corrupt) (\<lambda>k. gbind (get_str corrupt) (\<lambda>v. gret (oput k v m))))"
    by (rule ext, rule ext) (auto simp: gsimps rbind_def split: sum.splits)
  moreover have "fold (\<lambda>kv m. oput (fst kv) (snd kv) m) (oentries m) oempty = m"
    using om.rebuild [of m] by (simp add: case_prod_unfold)
  ultimately show ?thesis
    using assms by (simp add: get_str_map_def put_str_map_def gbind_def str_map_ok_def unat_length_u32)
qed

section \<open>Readers do not look ahead\<close>

definition extensible :: "('e, 'a) get \<Rightarrow> bool" where
  "extensible g \<longleftrightarrow> (\<forall>bs x r e. g bs = Inr (x, r) \<longrightarrow> g (bs @ e) = Inr (x, r @ e))"

named_theorems ext_intros

lemma extensibleD: "extensible g \<Longrightarrow> g bs = Inr (x, r) \<Longrightarrow> g (bs @ e) = Inr (x, r @ e)"
  by (simp add: extensible_def)

lemma ext_gret [ext_intros]: "extensible (gret x)"
  by (simp add: extensible_def gret_def)

lemma ext_gfail [ext_intros]: "extensible (gfail e)"
  by (simp add: extensible_def gfail_def)

lemma ext_gbind [ext_intros]: "extensible g \<Longrightarrow> (\<And>x. extensible (f x)) \<Longrightarrow> extensible (gbind g f)"
  unfolding extensible_def gbind_def by auto

lemma ext_get_loop [ext_intros]: "(\<And>s. extensible (body s)) \<Longrightarrow> extensible (get_loop n body s)"
  by (induction n arbitrary: s) (auto intro: ext_intros)

lemma ext_get_many [ext_intros]: "extensible g \<Longrightarrow> extensible (get_many n g)"
  by (induction n) (auto intro: ext_intros)

lemma ext_if [ext_intros]: "extensible g \<Longrightarrow> extensible h \<Longrightarrow> extensible (if b then g else h)"
  by simp

lemma ext_get_le [ext_intros]: "extensible (get_le k corrupt)"
  by (auto simp: extensible_def get_le_def split: if_splits)

lemma ext_ints [ext_intros]:
  "extensible (get_u8 corrupt)" "extensible (get_u32 corrupt)" "extensible (get_u64 corrupt)"
  "extensible (get_i32 corrupt)" "extensible (get_i64 corrupt)"
  by (simp_all add: get_u8_def get_u32_def get_u64_def get_i32_def get_i64_def ext_intros)

lemma ext_take_drop:
  "extensible (\<lambda>bs. if length bs < n then Inl corrupt
     else if \<not> P (take n bs) then Inl corrupt else Inr (f (take n bs), drop n bs))"
  by (auto simp: extensible_def split: if_splits)

lemma ext_str [ext_intros]: "extensible (get_str corrupt)"
  unfolding get_str_def by (intro ext_intros ext_take_drop)

lemma ext_blob [ext_intros]: "extensible (get_blob corrupt)"
  unfolding get_blob_def
  using ext_take_drop [where P = "\<lambda>_. True" and f = "\<lambda>v. v" and corrupt = corrupt]
  by (intro ext_intros) (simp only: not_True_eq_False if_False)

lemma ext_vec [ext_intros]: "extensible g \<Longrightarrow> extensible (get_vec corrupt g)"
  unfolding get_vec_def by (intro ext_intros)

lemma ext_rows [ext_intros]: "extensible g \<Longrightarrow> extensible (get_rows corrupt f g s)"
  unfolding get_rows_def by (intro ext_intros)

lemma ext_str_map [ext_intros]: "extensible (get_str_map corrupt)"
  unfolding get_str_map_def by (intro ext_intros)

text \<open>
  A strict prefix of what a reader consumes whole is never accepted as a whole: the reader would
  stop at the same place on the longer input.
\<close>

lemma extensible_no_prefix:
  assumes "extensible g" "g (p @ e) = Inr (x, [])" "e \<noteq> []"
  shows "g p \<noteq> Inr (y, [])"
  using extensibleD [OF assms(1), of p y "[]" e] assms(2,3) by auto

end
