(* ===== verification/Meta_Codec.thy ===== *)
theory Meta_Codec
  imports Wire Meta_Types "HOL-Library.Sublist"
begin

text \<open>
  The command codec of \<^verbatim>\<open>pico-metadata/src/codec.rs\<close>: single commands, batches (one entry
  of the replicated log) and results of the leader-forwarding call. Every encoding is a version byte
  and a body; a decoder checks the version, reads the body and refuses trailing bytes. The message
  texts of \<^verbatim>\<open>CodecError::Corrupt\<close> are left out.

  \<open>command_ok\<close> says that a command can be written: its strings are well-formed UTF-8, as Rust
  strings are, and every length fits the 32-bit prefix it is cast to.
\<close>

section \<open>Definitions\<close>

datatype codec_error = UnsupportedVersion u8 | UnknownCommand u8 | UnknownResult u8 | Corrupt

definition codec_version :: u8 where "codec_version = 0"

definition check_version :: "(codec_error, unit) get" where
  "check_version = gbind (get_u8 Corrupt) (\<lambda>version.
    if version \<noteq> codec_version then gfail (UnsupportedVersion version) else gret ())"

definition ensure_drained :: "(codec_error, unit) get" where
  "ensure_drained bs = (if bs \<noteq> [] then Inl Corrupt else Inr ((), bs))"

definition put_proposer :: "proposer \<Rightarrow> bytes" where
  "put_proposer p = put_i32 (prop_node_id p) @ put_i64 (prop_node_epoch p)"

definition get_proposer :: "(codec_error, proposer) get" where
  "get_proposer = gbind (get_i32 Corrupt) (\<lambda>n. gbind (get_i64 Corrupt) (\<lambda>e.
    gret \<lparr>prop_node_id = n, prop_node_epoch = e\<rparr>))"

definition put_stream_range :: "object_stream_range \<Rightarrow> bytes" where
  "put_stream_range r = put_u64 (osr_stream_id r) @ put_u64 (osr_epoch r) @ put_u64 (osr_start_offset r) @
    put_u64 (osr_end_offset r) @ put_u64 (osr_size r)"

definition get_stream_range :: "(codec_error, object_stream_range) get" where
  "get_stream_range = gbind (get_u64 Corrupt) (\<lambda>s. gbind (get_u64 Corrupt) (\<lambda>e.
    gbind (get_u64 Corrupt) (\<lambda>lo. gbind (get_u64 Corrupt) (\<lambda>hi. gbind (get_u64 Corrupt) (\<lambda>n.
    gret \<lparr>osr_stream_id = s, osr_epoch = e, osr_start_offset = lo, osr_end_offset = hi, osr_size = n\<rparr>)))))"

definition put_split_object :: "stream_object \<Rightarrow> bytes" where
  "put_split_object so = put_u64 (so_object_id so) @ put_u64 (so_object_size so) @ put_u64 (so_stream_id so) @
    put_u64 (so_start_offset so) @ put_u64 (so_end_offset so) @ put_u32 (so_attributes so)"

definition get_split_object :: "(codec_error, stream_object) get" where
  "get_split_object = gbind (get_u64 Corrupt) (\<lambda>i. gbind (get_u64 Corrupt) (\<lambda>n.
    gbind (get_u64 Corrupt) (\<lambda>s. gbind (get_u64 Corrupt) (\<lambda>lo. gbind (get_u64 Corrupt) (\<lambda>hi.
    gbind (get_u32 Corrupt) (\<lambda>a.
    gret \<lparr>so_object_id = i, so_object_size = n, so_stream_id = s, so_start_offset = lo, so_end_offset = hi,
      so_attributes = a\<rparr>))))))"

definition put_commit_request :: "commit_request \<Rightarrow> bytes" where
  "put_commit_request q = put_u64 (cr_object_id q) @ put_u64 (cr_object_size q) @ put_u32 (cr_attributes q) @
    put_vec put_stream_range (cr_stream_ranges q) @ put_vec put_split_object (cr_stream_objects q) @
    put_vec put_u64 (cr_compacted_object_ids q)"

definition get_commit_request :: "(codec_error, commit_request) get" where
  "get_commit_request = gbind (get_u64 Corrupt) (\<lambda>i. gbind (get_u64 Corrupt) (\<lambda>n. gbind (get_u32 Corrupt) (\<lambda>a.
    gbind (get_vec Corrupt get_stream_range) (\<lambda>ranges. gbind (get_vec Corrupt get_split_object) (\<lambda>objs.
    gbind (get_vec Corrupt (get_u64 Corrupt)) (\<lambda>ids.
    gret \<lparr>cr_object_id = i, cr_object_size = n, cr_attributes = a, cr_stream_ranges = ranges,
      cr_stream_objects = objs, cr_compacted_object_ids = ids\<rparr>))))))"

text \<open>\<^verbatim>\<open>*op as u8\<close>: the discriminants of \<^verbatim>\<open>CompactOperations\<close>.\<close>

fun operation_byte :: "compact_operations \<Rightarrow> u8" where
  "operation_byte Delete = 0"
| "operation_byte KeepData = 1"
| "operation_byte DeepDelete = 2"

definition get_operation :: "'e \<Rightarrow> ('e, compact_operations) get" where
  "get_operation corrupt = gbind (get_u8 corrupt) (\<lambda>b.
    if b = 0 then gret Delete else if b = 1 then gret KeepData else if b = 2 then gret DeepDelete
    else gfail corrupt)"

definition put_compact_request :: "compact_request \<Rightarrow> bytes" where
  "put_compact_request q = put_u64 (kr_object_id q) @ put_u64 (kr_object_size q) @ put_u64 (kr_stream_id q) @
    put_u64 (kr_stream_epoch q) @ put_u64 (kr_start_offset q) @ put_u64 (kr_end_offset q) @
    put_u32 (kr_attributes q) @ put_vec put_u64 (kr_source_object_ids q) @
    put_vec (\<lambda>op. put_u8 (operation_byte op)) (kr_operations q)"

definition get_compact_request :: "(codec_error, compact_request) get" where
  "get_compact_request = gbind (get_u64 Corrupt) (\<lambda>i. gbind (get_u64 Corrupt) (\<lambda>n. gbind (get_u64 Corrupt) (\<lambda>s.
    gbind (get_u64 Corrupt) (\<lambda>e. gbind (get_u64 Corrupt) (\<lambda>lo. gbind (get_u64 Corrupt) (\<lambda>hi.
    gbind (get_u32 Corrupt) (\<lambda>a. gbind (get_vec Corrupt (get_u64 Corrupt)) (\<lambda>ids.
    gbind (get_vec Corrupt (get_operation Corrupt)) (\<lambda>ops.
    gret \<lparr>kr_object_id = i, kr_object_size = n, kr_stream_id = s, kr_stream_epoch = e,
      kr_start_offset = lo, kr_end_offset = hi, kr_source_object_ids = ids, kr_operations = ops,
      kr_attributes = a\<rparr>)))))))))"

fun put_command_fields :: "metadata_command \<Rightarrow> bytes" where
  "put_command_fields (RegisterNode n e http slots addrs wal) =
    put_i32 n @ put_i64 e @ put_str http @ put_u32 slots @ put_str_map addrs @ put_str wal"
| "put_command_fields (SetNodeSlots p n slots) = put_i32 n @ put_u32 slots"
| "put_command_fields (Heartbeat p) = []"
| "put_command_fields (CreateStream p) = []"
| "put_command_fields (FenceNode p n e beats) = put_i32 n @ put_i64 e @ put_u64 beats"
| "put_command_fields (OpenStream p s e) = put_u64 s @ put_i64 e"
| "put_command_fields (CloseStream p s e) = put_u64 s @ put_i64 e"
| "put_command_fields (DeleteStream p s e) = put_u64 s @ put_i64 e"
| "put_command_fields (CompleteTransfer p s e) = put_u64 s @ put_i64 e"
| "put_command_fields (TrimStream p s e off) = put_u64 s @ put_i64 e @ put_u64 off"
| "put_command_fields (PrepareObject p count ttl now) = put_u32 count @ put_i64 ttl @ put_i64 now"
| "put_command_fields (CommitStreamSetObject p q now) = put_i64 now @ put_commit_request q"
| "put_command_fields (CompactStreamObject p q now) = put_i64 now @ put_compact_request q"
| "put_command_fields (ExpirePreparedObjects p now) = put_i64 now"
| "put_command_fields (CleanDestroyedObjects p ids) = put_vec put_u64 ids"
| "put_command_fields (PutKv p key val) = put_str key @ put_blob val"
| "put_command_fields (PutKvIfAbsent p key val) = put_str key @ put_blob val"
| "put_command_fields (DeleteKv p key) = put_str key"
| "put_command_fields (DeleteKvIfMatches p key expected) = put_str key @ put_blob expected"
| "put_command_fields (PutKvIfMatches p key expected val) = put_str key @ put_blob expected @ put_blob val"
| "put_command_fields (TransferStream p s from_node to_node) = put_u64 s @ put_i32 from_node @ put_i32 to_node"
| "put_command_fields (CreateStreams p count) = put_u32 count"
| "put_command_fields (AllocateProducerIds p count) = put_u32 count"
| "put_command_fields (PlaceStream p s node) = put_u64 s @
    (case node of Some n \<Rightarrow> put_u8 1 @ put_i32 n | None \<Rightarrow> put_u8 0)"

definition put_command_body :: "metadata_command \<Rightarrow> bytes" where
  "put_command_body c = put_u8 (type_code c) @
    (case command_proposer c of Some p \<Rightarrow> put_proposer p | None \<Rightarrow> []) @ put_command_fields c"

definition get_command_fields :: "u8 \<Rightarrow> proposer \<Rightarrow> (codec_error, metadata_command) get" where
  "get_command_fields code p =
   (if code = 1 then gret (CreateStream p)
    else if code = 2 then gbind (get_u64 Corrupt) (\<lambda>s. gbind (get_i64 Corrupt) (\<lambda>e. gret (OpenStream p s e)))
    else if code = 3 then gbind (get_u64 Corrupt) (\<lambda>s. gbind (get_i64 Corrupt) (\<lambda>e.
      gbind (get_u64 Corrupt) (\<lambda>off. gret (TrimStream p s e off))))
    else if code = 4 then gbind (get_u64 Corrupt) (\<lambda>s. gbind (get_i64 Corrupt) (\<lambda>e. gret (CloseStream p s e)))
    else if code = 5 then gbind (get_u64 Corrupt) (\<lambda>s. gbind (get_i64 Corrupt) (\<lambda>e. gret (DeleteStream p s e)))
    else if code = 6 then gbind (get_u32 Corrupt) (\<lambda>count. gbind (get_i64 Corrupt) (\<lambda>ttl.
      gbind (get_i64 Corrupt) (\<lambda>now. gret (PrepareObject p count ttl now))))
    else if code = 7 then gbind (get_i64 Corrupt) (\<lambda>now. gbind get_commit_request (\<lambda>q.
      gret (CommitStreamSetObject p q now)))
    else if code = 8 then gbind (get_i64 Corrupt) (\<lambda>now. gbind get_compact_request (\<lambda>q.
      gret (CompactStreamObject p q now)))
    else if code = 9 then gbind (get_i64 Corrupt) (\<lambda>now. gret (ExpirePreparedObjects p now))
    else if code = 11 then gbind (get_vec Corrupt (get_u64 Corrupt)) (\<lambda>ids. gret (CleanDestroyedObjects p ids))
    else if code = 12 then gbind (get_str Corrupt) (\<lambda>key. gbind (get_blob Corrupt) (\<lambda>val. gret (PutKv p key val)))
    else if code = 13 then gbind (get_str Corrupt) (\<lambda>key. gbind (get_blob Corrupt) (\<lambda>val.
      gret (PutKvIfAbsent p key val)))
    else if code = 14 then gbind (get_str Corrupt) (\<lambda>key. gret (DeleteKv p key))
    else if code = 15 then gbind (get_u64 Corrupt) (\<lambda>s. gbind (get_i32 Corrupt) (\<lambda>from_node.
      gbind (get_i32 Corrupt) (\<lambda>to_node. gret (TransferStream p s from_node to_node))))
    else if code = 16 then gbind (get_u64 Corrupt) (\<lambda>s. gbind (get_i64 Corrupt) (\<lambda>e.
      gret (CompleteTransfer p s e)))
    else if code = 17 then gbind (get_u32 Corrupt) (\<lambda>count. gret (CreateStreams p count))
    else if code = 18 then gbind (get_u64 Corrupt) (\<lambda>s. gbind (get_u8 Corrupt) (\<lambda>tag.
      if tag = 0 then gret (PlaceStream p s None)
      else gbind (get_i32 Corrupt) (\<lambda>n. gret (PlaceStream p s (Some n)))))
    else if code = 19 then gbind (get_str Corrupt) (\<lambda>key. gbind (get_blob Corrupt) (\<lambda>expected.
      gret (DeleteKvIfMatches p key expected)))
    else if code = 20 then gbind (get_u32 Corrupt) (\<lambda>count. gret (AllocateProducerIds p count))
    else if code = 21 then gbind (get_str Corrupt) (\<lambda>key. gbind (get_blob Corrupt) (\<lambda>expected.
      gbind (get_blob Corrupt) (\<lambda>val. gret (PutKvIfMatches p key expected val))))
    else if code = 22 then gret (Heartbeat p)
    else if code = 23 then gbind (get_i32 Corrupt) (\<lambda>n. gbind (get_i64 Corrupt) (\<lambda>e.
      gbind (get_u64 Corrupt) (\<lambda>beats. gret (FenceNode p n e beats))))
    else gbind (get_i32 Corrupt) (\<lambda>n. gbind (get_u32 Corrupt) (\<lambda>slots. gret (SetNodeSlots p n slots))))"

text \<open>
  \<^verbatim>\<open>get_command_body\<close>: every arm but \<^verbatim>\<open>RegisterNode\<close>'s reads the proposer first, and
  an unknown type is refused before anything else is read.
\<close>

definition get_command_body :: "(codec_error, metadata_command) get" where
  "get_command_body = gbind (get_u8 Corrupt) (\<lambda>code.
    if code = 10 then
      gbind (get_i32 Corrupt) (\<lambda>n. gbind (get_i64 Corrupt) (\<lambda>e. gbind (get_str Corrupt) (\<lambda>http.
      gbind (get_u32 Corrupt) (\<lambda>slots. gbind (get_str_map Corrupt) (\<lambda>addrs. gbind (get_str Corrupt) (\<lambda>wal.
      gret (RegisterNode n e http slots addrs wal)))))))
    else if code = 0 \<or> 24 < code then gfail (UnknownCommand code)
    else gbind get_proposer (get_command_fields code))"

definition encode_command :: "metadata_command \<Rightarrow> bytes" where
  "encode_command c = put_u8 codec_version @ put_command_body c"

definition decode_command :: "bytes \<Rightarrow> codec_error + metadata_command" where
  "decode_command bs = map_sum id fst (gbind check_version (\<lambda>_. gbind get_command_body (\<lambda>c.
    gbind ensure_drained (\<lambda>_. gret c))) bs)"

definition encode_batch :: "metadata_command list \<Rightarrow> bytes" where
  "encode_batch cs = put_u8 codec_version @ put_u32 (of_nat (length cs)) @ concat (map put_command_body cs)"

definition decode_batch :: "bytes \<Rightarrow> codec_error + metadata_command list" where
  "decode_batch bs = map_sum id fst (gbind check_version (\<lambda>_. gbind (get_u32 Corrupt) (\<lambda>count.
    gbind (get_many (unat count) get_command_body) (\<lambda>cs. gbind ensure_drained (\<lambda>_. gret cs)))) bs)"

text \<open>The one-byte stream state, shared with the snapshot codec.\<close>

fun state_byte :: "stream_state \<Rightarrow> u8" where
  "state_byte Closed = 0"
| "state_byte Opened = 1"

definition get_state :: "'e \<Rightarrow> ('e, stream_state) get" where
  "get_state corrupt = gbind (get_u8 corrupt) (\<lambda>b.
    if b = 0 then gret Closed else if b = 1 then gret Opened else gfail corrupt)"

fun encode_result :: "metadata_result \<Rightarrow> bytes" where
  "encode_result ResUnit = put_u8 codec_version @ put_u8 0"
| "encode_result (ResId i) = put_u8 codec_version @ put_u8 1 @ put_u64 i"
| "encode_result (ResCount n) = put_u8 codec_version @ put_u8 2 @ put_u64 n"
| "encode_result (ResStream m) = put_u8 codec_version @ put_u8 3 @ put_u64 (sm_stream_id m) @
    put_u64 (sm_epoch m) @ put_u64 (sm_start_offset m) @ put_u64 (sm_end_offset m) @
    put_u8 (state_byte (sm_state m)) @ put_i32 (sm_node_id m)"
| "encode_result (ResValue (Some v)) = put_u8 codec_version @ put_u8 5 @ put_u32 (of_nat (length v)) @ v"
| "encode_result (ResValue None) = put_u8 codec_version @ put_u8 6"

definition get_result :: "(codec_error, metadata_result) get" where
  "get_result = gbind (get_u8 Corrupt) (\<lambda>tag.
    if tag = 0 then gret ResUnit
    else if tag = 1 then gbind (get_u64 Corrupt) (\<lambda>i. gret (ResId i))
    else if tag = 2 then gbind (get_u64 Corrupt) (\<lambda>n. gret (ResCount n))
    else if tag = 3 then
      gbind (get_u64 Corrupt) (\<lambda>s. gbind (get_u64 Corrupt) (\<lambda>e. gbind (get_u64 Corrupt) (\<lambda>lo.
      gbind (get_u64 Corrupt) (\<lambda>hi. gbind (get_state Corrupt) (\<lambda>st. gbind (get_i32 Corrupt) (\<lambda>n.
      gret (ResStream \<lparr>sm_stream_id = s, sm_epoch = e, sm_start_offset = lo, sm_end_offset = hi,
        sm_state = st, sm_node_id = n\<rparr>)))))))
    else if tag = 5 then gbind (get_blob Corrupt) (\<lambda>v. gret (ResValue (Some v)))
    else if tag = 6 then gret (ResValue None)
    else gfail (UnknownResult tag))"

definition decode_result :: "bytes \<Rightarrow> codec_error + metadata_result" where
  "decode_result bs = map_sum id fst (gbind check_version (\<lambda>_. gbind get_result (\<lambda>r.
    gbind ensure_drained (\<lambda>_. gret r))) bs)"

text \<open>What can be written: Rust strings are UTF-8, lengths fit their 32-bit prefix.\<close>

fun command_ok :: "metadata_command \<Rightarrow> bool" where
  "command_ok (RegisterNode n e http slots addrs wal) \<longleftrightarrow> str_ok http \<and> str_map_ok addrs \<and> str_ok wal"
| "command_ok (CommitStreamSetObject p q now) \<longleftrightarrow>
    length (cr_stream_ranges q) < 2 ^ 32 \<and> length (cr_stream_objects q) < 2 ^ 32 \<and>
    length (cr_compacted_object_ids q) < 2 ^ 32"
| "command_ok (CompactStreamObject p q now) \<longleftrightarrow>
    length (kr_source_object_ids q) < 2 ^ 32 \<and> length (kr_operations q) < 2 ^ 32"
| "command_ok (CleanDestroyedObjects p ids) \<longleftrightarrow> length ids < 2 ^ 32"
| "command_ok (PutKv p key val) \<longleftrightarrow> str_ok key \<and> blob_ok val"
| "command_ok (PutKvIfAbsent p key val) \<longleftrightarrow> str_ok key \<and> blob_ok val"
| "command_ok (DeleteKv p key) \<longleftrightarrow> str_ok key"
| "command_ok (DeleteKvIfMatches p key expected) \<longleftrightarrow> str_ok key \<and> blob_ok expected"
| "command_ok (PutKvIfMatches p key expected val) \<longleftrightarrow> str_ok key \<and> blob_ok expected \<and> blob_ok val"
| "command_ok _ \<longleftrightarrow> True"

fun result_ok :: "metadata_result \<Rightarrow> bool" where
  "result_ok (ResValue (Some v)) \<longleftrightarrow> blob_ok v"
| "result_ok _ \<longleftrightarrow> True"

section \<open>The readers invert the writers\<close>

lemma vec_ok_True [simp]: "vec_ok (\<lambda>_. True) xs \<longleftrightarrow> length xs < 2 ^ 32"
  by (simp add: vec_ok_def list_all_iff)

lemma get_put_proposer [simp]: "get_proposer (put_proposer p @ rest) = Inr (p, rest)"
  by (simp add: get_proposer_def put_proposer_def gsimps)

lemma get_put_state [simp]: "get_state corrupt (put_u8 (state_byte st) @ rest) = Inr (st, rest)"
  by (cases st) (simp_all add: get_state_def gsimps)

interpretation wire_range: wire_codec put_stream_range get_stream_range "\<lambda>_. True"
  by unfold_locales (simp add: get_stream_range_def put_stream_range_def gsimps)

interpretation wire_split: wire_codec put_split_object get_split_object "\<lambda>_. True"
  by unfold_locales (simp add: get_split_object_def put_split_object_def gsimps)

interpretation wire_operation: wire_codec "\<lambda>op. put_u8 (operation_byte op)" "get_operation corrupt" "\<lambda>_. True"
    for corrupt
proof unfold_locales
  show "get_operation corrupt (put_u8 (operation_byte op) @ rest) = Inr (op, rest)" for op rest
    by (cases op) (simp_all add: get_operation_def gsimps)
qed

lemmas get_put_vecs [simp] =
  wire_u64.get_put_vec wire_range.get_put_vec wire_split.get_put_vec wire_operation.get_put_vec

lemma get_put_commit_request [simp]:
  "\<lbrakk>length (cr_stream_ranges q) < 2 ^ 32; length (cr_stream_objects q) < 2 ^ 32;
    length (cr_compacted_object_ids q) < 2 ^ 32\<rbrakk> \<Longrightarrow>
    get_commit_request (put_commit_request q @ rest) = Inr (q, rest)"
  by (simp add: get_commit_request_def put_commit_request_def gsimps)

lemma get_put_compact_request [simp]:
  "\<lbrakk>length (kr_source_object_ids q) < 2 ^ 32; length (kr_operations q) < 2 ^ 32\<rbrakk> \<Longrightarrow>
    get_compact_request (put_compact_request q @ rest) = Inr (q, rest)"
  by (simp add: get_compact_request_def put_compact_request_def gsimps)

interpretation wire_command: wire_codec put_command_body get_command_body command_ok
proof unfold_locales
  show "get_command_body (put_command_body c @ rest) = Inr (c, rest)" if "command_ok c" for c rest
  proof (cases c)
    case (PlaceStream p s n)
    then show ?thesis
      by (cases n) (simp_all add: get_command_body_def put_command_body_def get_command_fields_def gsimps)
  qed (use that in \<open>simp_all add: get_command_body_def put_command_body_def get_command_fields_def gsimps\<close>)
qed

lemma ext_proposer [ext_intros]: "extensible get_proposer"
  unfolding get_proposer_def by (intro ext_intros)

lemma ext_commit_request [ext_intros]: "extensible get_commit_request"
  unfolding get_commit_request_def get_stream_range_def get_split_object_def by (intro ext_intros)

lemma ext_compact_request [ext_intros]: "extensible get_compact_request"
  unfolding get_compact_request_def get_operation_def by (intro ext_intros)

lemma ext_command_fields [ext_intros]: "extensible (get_command_fields code p)"
  unfolding get_command_fields_def by (intro ext_intros)

lemma ext_command_body [ext_intros]: "extensible get_command_body"
  unfolding get_command_body_def by (intro ext_intros)

lemma ext_check_version [ext_intros]: "extensible check_version"
  unfolding check_version_def by (intro ext_intros)

lemma ext_get_state [ext_intros]: "extensible (get_state corrupt)"
  unfolding get_state_def by (intro ext_intros)

lemma ext_result [ext_intros]: "extensible get_result"
  unfolding get_result_def by (intro ext_intros)

section \<open>Whole encodings\<close>

text \<open>A decoder reads with \<open>g\<close> and refuses what is left.\<close>

definition whole :: "(codec_error, 'a) get \<Rightarrow> bytes \<Rightarrow> codec_error + 'a" where
  "whole g bs = rbind (g bs) (\<lambda>(x, rest). if rest = [] then Inr x else Inl Corrupt)"

lemma drained_whole:
  "map_sum id fst (gbind g (\<lambda>x. gbind ensure_drained (\<lambda>_. gret x)) bs) = whole g bs"
  by (auto simp: whole_def gsimps ensure_drained_def rbind_def split: sum.split)

lemma gbind_assoc: "gbind (gbind g f) h = gbind g (\<lambda>x. gbind (f x) h)"
  by (rule ext) (auto simp: gsimps rbind_def split: sum.split)

definition versioned :: "(codec_error, 'a) get \<Rightarrow> (codec_error, 'a) get" where
  "versioned g = gbind check_version (\<lambda>_. g)"

lemma decoders_whole:
  "decode_command = whole (versioned get_command_body)"
  "decode_batch = whole (versioned (get_vec Corrupt get_command_body))"
  "decode_result = whole (versioned get_result)"
  by (simp_all add: fun_eq_iff decode_command_def decode_batch_def decode_result_def versioned_def get_vec_def
    drained_whole [symmetric] gbind_assoc)

lemma encoders_versioned:
  "encode_command c = put_u8 codec_version @ put_command_body c"
  "encode_batch cs = put_u8 codec_version @ put_vec put_command_body cs"
  by (simp_all add: encode_command_def encode_batch_def put_vec_def)

lemma versioned_put [simp]: "versioned g (put_u8 codec_version @ bs) = g bs"
  by (simp add: versioned_def check_version_def gsimps)

lemma versioned_unknown: "v \<noteq> codec_version \<Longrightarrow> whole (versioned g) (put_u8 v @ bs) = Inl (UnsupportedVersion v)"
  by (simp add: whole_def versioned_def check_version_def gsimps)

lemma ext_versioned [ext_intros]: "extensible g \<Longrightarrow> extensible (versioned g)"
  unfolding versioned_def by (intro ext_intros)

lemma whole_Inr: "g bs = Inr (x, []) \<Longrightarrow> whole g bs = Inr x"
  by (simp add: whole_def)

lemma whole_trailing: "extensible g \<Longrightarrow> g bs = Inr (x, []) \<Longrightarrow> e \<noteq> [] \<Longrightarrow> whole g (bs @ e) = Inl Corrupt"
  by (simp add: whole_def extensibleD)

lemma whole_truncated:
  assumes "extensible g" "g bs = Inr (x, [])" "strict_prefix p bs"
  shows "\<exists>err. whole g p = Inl err"
proof -
  from assms(3) obtain e where "bs = p @ e" "e \<noteq> []"
    by (auto simp: strict_prefix_def prefix_def)
  with assms(1,2) have "g p \<noteq> Inr (y, [])" for y
    by (auto dest: extensible_no_prefix)
  then show ?thesis
    by (cases "g p") (auto simp: whole_def)
qed

lemma read_command: "command_ok c \<Longrightarrow> versioned get_command_body (encode_command c) = Inr (c, [])"
  using wire_command.get_put [of c "[]"] by (simp add: encoders_versioned)

lemma read_batch:
  "vec_ok command_ok cs \<Longrightarrow> versioned (get_vec Corrupt get_command_body) (encode_batch cs) = Inr (cs, [])"
  using wire_command.get_put_vec [of cs Corrupt "[]"] by (simp add: encoders_versioned)

lemma read_result: "result_ok r \<Longrightarrow> versioned get_result (encode_result r) = Inr (r, [])"
proof (induction r rule: encode_result.induct)
  case (5 v)
  then show ?case
    using get_put_blob [of v Corrupt "[]"] by (simp add: get_result_def gsimps put_blob_def)
next
  case (4 m)
  show ?case
    using get_put_ints(4) [of Corrupt "sm_node_id m" "[]"] by (simp add: get_result_def gsimps)
qed (use get_put_ints(1) [of Corrupt _ "[]"] get_put_ints(3) [of Corrupt _ "[]"] in
  \<open>simp_all add: get_result_def gsimps\<close>)

text \<open>The type bytes in use are exactly 1 to 24.\<close>

lemma type_codes: "(\<exists>c. type_code c = t) \<longleftrightarrow> 1 \<le> t \<and> t \<le> 24"
proof
  show "1 \<le> t \<and> t \<le> 24" if "\<exists>c. type_code c = t"
  proof -
    from that obtain c where "type_code c = t" ..
    then show ?thesis by (cases c) auto
  qed
next
  define used :: "metadata_command list" where
    "used = (let p = \<lparr>prop_node_id = 0, prop_node_epoch = 0\<rparr>; q = \<lparr>cr_object_id = 0, cr_object_size = 0,
        cr_attributes = 0, cr_stream_ranges = [], cr_stream_objects = [], cr_compacted_object_ids = []\<rparr>;
        k = \<lparr>kr_object_id = 0, kr_object_size = 0, kr_stream_id = 0, kr_stream_epoch = 0, kr_start_offset = 0,
          kr_end_offset = 0, kr_source_object_ids = [], kr_operations = [], kr_attributes = 0\<rparr>
      in [CreateStream p, OpenStream p 0 0, TrimStream p 0 0 0, CloseStream p 0 0, DeleteStream p 0 0,
        PrepareObject p 0 0 0, CommitStreamSetObject p q 0, CompactStreamObject p k 0,
        ExpirePreparedObjects p 0, RegisterNode 0 0 [] 0 oempty [], CleanDestroyedObjects p [], PutKv p [] [],
        PutKvIfAbsent p [] [], DeleteKv p [], TransferStream p 0 0 0, CompleteTransfer p 0 0, CreateStreams p 0,
        PlaceStream p 0 None, DeleteKvIfMatches p [] [], AllocateProducerIds p 0, PutKvIfMatches p [] [] [],
        Heartbeat p, FenceNode p 0 0 0, SetNodeSlots p 0 0])"
  assume t: "1 \<le> t \<and> t \<le> 24"
  have "map type_code used = map of_nat [1..<25]"
    by (simp add: used_def Let_def upt_rec)
  moreover have "t \<in> set (map of_nat [1..<25])"
    using t by (auto simp: image_iff word_le_nat_alt intro!: bexI [of _ "unat t"])
  ultimately have "t \<in> type_code ` set used"
    by (metis list.set_map)
  then show "\<exists>c. type_code c = t"
    by auto
qed

lemma unknown_type: "\<forall>c. type_code c \<noteq> t \<Longrightarrow> t = 0 \<or> 24 < t"
proof -
  assume "\<forall>c. type_code c \<noteq> t"
  then have "\<not> (1 \<le> t \<and> t \<le> 24)"
    using type_codes [of t] by blast
  then show ?thesis
    by (auto simp: not_le word_less_1)
qed

section \<open>Examples\<close>

definition demo_command :: metadata_command where
  "demo_command = PutKv \<lparr>prop_node_id = 1, prop_node_epoch = 2\<rparr> ''ab'' [7, 8]"

lemma demo_command_ok: "command_ok demo_command" "vec_ok command_ok [demo_command]"
  by (simp_all add: demo_command_def vec_ok_def str_ok_def blob_ok_def str_bytes_def)

lemma demo_command_bytes:
  "encode_command demo_command =
    [0, 12, 1, 0, 0, 0, 2, 0, 0, 0, 0, 0, 0, 0, 2, 0, 0, 0, 97, 98, 2, 0, 0, 0, 7, 8]"
  by (simp add: demo_command_def encode_command_def put_command_body_def put_proposer_def codec_version_def
    put_str_def put_blob_def put_u8_def put_u32_def put_i32_def put_i64_def str_bytes_def sword_eval
    le_bytes_unfold)

section \<open>Properties\<close>

text \<open>
  C22. Commands, batches and results survive the wire: decoding what was encoded gives the value back,
  for every value whose strings are UTF-8 and whose lengths fit their prefixes.
\<close>

theorem codec_round_trips:
  "(command_ok c \<longrightarrow> decode_command (encode_command c) = Inr c) \<and>
   (vec_ok command_ok cs \<longrightarrow> decode_batch (encode_batch cs) = Inr cs) \<and>
   (result_ok r \<longrightarrow> decode_result (encode_result r) = Inr r)"
  by (simp add: decoders_whole read_command read_batch read_result whole_Inr)

theorem codec_round_trips_witness:
  "decode_command [0, 12, 1, 0, 0, 0, 2, 0, 0, 0, 0, 0, 0, 0, 2, 0, 0, 0, 97, 98, 2, 0, 0, 0, 7, 8] =
      Inr (PutKv \<lparr>prop_node_id = 1, prop_node_epoch = 2\<rparr> ''ab'' [7, 8]) \<and>
    decode_batch (encode_batch [demo_command]) = Inr [demo_command] \<and>
    decode_result (encode_result (ResValue (Some [9]))) = Inr (ResValue (Some [9]))"
proof -
  have "result_ok (ResValue (Some [9]))"
    by (simp add: blob_ok_def)
  with codec_round_trips [of demo_command "[demo_command]" "ResValue (Some [9])"] demo_command_ok
  show ?thesis
    unfolding demo_command_bytes by (simp add: demo_command_def)
qed

text \<open>
  C23. The decoders refuse damaged input: a truncated command or batch, trailing bytes after one, a
  version byte other than the current one, and a command type that does not exist.
\<close>

theorem decoders_reject_damage:
  assumes "command_ok c" "vec_ok command_ok cs"
  shows "(strict_prefix p (encode_command c) \<longrightarrow> (\<exists>err. decode_command p = Inl err)) \<and>
    (strict_prefix p (encode_batch cs) \<longrightarrow> (\<exists>err. decode_batch p = Inl err)) \<and>
    (e \<noteq> [] \<longrightarrow> decode_command (encode_command c @ e) = Inl Corrupt \<and>
      decode_batch (encode_batch cs @ e) = Inl Corrupt) \<and>
    (v \<noteq> codec_version \<longrightarrow> decode_command (put_u8 v @ e) = Inl (UnsupportedVersion v) \<and>
      decode_batch (put_u8 v @ e) = Inl (UnsupportedVersion v)) \<and>
    ((\<forall>c'. type_code c' \<noteq> t) \<longrightarrow> decode_command (put_u8 codec_version @ put_u8 t @ e) = Inl (UnknownCommand t))"
proof (intro conjI impI)
  note ext = ext_intros
  show "\<exists>err. decode_command p = Inl err" if "strict_prefix p (encode_command c)"
    unfolding decoders_whole by (rule whole_truncated [where g = "versioned get_command_body", OF _ read_command [OF assms(1)] that]) (intro ext)
  show "\<exists>err. decode_batch p = Inl err" if "strict_prefix p (encode_batch cs)"
    unfolding decoders_whole by (rule whole_truncated [where g = "versioned (get_vec Corrupt get_command_body)", OF _ read_batch [OF assms(2)] that]) (intro ext)
  show "decode_command (encode_command c @ e) = Inl Corrupt" if "e \<noteq> []"
    unfolding decoders_whole by (rule whole_trailing [where g = "versioned get_command_body", OF _ read_command [OF assms(1)] that]) (intro ext)
  show "decode_batch (encode_batch cs @ e) = Inl Corrupt" if "e \<noteq> []"
    unfolding decoders_whole by (rule whole_trailing [where g = "versioned (get_vec Corrupt get_command_body)", OF _ read_batch [OF assms(2)] that]) (intro ext)
  show "decode_command (put_u8 v @ e) = Inl (UnsupportedVersion v)" if "v \<noteq> codec_version"
    unfolding decoders_whole by (rule versioned_unknown [OF that])
  show "decode_batch (put_u8 v @ e) = Inl (UnsupportedVersion v)" if "v \<noteq> codec_version"
    unfolding decoders_whole by (rule versioned_unknown [OF that])
  show "decode_command (put_u8 codec_version @ put_u8 t @ e) = Inl (UnknownCommand t)"
    if unknown: "\<forall>c'. type_code c' \<noteq> t"
    using unknown_type [OF unknown] unfolding decoders_whole
    by (auto simp: whole_def get_command_body_def gsimps)
qed

theorem decoders_reject_damage_witness:
  "(\<exists>err. decode_command [0, 12, 1] = Inl err) \<and>
    decode_command (encode_command demo_command @ [1]) = Inl Corrupt \<and>
    decode_command (put_u8 1 @ [1]) = Inl (UnsupportedVersion 1)"
  using decoders_reject_damage [OF demo_command_ok, of "[0, 12, 1]" "[1]" 1]
  by (simp add: demo_command_bytes codec_version_def)

end
