(* ===== verification/Meta_Snapshot.thy ===== *)
theory Meta_Snapshot
  imports Meta_Codec Meta_Inv
begin

text \<open>
  The snapshot codec of \<^verbatim>\<open>pico-metadata/src/snapshot.rs\<close>. A snapshot stores the primary
  maps and the counters; decoding rebuilds every secondary index and byte count by replaying the
  rows through the primitive updates of \<^verbatim>\<open>state.rs\<close>. That this gives the same state back
  rests on \<^theory_text>\<open>meta_inv_determines\<close>: the invariant fixes the derived fields.
\<close>

section \<open>Definitions\<close>

datatype snapshot_error = SnapUnsupportedVersion u8 | SnapCorrupt

definition snapshot_version :: u8 where "snapshot_version = 0"

subsection \<open>Rows\<close>

definition put_stream_row :: "stream_row \<Rightarrow> bytes" where
  "put_stream_row r = put_u64 (row_stream_id r) @ put_i64 (row_epoch r) @ put_u64 (row_start_offset r) @
    put_u64 (row_end_offset r) @ put_u8 (state_byte (row_state r)) @ put_i32 (row_node_id r)"

definition get_stream_row :: "(snapshot_error, stream_row) get" where
  "get_stream_row = gbind (get_u64 SnapCorrupt) (\<lambda>s. gbind (get_i64 SnapCorrupt) (\<lambda>e.
    gbind (get_u64 SnapCorrupt) (\<lambda>lo. gbind (get_u64 SnapCorrupt) (\<lambda>hi. gbind (get_state SnapCorrupt) (\<lambda>st.
    gbind (get_i32 SnapCorrupt) (\<lambda>n.
    gret \<lparr>row_stream_id = s, row_epoch = e, row_start_offset = lo, row_end_offset = hi, row_state = st,
      row_node_id = n, row_stored_bytes = 0\<rparr>))))))"

definition put_node_row :: "node_row \<Rightarrow> bytes" where
  "put_node_row n = put_i32 (nr_node_id n) @ put_i64 (nr_epoch n) @ put_str (nr_http_address n) @
    put_u32 (nr_slots n) @ put_str_map (nr_protocol_addresses n) @ put_str (nr_wal n) @
    put_u64 (nr_heartbeats n) @ put_u8 (if nr_fenced n then 1 else 0)"

definition get_node_row :: "(snapshot_error, node_row) get" where
  "get_node_row = gbind (get_i32 SnapCorrupt) (\<lambda>n. gbind (get_i64 SnapCorrupt) (\<lambda>e.
    gbind (get_str SnapCorrupt) (\<lambda>http. gbind (get_u32 SnapCorrupt) (\<lambda>slots.
    gbind (get_str_map SnapCorrupt) (\<lambda>addrs. gbind (get_str SnapCorrupt) (\<lambda>wal.
    gbind (get_u64 SnapCorrupt) (\<lambda>beats. gbind (get_u8 SnapCorrupt) (\<lambda>flag.
    if flag = 0 \<or> flag = 1 then
      gret \<lparr>nr_node_id = n, nr_epoch = e, nr_http_address = http, nr_slots = slots,
        nr_protocol_addresses = addrs, nr_wal = wal, nr_heartbeats = beats, nr_fenced = (flag = 1)\<rparr>
    else gfail SnapCorrupt))))))))"

definition put_prepared_row :: "u64 \<times> i64 \<Rightarrow> bytes" where
  "put_prepared_row = (\<lambda>(i, deadline). put_u64 i @ put_i64 deadline)"

definition get_prepared_row :: "(snapshot_error, u64 \<times> i64) get" where
  "get_prepared_row = gbind (get_u64 SnapCorrupt) (\<lambda>i. gbind (get_i64 SnapCorrupt) (\<lambda>deadline. gret (i, deadline)))"

definition put_offset_range :: "stream_offset_range \<Rightarrow> bytes" where
  "put_offset_range r = put_u64 (rng_stream_id r) @ put_u64 (rng_start_offset r) @ put_u64 (rng_end_offset r)"

definition get_offset_range :: "(snapshot_error, stream_offset_range) get" where
  "get_offset_range = gbind (get_u64 SnapCorrupt) (\<lambda>s. gbind (get_u64 SnapCorrupt) (\<lambda>lo.
    gbind (get_u64 SnapCorrupt) (\<lambda>hi. gret \<lparr>rng_stream_id = s, rng_start_offset = lo, rng_end_offset = hi\<rparr>)))"

definition put_object :: "s3_object_metadata \<Rightarrow> bytes" where
  "put_object x = put_u64 (obj_object_id x) @
    put_u8 (case obj_object_type x of StreamSet \<Rightarrow> 0 | StreamOnly \<Rightarrow> 1) @
    put_u64 (obj_object_size x) @ put_u32 (obj_attributes x) @ put_i64 (obj_committed_timestamp_ms x) @
    put_i64 (obj_data_timestamp_ms x) @ put_vec put_offset_range (obj_offset_ranges x)"

definition get_object :: "(snapshot_error, s3_object_metadata) get" where
  "get_object = gbind (get_u64 SnapCorrupt) (\<lambda>i. gbind (get_u8 SnapCorrupt) (\<lambda>t.
    if t = 0 \<or> t = 1 then
      gbind (get_u64 SnapCorrupt) (\<lambda>n. gbind (get_u32 SnapCorrupt) (\<lambda>a. gbind (get_i64 SnapCorrupt) (\<lambda>c.
      gbind (get_i64 SnapCorrupt) (\<lambda>d. gbind (get_vec SnapCorrupt get_offset_range) (\<lambda>ranges.
      gret \<lparr>obj_object_id = i, obj_object_type = (if t = 0 then StreamSet else StreamOnly),
        obj_offset_ranges = ranges, obj_object_size = n, obj_attributes = a,
        obj_committed_timestamp_ms = c, obj_data_timestamp_ms = d\<rparr>)))))
    else gfail SnapCorrupt))"

definition put_sso_row :: "stream_set_object_row \<Rightarrow> bytes" where
  "put_sso_row r = put_i32 (sso_node_id r) @ put_object (sso_object r) @
    concat (map put_u64 (sso_range_sizes r)) @ put_i64 (sso_last_write_ms r)"

definition get_sso_row :: "(snapshot_error, stream_set_object_row) get" where
  "get_sso_row = gbind (get_i32 SnapCorrupt) (\<lambda>n. gbind get_object (\<lambda>x.
    gbind (get_many (length (obj_offset_ranges x)) (get_u64 SnapCorrupt)) (\<lambda>sizes.
    gbind (get_i64 SnapCorrupt) (\<lambda>w.
    gret \<lparr>sso_node_id = n, sso_object = x, sso_range_sizes = sizes, sso_last_write_ms = w\<rparr>))))"

definition put_so_row :: "stream_object_row \<Rightarrow> bytes" where
  "put_so_row r = put_object (sor_object r) @ put_i64 (sor_last_write_ms r)"

definition get_so_row :: "(snapshot_error, stream_object_row) get" where
  "get_so_row = gbind get_object (\<lambda>x.
    if length (obj_offset_ranges x) \<noteq> 1 then gfail SnapCorrupt
    else gbind (get_i64 SnapCorrupt) (\<lambda>w. gret \<lparr>sor_object = x, sor_last_write_ms = w\<rparr>))"

definition put_destroyed_row :: "u64 \<times> u64 \<times> compact_operations \<Rightarrow> bytes" where
  "put_destroyed_row = (\<lambda>(seq, i, op). put_u64 seq @ put_u64 i @ put_u8 (operation_byte op))"

definition get_destroyed_row :: "(snapshot_error, u64 \<times> u64 \<times> compact_operations) get" where
  "get_destroyed_row = gbind (get_u64 SnapCorrupt) (\<lambda>seq. gbind (get_u64 SnapCorrupt) (\<lambda>i.
    gbind (get_operation SnapCorrupt) (\<lambda>op. gret (seq, i, op))))"

definition put_kv_entry :: "string \<times> bytes \<Rightarrow> bytes" where
  "put_kv_entry = (\<lambda>(key, v). put_str key @ put_u32 (of_nat (length v)) @ v)"

definition get_kv_entry :: "(snapshot_error, string \<times> bytes) get" where
  "get_kv_entry = gbind (get_str SnapCorrupt) (\<lambda>key. gbind (get_blob SnapCorrupt) (\<lambda>v. gret (key, v)))"

definition put_pending_row :: "u64 \<times> pending_transfer \<Rightarrow> bytes" where
  "put_pending_row = (\<lambda>(s, p). put_u64 s @ put_i32 (pt_from_node p) @ put_i32 (pt_to_node p))"

definition get_pending_row :: "(snapshot_error, u64 \<times> pending_transfer) get" where
  "get_pending_row = gbind (get_u64 SnapCorrupt) (\<lambda>s. gbind (get_i32 SnapCorrupt) (\<lambda>a.
    gbind (get_i32 SnapCorrupt) (\<lambda>b. gret (s, \<lparr>pt_from_node = a, pt_to_node = b\<rparr>))))"

definition put_epoch_row :: "(u64 \<times> i64) \<times> u64 \<Rightarrow> bytes" where
  "put_epoch_row = (\<lambda>((s, e), off). put_u64 s @ put_i64 e @ put_u64 off)"

definition get_epoch_row :: "(snapshot_error, (u64 \<times> i64) \<times> u64) get" where
  "get_epoch_row = gbind (get_u64 SnapCorrupt) (\<lambda>s. gbind (get_i64 SnapCorrupt) (\<lambda>e.
    gbind (get_u64 SnapCorrupt) (\<lambda>off. gret ((s, e), off))))"

subsection \<open>Whole snapshots\<close>

definition encode :: "metadata_state \<Rightarrow> bytes" where
  "encode st = put_u8 snapshot_version @
    put_u64 (next_stream_id st) @ put_rows put_stream_row (ovals (streams st)) @
    put_rows put_node_row (ovals (nodes st)) @
    put_u64 (next_producer_id st) @
    put_u64 (next_object_id st) @ put_rows put_prepared_row (oentries (prepared st)) @
    put_rows put_sso_row (ovals (stream_set_objects st)) @
    put_rows put_so_row (ovals (stream_objects st)) @
    put_rows put_destroyed_row (oentries (mark_destroyed st)) @ put_u64 (next_destroyed_seq st) @
    put_rows put_kv_entry (oentries (kv st)) @
    put_rows put_pending_row (oentries (pending_transfers st)) @
    put_rows put_epoch_row (oentries (epochs st))"

definition insert_node :: "metadata_state \<Rightarrow> node_row \<Rightarrow> metadata_state" where
  "insert_node st n = st\<lparr>nodes := oput (nr_node_id n) n (nodes st)\<rparr>"

definition insert_pending :: "metadata_state \<Rightarrow> u64 \<times> pending_transfer \<Rightarrow> metadata_state" where
  "insert_pending st x = st\<lparr>pending_transfers := oput (fst x) (snd x) (pending_transfers st)\<rparr>"

definition insert_epoch :: "metadata_state \<Rightarrow> (u64 \<times> i64) \<times> u64 \<Rightarrow> metadata_state" where
  "insert_epoch st x = st\<lparr>epochs := oput (fst x) (snd x) (epochs st)\<rparr>"

definition get_body :: "(snapshot_error, metadata_state) get" where
  "get_body = gbind (get_u64 SnapCorrupt) (\<lambda>n.
    gbind (get_rows SnapCorrupt put_stream get_stream_row (new_state\<lparr>next_stream_id := n\<rparr>)) (\<lambda>st.
    gbind (get_rows SnapCorrupt insert_node get_node_row st) (\<lambda>st.
    gbind (get_u64 SnapCorrupt) (\<lambda>n. gbind (gret (st\<lparr>next_producer_id := n\<rparr>)) (\<lambda>st.
    gbind (get_u64 SnapCorrupt) (\<lambda>n. gbind (gret (st\<lparr>next_object_id := n\<rparr>)) (\<lambda>st.
    gbind (get_rows SnapCorrupt (\<lambda>st (i, d). put_prepared st i d) get_prepared_row st) (\<lambda>st.
    gbind (get_rows SnapCorrupt put_stream_set_object get_sso_row st) (\<lambda>st.
    gbind (get_rows SnapCorrupt put_stream_object get_so_row st) (\<lambda>st.
    gbind (get_rows SnapCorrupt (\<lambda>st (q, i, op). put_destroyed st q i op) get_destroyed_row st) (\<lambda>st.
    gbind (get_u64 SnapCorrupt) (\<lambda>n. gbind (gret (st\<lparr>next_destroyed_seq := n\<rparr>)) (\<lambda>st.
    gbind (get_rows SnapCorrupt (\<lambda>st (k, v). put_kv_row st k v) get_kv_entry st) (\<lambda>st.
    gbind (get_rows SnapCorrupt insert_pending get_pending_row st) (\<lambda>st.
    get_rows SnapCorrupt insert_epoch get_epoch_row st)))))))))))))))"

definition decode :: "bytes \<Rightarrow> snapshot_error + metadata_state" where
  "decode bs = rbind (get_u8 SnapCorrupt bs) (\<lambda>(version, bs).
    if version \<noteq> snapshot_version then Inl (SnapUnsupportedVersion version)
    else rbind (get_body bs) (\<lambda>(st, bs). if bs \<noteq> [] then Inl SnapCorrupt else Inr st))"

text \<open>What can be stored: Rust strings are UTF-8, and every length and count fits its prefix.\<close>

definition node_ok :: "node_row \<Rightarrow> bool" where
  "node_ok n \<longleftrightarrow> str_ok (nr_http_address n) \<and> str_map_ok (nr_protocol_addresses n) \<and> str_ok (nr_wal n)"

definition rows_ok :: "metadata_state \<Rightarrow> bool" where
  "rows_ok st \<longleftrightarrow> list_all node_ok (ovals (nodes st)) \<and>
    list_all (\<lambda>r. length (obj_offset_ranges (sso_object r)) < 2 ^ 32) (ovals (stream_set_objects st)) \<and>
    list_all (\<lambda>(k, v). str_ok k \<and> blob_ok v) (oentries (kv st))"

definition counts_ok :: "metadata_state \<Rightarrow> bool" where
  "counts_ok st \<longleftrightarrow> list_all (\<lambda>n. n < 2 ^ 64)
    [osize (streams st), osize (nodes st), osize (prepared st), osize (stream_set_objects st),
     osize (stream_objects st), osize (mark_destroyed st), osize (kv st), osize (pending_transfers st),
     osize (epochs st)]"

section \<open>Row codecs\<close>

interpretation snap_stream: wire_codec put_stream_row get_stream_row "\<lambda>r. row_stored_bytes r = 0"
  by unfold_locales (simp add: put_stream_row_def get_stream_row_def gsimps)

interpretation snap_node: wire_codec put_node_row get_node_row node_ok
  by unfold_locales (auto simp: put_node_row_def get_node_row_def node_ok_def gsimps)

interpretation snap_prepared: wire_codec put_prepared_row get_prepared_row "\<lambda>_. True"
  by unfold_locales (auto simp: put_prepared_row_def get_prepared_row_def gsimps)

interpretation snap_range: wire_codec put_offset_range get_offset_range "\<lambda>_. True"
  by unfold_locales (simp add: put_offset_range_def get_offset_range_def gsimps)

lemma get_put_object:
  "length (obj_offset_ranges x) < 2 ^ 32 \<Longrightarrow> get_object (put_object x @ rest) = Inr (x, rest)"
  by (cases "obj_object_type x") (auto simp: put_object_def get_object_def gsimps snap_range.get_put_vec)

interpretation snap_sso: wire_codec put_sso_row get_sso_row
    "\<lambda>r. length (obj_offset_ranges (sso_object r)) < 2 ^ 32 \<and>
      length (sso_range_sizes r) = length (obj_offset_ranges (sso_object r))"
proof unfold_locales
  fix r :: stream_set_object_row and rest
  assume ok: "length (obj_offset_ranges (sso_object r)) < 2 ^ 32 \<and>
      length (sso_range_sizes r) = length (obj_offset_ranges (sso_object r))"
  have "get_many (length (obj_offset_ranges (sso_object r))) (get_u64 SnapCorrupt)
      (concat (map put_u64 (sso_range_sizes r)) @ rest') = Inr (sso_range_sizes r, rest')" for rest'
    using ok wire_u64.get_many_put [of "sso_range_sizes r"] by simp
  with ok show "get_sso_row (put_sso_row r @ rest) = Inr (r, rest)"
    by (simp add: put_sso_row_def get_sso_row_def gsimps get_put_object)
qed

interpretation snap_so: wire_codec put_so_row get_so_row "\<lambda>r. length (obj_offset_ranges (sor_object r)) = 1"
  by unfold_locales (simp add: put_so_row_def get_so_row_def gsimps get_put_object)

interpretation snap_destroyed: wire_codec put_destroyed_row get_destroyed_row "\<lambda>_. True"
  by unfold_locales (auto simp: put_destroyed_row_def get_destroyed_row_def gsimps wire_operation.get_put)

interpretation snap_kv: wire_codec put_kv_entry get_kv_entry "\<lambda>(k, v). str_ok k \<and> blob_ok v"
proof unfold_locales
  fix x rest
  assume ok: "case x of (k, v) \<Rightarrow> str_ok k \<and> blob_ok v"
  obtain k v where x: "x = (k, v)"
    by (cases x)
  have "put_kv_entry x @ rest = put_str k @ put_blob v @ rest"
    by (simp add: x put_kv_entry_def put_blob_def)
  with ok x show "get_kv_entry (put_kv_entry x @ rest) = Inr (x, rest)"
    by (simp add: get_kv_entry_def gsimps)
qed

interpretation snap_pending: wire_codec put_pending_row get_pending_row "\<lambda>_. True"
  by unfold_locales (auto simp: put_pending_row_def get_pending_row_def gsimps)

interpretation snap_epoch: wire_codec put_epoch_row get_epoch_row "\<lambda>_. True"
  by unfold_locales (auto simp: put_epoch_row_def get_epoch_row_def gsimps)

section \<open>Replaying rows\<close>

text \<open>A fold of insertions, seen through a lookup: the inserted keys show the rows, the others what was there.\<close>

lemma fold_view:
  assumes "P s" and "\<And>x s. x \<in> set xs \<Longrightarrow> P s \<Longrightarrow> P (f x s)"
    and step: "\<And>x s k. x \<in> set xs \<Longrightarrow> P s \<Longrightarrow> view (f x s) k = (if k = key x then Some (val x) else view s k)"
    and "\<And>x. x \<in> set xs \<Longrightarrow> m (key x) = Some (val x)"
  shows "view (fold f xs s) k = (if k \<in> key ` set xs then m k else view s k)"
  using assms
proof (induction xs arbitrary: s)
  case (Cons x xs)
  have "P (f x s)"
    using Cons.prems by simp
  then have "view (fold f xs (f x s)) k = (if k \<in> key ` set xs then m k else view (f x s) k)"
    by (rule Cons.IH) (use Cons.prems in auto)
  then show ?case
    using Cons.prems(1) Cons.prems(3) [of x s k] Cons.prems(4) [of x] by auto
qed simp

lemma fold_proj: "(\<And>x s. p (f x s) = p s) \<Longrightarrow> p (fold f xs s) = p s"
  by (induction xs arbitrary: s) simp_all

lemma fold_sel: "(\<And>x s. sel (f x s) = g x (sel s)) \<Longrightarrow> sel (fold f xs s) = fold g xs (sel s)"
  by (induction xs arbitrary: s) simp_all

text \<open>Replaying the rows of a map into the empty one gives the map back.\<close>

lemma fold_oput_rows:
  assumes "\<And>x. x \<in> set xs \<Longrightarrow> oget m (key x) = Some (val x)"
    and "\<And>k v. oget m k = Some v \<Longrightarrow> k \<in> key ` set xs"
  shows "fold (\<lambda>x. oput (key x) (val x)) xs oempty = m"
proof (rule omap_eqI)
  fix k
  have "oget (fold (\<lambda>x. oput (key x) (val x)) xs oempty) k =
      (if k \<in> key ` set xs then oget m k else oget oempty k)"
    by (rule fold_view [where P = "\<lambda>_. True"]) (use assms(1) in auto)
  then show "oget (fold (\<lambda>x. oput (key x) (val x)) xs oempty) k = oget m k"
    using assms(2) [of k] by (cases "oget m k") auto
qed

lemma in_oentries: "x \<in> set (oentries m) \<longleftrightarrow> oget m (fst x) = Some (snd x)"
  using om.in_entries_iff [of "fst x" "snd x" m] by simp

lemma in_ovals: "r \<in> set (ovals m) \<longleftrightarrow> (\<exists>k. oget m k = Some r)"
  by (simp add: image_iff Bex_def in_oentries split_paired_Ex)

lemma fold_oput_ovals:
  assumes "\<And>k r. oget m k = Some r \<Longrightarrow> key r = k"
  shows "fold (\<lambda>r. oput (key r) r) (ovals m) oempty = m"
proof (rule fold_oput_rows)
  show "oget m (key r) = Some r" if "r \<in> set (ovals m)" for r
    using that assms unfolding in_ovals by blast
  show "k \<in> key ` set (ovals m)" if "oget m k = Some r" for k r
    using that assms by (metis image_eqI in_ovals)
qed

lemma fold_oput_entries: "fold (\<lambda>x. oput (fst x) (snd x)) (oentries m) oempty = m"
  by (rule fold_oput_rows) (simp_all add: in_oentries image_iff Bex_def split_paired_Ex)

lemma fold_insert_node: "fold (\<lambda>x s. insert_node s x) xs s = s\<lparr>nodes := fold (\<lambda>r. oput (nr_node_id r) r) xs (nodes s)\<rparr>"
  by (induction xs arbitrary: s) (simp_all add: insert_node_def)

lemma fold_insert_pending:
  "fold (\<lambda>x s. insert_pending s x) xs s =
    s\<lparr>pending_transfers := fold (\<lambda>x. oput (fst x) (snd x)) xs (pending_transfers s)\<rparr>"
  by (induction xs arbitrary: s) (simp_all add: insert_pending_def)

lemma fold_insert_epoch:
  "fold (\<lambda>x s. insert_epoch s x) xs s = s\<lparr>epochs := fold (\<lambda>x. oput (fst x) (snd x)) xs (epochs s)\<rparr>"
  by (induction xs arbitrary: s) (simp_all add: insert_epoch_def)

lemma fold_put_prepared:
  "fold (\<lambda>x s. case x of (i, d) \<Rightarrow> put_prepared s i d) xs s =
    s\<lparr>prepared := fold (\<lambda>x. oput (fst x) (snd x)) xs (prepared s),
      prepared_by_deadline := fold (\<lambda>x. oput (snd x, fst x) ()) xs (prepared_by_deadline s)\<rparr>"
  by (induction xs arbitrary: s) (auto simp: put_prepared_def)

lemma fold_put_destroyed:
  "fold (\<lambda>x s. case x of (q, i, op) \<Rightarrow> put_destroyed s q i op) xs s =
    s\<lparr>mark_destroyed := fold (\<lambda>x. oput (fst x) (snd x)) xs (mark_destroyed s),
      destroyed_by_id := fold (\<lambda>x. oput (fst (snd x)) (fst x)) xs (destroyed_by_id s)\<rparr>"
  by (induction xs arbitrary: s) (auto simp: put_destroyed_def)

lemma fold_put_kv:
  "kv (fold (\<lambda>x s. case x of (k, v) \<Rightarrow> put_kv_row s k v) xs s) = fold (\<lambda>x. oput (fst x) (snd x)) xs (kv s)"
  by (induction xs arbitrary: s) (auto simp: put_kv_row_def Let_def)

lemma rebuild_deadlines:
  assumes "meta_inv st"
  shows "fold (\<lambda>x. oput (snd x, fst x) ()) (oentries (prepared st)) oempty = prepared_by_deadline st"
proof (rule fold_oput_rows)
  have p: "ohas (prepared_by_deadline st) (d, i) \<longleftrightarrow> oget (prepared st) i = Some d" for d i
    using assms by (simp add: meta_inv_def inv_prepared_def)
  show "oget (prepared_by_deadline st) (snd x, fst x) = Some ()" if "x \<in> set (oentries (prepared st))" for x
    using that p [of "snd x" "fst x"] by (auto simp: in_oentries ohas_def)
  show "k \<in> (\<lambda>x. (snd x, fst x)) ` set (oentries (prepared st))" if "oget (prepared_by_deadline st) k = Some v" for k v
    using that p [of "fst k" "snd k"]
    by (auto simp: in_oentries ohas_def image_iff Bex_def split_paired_Ex) (metis prod.collapse)
qed

lemma rebuild_destroyed:
  assumes "meta_inv st"
  shows "fold (\<lambda>x. oput (fst (snd x)) (fst x)) (oentries (mark_destroyed st)) oempty = destroyed_by_id st"
proof (rule fold_oput_rows)
  have d: "oget (destroyed_by_id st) i = Some q \<longleftrightarrow> (\<exists>op. oget (mark_destroyed st) q = Some (i, op))" for i q
    using assms by (simp add: meta_inv_def inv_destroyed_def)
  show "oget (destroyed_by_id st) (fst (snd x)) = Some (fst x)" if "x \<in> set (oentries (mark_destroyed st))" for x
    using that unfolding d in_oentries by (metis prod.collapse)
  show "k \<in> (\<lambda>x. fst (snd x)) ` set (oentries (mark_destroyed st))" if "oget (destroyed_by_id st) k = Some v" for k v
    using that unfolding d by (auto simp: in_oentries image_iff Bex_def split_paired_Ex)
qed

subsection \<open>Stream rows\<close>

definition but_streams :: "metadata_state \<Rightarrow> metadata_state" where
  "but_streams s = s\<lparr>streams := oempty, opening_by_node := oempty, placed_by_node := oempty,
    streams_by_node := oempty\<rparr>"

abbreviation bare_rows :: "metadata_state \<Rightarrow> u64 \<Rightarrow> stream_row option" where
  "bare_rows s k \<equiv> map_option bare (oget (streams s) k)"

lemma bare_idem [simp]: "bare (bare r) = bare r" "row_stream_id (bare r) = row_stream_id r"
    "row_stored_bytes (bare r) = 0"
  by (simp_all add: bare_def)

lemma bare_stored_row [simp]: "bare (stored_row s r) = bare r"
  by (simp add: stored_row_def bare_def)

lemma bare_put_stream:
  "bare_rows (put_stream s r) k = (if k = row_stream_id r then Some (bare r) else bare_rows s k)"
  by simp

lemma load_streams:
  assumes inv: "meta_inv st"
  defines "t \<equiv> fold (\<lambda>r s. put_stream s r) (map bare (ovals (streams st))) (new_state\<lparr>next_stream_id := next_stream_id st\<rparr>)"
  shows "meta_inv t" and "but_streams t = new_state\<lparr>next_stream_id := next_stream_id st\<rparr>"
    and "bare_rows t k = bare_rows st k"
proof -
  let ?s = "new_state\<lparr>next_stream_id := next_stream_id st\<rparr>"
  have rows: "row_stream_id r = s" "s < next_stream_id st" if "oget (streams st) s = Some r" for s r
    using inv that by (auto simp: meta_inv_def inv_streams_def idx_ok_def)
  define P where "P s \<longleftrightarrow> meta_inv s \<and> next_stream_id s = next_stream_id st \<and>
    stream_set_objects s = oempty \<and> stream_objects s = oempty" for s
  have init: "P ?s"
    by (simp add: P_def meta_inv_def inv_streams_def idx_ok_def meta_inv_defs new_state_def)
  have step: "P (put_stream s r)" if "r \<in> set (map bare (ovals (streams st)))" "P s" for r s
  proof -
    from that(1) obtain q where "r = bare q" "oget (streams st) (row_stream_id q) = Some q"
      using rows(1) unfolding set_map [of bare] in_ovals image_iff Bex_def by metis
    then show ?thesis
      using that(2) rows(2) by (auto simp: P_def stream_bytes_def intro!: meta_inv_put_stream)
  qed
  show "meta_inv t"
  proof -
    have "P t"
      unfolding t_def by (rule fold_invariant_list [where P = P]) (fact init, rule step)
    then show ?thesis by (simp add: P_def)
  qed
  have "but_streams t = but_streams ?s"
    unfolding t_def
    by (rule fold_proj) (subst put_stream_frame, simp add: but_streams_def)
  then show "but_streams t = ?s"
    by (simp add: but_streams_def new_state_def)
  have "bare_rows t k = (if k \<in> row_stream_id ` set (map bare (ovals (streams st))) then bare_rows st k else bare_rows ?s k)"
    unfolding t_def
  proof (rule fold_view [where P = "\<lambda>_. True" and val = "bare"])
    show "bare_rows st (row_stream_id r) = Some (bare r)" if "r \<in> set (map bare (ovals (streams st)))" for r
      using that rows(1) unfolding set_map [of bare] in_ovals image_iff Bex_def by auto
  qed (simp_all add: bare_put_stream)
  moreover have "k \<in> row_stream_id ` set (map bare (ovals (streams st)))" if "oget (streams st) k = Some r" for r
    using rows(1) [OF that] that unfolding set_map [of bare] image_image image_iff Bex_def in_ovals
    by (auto intro: exI [of _ r])
  ultimately show "bare_rows t k = bare_rows st k"
    by (cases "oget (streams st) k") (auto simp: new_state_def)
qed

lemma but_streamsD:
  assumes "but_streams s = but_streams t"
  shows "next_stream_id s = next_stream_id t"
    "nodes s = nodes t"
    "pending_transfers s = pending_transfers t"
    "epochs s = epochs t"
    "next_producer_id s = next_producer_id t"
    "next_object_id s = next_object_id t"
    "prepared s = prepared t"
    "prepared_by_deadline s = prepared_by_deadline t"
    "stream_set_objects s = stream_set_objects t"
    "sso_ranges s = sso_ranges t"
    "sso_by_node s = sso_by_node t"
    "stream_objects s = stream_objects t"
    "stream_object_ids s = stream_object_ids t"
    "mark_destroyed s = mark_destroyed t"
    "destroyed_by_id s = destroyed_by_id t"
    "next_destroyed_seq s = next_destroyed_seq t"
    "kv s = kv t"
    "kv_bytes s = kv_bytes t"
    "stored_bytes s = stored_bytes t"
  using arg_cong [OF assms, of next_stream_id]
    arg_cong [OF assms, of nodes]
    arg_cong [OF assms, of pending_transfers]
    arg_cong [OF assms, of epochs]
    arg_cong [OF assms, of next_producer_id]
    arg_cong [OF assms, of next_object_id]
    arg_cong [OF assms, of prepared]
    arg_cong [OF assms, of prepared_by_deadline]
    arg_cong [OF assms, of stream_set_objects]
    arg_cong [OF assms, of sso_ranges]
    arg_cong [OF assms, of sso_by_node]
    arg_cong [OF assms, of stream_objects]
    arg_cong [OF assms, of stream_object_ids]
    arg_cong [OF assms, of mark_destroyed]
    arg_cong [OF assms, of destroyed_by_id]
    arg_cong [OF assms, of next_destroyed_seq]
    arg_cong [OF assms, of kv]
    arg_cong [OF assms, of kv_bytes]
    arg_cong [OF assms, of stored_bytes]
  by (simp_all add: but_streams_def)

subsection \<open>Objects\<close>

definition but_objects :: "metadata_state \<Rightarrow> metadata_state" where
  "but_objects s = s\<lparr>stream_set_objects := oempty, sso_ranges := oempty, streams := oempty, stored_bytes := 0,
    sso_by_node := oempty, stream_objects := oempty, stream_object_ids := oempty\<rparr>"

lemma but_objectsD:
  assumes "but_objects s = but_objects t"
  shows "next_stream_id s = next_stream_id t"
    "nodes s = nodes t"
    "opening_by_node s = opening_by_node t"
    "placed_by_node s = placed_by_node t"
    "streams_by_node s = streams_by_node t"
    "pending_transfers s = pending_transfers t"
    "epochs s = epochs t"
    "next_producer_id s = next_producer_id t"
    "next_object_id s = next_object_id t"
    "prepared s = prepared t"
    "prepared_by_deadline s = prepared_by_deadline t"
    "mark_destroyed s = mark_destroyed t"
    "destroyed_by_id s = destroyed_by_id t"
    "next_destroyed_seq s = next_destroyed_seq t"
    "kv s = kv t"
    "kv_bytes s = kv_bytes t"
  using arg_cong [OF assms, of next_stream_id]
    arg_cong [OF assms, of nodes]
    arg_cong [OF assms, of opening_by_node]
    arg_cong [OF assms, of placed_by_node]
    arg_cong [OF assms, of streams_by_node]
    arg_cong [OF assms, of pending_transfers]
    arg_cong [OF assms, of epochs]
    arg_cong [OF assms, of next_producer_id]
    arg_cong [OF assms, of next_object_id]
    arg_cong [OF assms, of prepared]
    arg_cong [OF assms, of prepared_by_deadline]
    arg_cong [OF assms, of mark_destroyed]
    arg_cong [OF assms, of destroyed_by_id]
    arg_cong [OF assms, of next_destroyed_seq]
    arg_cong [OF assms, of kv]
    arg_cong [OF assms, of kv_bytes]
  by (simp_all add: but_objects_def)

lemma but_objects_put [simp]:
  "but_objects (put_stream_set_object s r) = but_objects s"
  "but_objects (put_stream_object s q) = but_objects s"
  by (subst put_sso_frame, simp add: but_objects_def) (subst put_so_frame, simp add: but_objects_def)

lemma bare_add_bytes [simp]: "bare (add_bytes b r) = bare r"
  by (simp add: bare_def add_bytes_def)

lemma bare_bump: "map_option bare (oget (bump_bytes s b m) k) = map_option bare (oget m k)"
  by (auto simp: oget_bump_bytes option.map_comp comp_def)

lemma bare_rows_bytes [simp]:
  "bare_rows (add_stream_bytes s i b) k = bare_rows s k"
  "bare_rows (remove_stream_bytes s i b) k = bare_rows s k"
  by (simp_all add: add_stream_bytes_eq remove_stream_bytes_eq bare_bump)

lemma bare_rows_fold:
  "(\<And>x s. bare_rows (f x s) k = bare_rows s k) \<Longrightarrow> bare_rows (fold f xs s) k = bare_rows s k"
  by (rule fold_proj [where p = "\<lambda>s. bare_rows s k"])

lemma bare_rows_objects [simp]:
  "bare_rows (put_stream_set_object s r) k = bare_rows s k"
  "bare_rows (put_stream_object s q) k = bare_rows s k"
proof -
  have "bare_rows (remove_stream_set_object s i) k = bare_rows s k" for i s
    by (auto simp: remove_stream_set_object_def Let_def bare_rows_fold case_prod_unfold split: option.split)
  then show "bare_rows (put_stream_set_object s r) k = bare_rows s k"
    by (simp add: put_stream_set_object_def Let_def bare_rows_fold case_prod_unfold)
  have "bare_rows (remove_stream_object s i) k = bare_rows s k" for i s
    by (auto simp: remove_stream_object_def Let_def split: option.split)
  then show "bare_rows (put_stream_object s q) k = bare_rows s k"
    by (simp add: put_stream_object_def Let_def)
qed

lemma load_sso:
  assumes inv: "meta_inv st" and s: "meta_inv s" "next_stream_id s = next_stream_id st"
    "stream_set_objects s = oempty" "stream_object_ids s = oempty"
  defines "t \<equiv> fold (\<lambda>r s. put_stream_set_object s r) (ovals (stream_set_objects st)) s"
  shows "meta_inv t" and "but_objects t = but_objects s" and "bare_rows t k = bare_rows s k"
    and "stream_set_objects t = stream_set_objects st"
    and "stream_objects t = stream_objects s" and "stream_object_ids t = stream_object_ids s"
proof -
  have rows: "obj_object_id (sso_object r) = i"
      "length (sso_range_sizes r) = length (obj_offset_ranges (sso_object r))"
      "\<forall>g \<in> set (obj_offset_ranges (sso_object r)). rng_stream_id g < next_stream_id st"
    if "oget (stream_set_objects st) i = Some r" for i r
    using inv that by (auto simp: meta_inv_def inv_sso_def)
  define P where "P s \<longleftrightarrow> meta_inv s \<and> next_stream_id s = next_stream_id st \<and> stream_object_ids s = oempty" for s
  have "P t"
    unfolding t_def
  proof (rule fold_invariant_list [where P = P])
    show "P s"
      using s by (simp add: P_def)
    show "P (put_stream_set_object u r)" if "r \<in> set (ovals (stream_set_objects st))" "P u" for r u
      using that rows unfolding in_ovals P_def by (auto simp: sso_row_ok_def intro!: meta_inv_put_sso)
  qed
  then show "meta_inv t"
    by (simp add: P_def)
  show "but_objects t = but_objects s" "bare_rows t k = bare_rows s k"
      "stream_objects t = stream_objects s" "stream_object_ids t = stream_object_ids s"
    unfolding t_def
    by (rule fold_proj; simp) (rule bare_rows_fold, simp, (rule fold_proj; simp)+)
  have "stream_set_objects t = fold (\<lambda>r. oput (obj_object_id (sso_object r)) r) (ovals (stream_set_objects st)) oempty"
    unfolding t_def s(3) [symmetric] by (rule fold_sel) simp
  then show "stream_set_objects t = stream_set_objects st"
    using fold_oput_ovals [where m = "stream_set_objects st" and key = "\<lambda>r. obj_object_id (sso_object r)"] rows(1)
    by metis
qed

lemma load_so:
  assumes inv: "meta_inv st" and s: "meta_inv s" "next_stream_id s = next_stream_id st"
    "stream_set_objects s = stream_set_objects st" "stream_objects s = oempty" "stream_object_ids s = oempty"
  defines "t \<equiv> fold (\<lambda>r s. put_stream_object s r) (ovals (stream_objects st)) s"
  shows "meta_inv t" and "but_objects t = but_objects s" and "bare_rows t k = bare_rows s k"
    and "stream_set_objects t = stream_set_objects st" and "stream_objects t = stream_objects st"
proof -
  note rows = so_row_facts [OF inv]
  have free: "\<not> ohas (stream_set_objects st) (obj_object_id (sor_object r))"
    if "oget (stream_objects st) k = Some r" for k r
    using inv rows(2,3) [OF that] by (auto simp: meta_inv_def inv_disjoint_def so_key_def ohas_def)
  define P where "P s \<longleftrightarrow> meta_inv s \<and> next_stream_id s = next_stream_id st \<and>
    stream_set_objects s = stream_set_objects st \<and>
    (\<forall>i k. oget (stream_object_ids s) i = Some k \<longrightarrow> oget (stream_object_ids st) i = Some k)" for s
  have init: "P s"
    using s by (simp add: P_def)
  have step: "P (put_stream_object u r)" if "r \<in> set (ovals (stream_objects st))" "P u" for r u
  proof -
    from that(1) obtain k where k: "oget (stream_objects st) k = Some r"
      unfolding in_ovals by blast
    have "so_row_ok u r"
      using rows [OF k] free [OF k] that(2) by (auto simp: so_row_ok_def P_def so_key_def)
    then show ?thesis
      using that(2) rows [OF k] by (auto simp: P_def so_key_def intro!: meta_inv_put_so)
  qed
  have "P t"
    unfolding t_def by (rule fold_invariant_list [where P = P]) (fact init, rule step)
  then show "meta_inv t" "stream_set_objects t = stream_set_objects st"
    by (simp_all add: P_def)
  show "but_objects t = but_objects s" "bare_rows t k = bare_rows s k"
    unfolding t_def by (rule fold_proj; simp) (rule bare_rows_fold, simp)
  show "stream_objects t = stream_objects st"
  proof (rule omap_eqI)
    fix k
    have "oget (stream_objects t) k = (if k \<in> so_key ` set (ovals (stream_objects st))
        then oget (stream_objects st) k else oget (stream_objects s) k)"
      unfolding t_def
    proof (rule fold_view [where P = P and val = "\<lambda>r. r" and view = "\<lambda>s. oget (stream_objects s)"])
      fix r u k'
      assume r: "r \<in> set (ovals (stream_objects st))" and u: "P u"
      then obtain l where l: "oget (stream_objects st) l = Some r"
        unfolding in_ovals by blast
      have "oget (stream_objects (remove_stream_object u (obj_object_id (sor_object r)))) k' =
          oget (stream_objects u) k'" if "k' \<noteq> so_key r"
      proof (cases "oget (stream_object_ids u) (obj_object_id (sor_object r))")
        case None
        then show ?thesis by (simp add: remove_stream_object_def)
      next
        case (Some q)
        with u have "oget (stream_object_ids st) (obj_object_id (sor_object r)) = Some q"
          unfolding P_def by blast
        then have "q = so_key r"
          using rows(2,3) [OF l] by (auto simp: so_key_def)
        with Some that show ?thesis
          by (auto simp: remove_stream_object_def Let_def remove_stream_bytes_eq split: option.split)
      qed
      then show "oget (stream_objects (put_stream_object u r)) k' =
          (if k' = so_key r then Some r else oget (stream_objects u) k')"
        by (subst put_so_frame) simp
    next
      show "oget (stream_objects st) (so_key r) = Some r" if "r \<in> set (ovals (stream_objects st))" for r
        using that rows(2) unfolding in_ovals by auto
    qed (fact init, rule step)
    moreover have "k \<in> so_key ` set (ovals (stream_objects st))" if "oget (stream_objects st) k = Some r" for r
      using that rows(2) [OF that] by (metis image_eqI in_ovals)
    ultimately show "oget (stream_objects t) k = oget (stream_objects st) k"
      using s(4) by (cases "oget (stream_objects st) k") (auto simp del: set_map)
  qed
qed

section \<open>The round trip\<close>

text \<open>The state that decoding builds from the rows of a snapshot.\<close>

definition restored :: "metadata_state \<Rightarrow> metadata_state" where
  "restored st =
    (let s = new_state\<lparr>next_stream_id := next_stream_id st\<rparr>;
         s = fold (\<lambda>r s. put_stream s r) (map bare (ovals (streams st))) s;
         s = fold (\<lambda>r s. insert_node s r) (ovals (nodes st)) s;
         s = s\<lparr>next_producer_id := next_producer_id st, next_object_id := next_object_id st\<rparr>;
         s = fold (\<lambda>x s. case x of (i, d) \<Rightarrow> put_prepared s i d) (oentries (prepared st)) s;
         s = fold (\<lambda>r s. put_stream_set_object s r) (ovals (stream_set_objects st)) s;
         s = fold (\<lambda>r s. put_stream_object s r) (ovals (stream_objects st)) s;
         s = fold (\<lambda>x s. case x of (q, i, op) \<Rightarrow> put_destroyed s q i op) (oentries (mark_destroyed st)) s;
         s = s\<lparr>next_destroyed_seq := next_destroyed_seq st\<rparr>;
         s = fold (\<lambda>x s. case x of (k, v) \<Rightarrow> put_kv_row s k v) (oentries (kv st)) s;
         s = fold (\<lambda>x s. insert_pending s x) (oentries (pending_transfers st)) s
     in fold (\<lambda>x s. insert_epoch s x) (oentries (epochs st)) s)"

lemma meta_inv_registry_fields:
  assumes "meta_inv s" and "meta_inv st"
  shows "meta_inv (s\<lparr>nodes := nodes st, next_producer_id := n, next_object_id := next_object_id st,
    prepared := prepared st, prepared_by_deadline := prepared_by_deadline st\<rparr>)"
  using assms unfolding meta_inv_def
  by (simp add: inv_streams_def inv_nodes_def inv_prepared_def inv_sso_def inv_so_def inv_disjoint_def
    inv_destroyed_def inv_bytes_def inv_kv_def stream_bytes_def total_bytes_def)

lemma meta_inv_queue_fields:
  assumes "meta_inv s" and "meta_inv st"
  shows "meta_inv (s\<lparr>mark_destroyed := mark_destroyed st, destroyed_by_id := destroyed_by_id st,
    next_destroyed_seq := next_destroyed_seq st\<rparr>)"
  using assms unfolding meta_inv_def
  by (simp add: inv_streams_def inv_nodes_def inv_prepared_def inv_sso_def inv_so_def inv_disjoint_def
    inv_destroyed_def inv_bytes_def inv_kv_def stream_bytes_def total_bytes_def)

lemma meta_inv_transfer_fields:
  "meta_inv (s\<lparr>pending_transfers := p, epochs := e\<rparr>) \<longleftrightarrow> meta_inv s"
  by (simp add: meta_inv_def inv_streams_def inv_nodes_def inv_prepared_def inv_sso_def inv_so_def
    inv_disjoint_def inv_destroyed_def inv_bytes_def inv_kv_def stream_bytes_def total_bytes_def)

definition but_kv :: "metadata_state \<Rightarrow> metadata_state" where
  "but_kv s = s\<lparr>kv := oempty, kv_bytes := 0\<rparr>"

lemma but_kvD:
  assumes "but_kv s = but_kv t"
  shows "next_stream_id s = next_stream_id t"
    "streams s = streams t"
    "nodes s = nodes t"
    "opening_by_node s = opening_by_node t"
    "placed_by_node s = placed_by_node t"
    "streams_by_node s = streams_by_node t"
    "pending_transfers s = pending_transfers t"
    "epochs s = epochs t"
    "next_producer_id s = next_producer_id t"
    "next_object_id s = next_object_id t"
    "prepared s = prepared t"
    "prepared_by_deadline s = prepared_by_deadline t"
    "stream_set_objects s = stream_set_objects t"
    "sso_ranges s = sso_ranges t"
    "sso_by_node s = sso_by_node t"
    "stream_objects s = stream_objects t"
    "stream_object_ids s = stream_object_ids t"
    "mark_destroyed s = mark_destroyed t"
    "destroyed_by_id s = destroyed_by_id t"
    "next_destroyed_seq s = next_destroyed_seq t"
    "stored_bytes s = stored_bytes t"
  using arg_cong [OF assms, of next_stream_id]
    arg_cong [OF assms, of streams]
    arg_cong [OF assms, of nodes]
    arg_cong [OF assms, of opening_by_node]
    arg_cong [OF assms, of placed_by_node]
    arg_cong [OF assms, of streams_by_node]
    arg_cong [OF assms, of pending_transfers]
    arg_cong [OF assms, of epochs]
    arg_cong [OF assms, of next_producer_id]
    arg_cong [OF assms, of next_object_id]
    arg_cong [OF assms, of prepared]
    arg_cong [OF assms, of prepared_by_deadline]
    arg_cong [OF assms, of stream_set_objects]
    arg_cong [OF assms, of sso_ranges]
    arg_cong [OF assms, of sso_by_node]
    arg_cong [OF assms, of stream_objects]
    arg_cong [OF assms, of stream_object_ids]
    arg_cong [OF assms, of mark_destroyed]
    arg_cong [OF assms, of destroyed_by_id]
    arg_cong [OF assms, of next_destroyed_seq]
    arg_cong [OF assms, of stored_bytes]
  by (simp_all add: but_kv_def)

lemma load_kv:
  fixes m :: "(string, bytes) omap"
  assumes "meta_inv s" and "kv s = oempty"
  defines "t \<equiv> fold (\<lambda>x s. case x of (k, v) \<Rightarrow> put_kv_row s k v) (oentries m) s"
  shows "meta_inv t" and "kv t = m" and "but_kv t = but_kv s"
proof -
  show "meta_inv t"
    unfolding t_def
    by (rule fold_invariant_list [where P = meta_inv]) (use assms(1) in \<open>auto intro: meta_inv_put_kv\<close>)
  show "kv t = m"
    by (simp add: t_def fold_put_kv assms(2) fold_oput_entries)
  show "but_kv t = but_kv s"
    unfolding t_def by (rule fold_proj) (auto simp: but_kv_def put_kv_row_def Let_def)
qed

lemma restored_id:
  assumes inv: "meta_inv st"
  shows "restored st = st"
proof -
  let ?start = "new_state\<lparr>next_stream_id := next_stream_id st\<rparr>"
  define a where "a = fold (\<lambda>r s. put_stream s r) (map bare (ovals (streams st))) ?start"
  define b where "b = a\<lparr>nodes := nodes st, next_producer_id := next_producer_id st,
    next_object_id := next_object_id st, prepared := prepared st, prepared_by_deadline := prepared_by_deadline st\<rparr>"
  define c where "c = fold (\<lambda>r s. put_stream_set_object s r) (ovals (stream_set_objects st)) b"
  define d where "d = fold (\<lambda>r s. put_stream_object s r) (ovals (stream_objects st)) c"
  define e where "e = d\<lparr>mark_destroyed := mark_destroyed st, destroyed_by_id := destroyed_by_id st,
    next_destroyed_seq := next_destroyed_seq st\<rparr>"
  define f where "f = fold (\<lambda>x s. case x of (k, v) \<Rightarrow> put_kv_row s k v) (oentries (kv st)) e"
  define t where "t = f\<lparr>pending_transfers := pending_transfers st, epochs := epochs st\<rparr>"
  note a = load_streams [OF inv, folded a_def]
  have node_ids: "nr_node_id r = n" if "oget (nodes st) n = Some r" for n r
    using inv that by (simp add: meta_inv_def inv_nodes_def)
  have start: "nodes a = oempty" "prepared a = oempty" "prepared_by_deadline a = oempty"
      "next_stream_id a = next_stream_id st" "stream_set_objects a = oempty" "stream_objects a = oempty"
      "stream_object_ids a = oempty" "mark_destroyed a = oempty" "destroyed_by_id a = oempty" "kv a = oempty"
      "pending_transfers a = oempty" "epochs a = oempty"
    using but_streamsD [of a ?start] a(2) by (simp_all add: but_streams_def new_state_def)
  have b: "meta_inv b"
    using meta_inv_registry_fields [OF a(1) inv] by (simp add: b_def)
  have b_start: "next_stream_id b = next_stream_id st" "stream_set_objects b = oempty"
      "stream_objects b = oempty" "stream_object_ids b = oempty"
    using start by (simp_all add: b_def)
  note c = load_sso [OF inv b b_start(1,2,4), folded c_def]
  note c_rest = but_objectsD [OF c(2)]
  have "next_stream_id c = next_stream_id st" "stream_objects c = oempty" "stream_object_ids c = oempty"
    using c(5,6) c_rest b_start by simp_all
  note d = load_so [OF inv c(1) this(1) c(4) this(2,3), folded d_def]
  note d_rest = but_objectsD [OF d(2)]
  have e: "meta_inv e"
    using meta_inv_queue_fields [OF d(1) inv] by (simp add: e_def)
  have "kv e = oempty"
    using start d_rest c_rest by (simp add: e_def b_def)
  note f = load_kv [OF e this, of "kv st", folded f_def]
  note f_rest = but_kvD [OF f(3)]
  have "restored st = t"
    unfolding restored_def Let_def a_def [symmetric] fold_insert_node fold_put_prepared fold_put_destroyed
      fold_insert_pending fold_insert_epoch
    using start d_rest c_rest f_rest
    by (simp add: t_def f_def e_def d_def c_def b_def fold_oput_ovals [OF node_ids] fold_oput_entries
      rebuild_deadlines [OF inv] rebuild_destroyed [OF inv])
  moreover have "t = st"
  proof (rule meta_inv_determines)
    show "meta_inv t"
      using f(1) by (simp add: t_def meta_inv_transfer_fields)
    show "bare_rows t k = bare_rows st k" for k
      using a(3) [of k] c(3) [of k] d(3) [of k] f_rest by (simp add: t_def e_def b_def)
  qed (use inv start d(4,5) d_rest c_rest f_rest f(2) in \<open>simp_all add: t_def e_def b_def\<close>)
  ultimately show ?thesis by simp
qed

lemma put_bare_row: "put_rows put_stream_row rows = put_rows put_stream_row (map bare rows)"
  by (simp add: put_rows_def comp_def put_stream_row_def [abs_def] bare_def)

lemma get_body_encoded:
  assumes inv: "meta_inv st" and rows: "rows_ok st" and counts: "counts_ok st"
  shows "encode st = put_u8 snapshot_version @ bs \<Longrightarrow> get_body (bs @ rest) = Inr (st, rest)"
proof -
  assume "encode st = put_u8 snapshot_version @ bs"
  then have bs: "bs = put_u64 (next_stream_id st) @ put_rows put_stream_row (map bare (ovals (streams st))) @
    put_rows put_node_row (ovals (nodes st)) @ put_u64 (next_producer_id st) @
    put_u64 (next_object_id st) @ put_rows put_prepared_row (oentries (prepared st)) @
    put_rows put_sso_row (ovals (stream_set_objects st)) @ put_rows put_so_row (ovals (stream_objects st)) @
    put_rows put_destroyed_row (oentries (mark_destroyed st)) @ put_u64 (next_destroyed_seq st) @
    put_rows put_kv_entry (oentries (kv st)) @ put_rows put_pending_row (oentries (pending_transfers st)) @
    put_rows put_epoch_row (oentries (epochs st))"
    by (simp only: encode_def put_bare_row [of "ovals (streams st)"] append_assoc same_append_eq)
  have sso_sizes: "length (sso_range_sizes r) = length (obj_offset_ranges (sso_object r))"
    if "r \<in> set (ovals (stream_set_objects st))" for r
    using that inv unfolding in_ovals by (auto simp: meta_inv_def inv_sso_def)
  have so_single: "length (obj_offset_ranges (sor_object r)) = 1"
    if "r \<in> set (ovals (stream_objects st))" for r
    using that so_row_facts(1) [OF inv] unfolding in_ovals by blast
  have ok: "list_all (\<lambda>r. row_stored_bytes r = 0) (map bare (ovals (streams st)))"
      "list_all node_ok (ovals (nodes st))" "list_all (\<lambda>_. True) (oentries (prepared st))"
      "list_all (\<lambda>r. length (obj_offset_ranges (sso_object r)) < 2 ^ 32 \<and>
        length (sso_range_sizes r) = length (obj_offset_ranges (sso_object r))) (ovals (stream_set_objects st))"
      "list_all (\<lambda>r. length (obj_offset_ranges (sor_object r)) = 1) (ovals (stream_objects st))"
      "list_all (\<lambda>_. True) (oentries (mark_destroyed st))"
      "list_all (\<lambda>(k, v). str_ok k \<and> blob_ok v) (oentries (kv st))"
      "list_all (\<lambda>_. True) (oentries (pending_transfers st))" "list_all (\<lambda>_. True) (oentries (epochs st))"
    using rows sso_sizes so_single by ((simp add: list_all_iff; fail) |
      (auto simp: rows_ok_def list_all_iff simp del: set_map; fail))+
  have n: "length (map bare (ovals (streams st))) < 2 ^ 64" "length (ovals (nodes st)) < 2 ^ 64"
      "length (oentries (prepared st)) < 2 ^ 64" "length (ovals (stream_set_objects st)) < 2 ^ 64"
      "length (ovals (stream_objects st)) < 2 ^ 64" "length (oentries (mark_destroyed st)) < 2 ^ 64"
      "length (oentries (kv st)) < 2 ^ 64" "length (oentries (pending_transfers st)) < 2 ^ 64"
      "length (oentries (epochs st)) < 2 ^ 64"
    using counts by (simp_all only: counts_ok_def list.pred_inject length_map)
  note sections = snap_stream.get_rows_put [OF ok(1) n(1)] snap_node.get_rows_put [OF ok(2) n(2)]
    snap_prepared.get_rows_put [OF ok(3) n(3)] snap_sso.get_rows_put [OF ok(4) n(4)]
    snap_so.get_rows_put [OF ok(5) n(5)] snap_destroyed.get_rows_put [OF ok(6) n(6)]
    snap_kv.get_rows_put [OF ok(7) n(7)] snap_pending.get_rows_put [OF ok(8) n(8)]
    snap_epoch.get_rows_put [OF ok(9) n(9)]
  have "get_body (bs @ rest) = Inr (restored st, rest)"
    unfolding bs get_body_def restored_def Let_def
    by (simp only: gsimps append_assoc get_put_ints sections rbind_simps prod.case)
  then show ?thesis
    by (simp add: restored_id [OF inv])
qed

lemma decode_encode:
  assumes "meta_inv st" and "rows_ok st" and "counts_ok st"
  shows "decode (encode st) = Inr st"
proof -
  obtain bs where bs: "encode st = put_u8 snapshot_version @ bs"
    by (simp add: encode_def)
  show ?thesis
    using get_body_encoded [OF assms bs, of "[]"] by (simp add: decode_def bs)
qed

lemma ext_body [ext_intros]: "extensible get_body"
  unfolding get_body_def get_stream_row_def get_node_row_def get_prepared_row_def get_sso_row_def
    get_so_row_def get_object_def get_offset_range_def get_destroyed_row_def get_operation_def
    get_kv_entry_def get_pending_row_def get_epoch_row_def
  by (intro ext_intros)

lemma decode_damaged:
  assumes "meta_inv st" and "rows_ok st" and "counts_ok st"
  shows "strict_prefix p (encode st) \<Longrightarrow> \<exists>err. decode p = Inl err"
    and "e \<noteq> [] \<Longrightarrow> decode (encode st @ e) = Inl SnapCorrupt"
proof -
  obtain bs where bs: "encode st = put_u8 snapshot_version @ bs"
    by (simp add: encode_def)
  note body = get_body_encoded [OF assms bs]
  show "decode (encode st @ e) = Inl SnapCorrupt" if "e \<noteq> []"
    using that body [of e] by (simp add: decode_def bs)
  show "\<exists>err. decode p = Inl err" if p: "strict_prefix p (encode st)"
  proof (cases p)
    case Nil
    then show ?thesis
      by (simp add: decode_def get_u8_def get_le_def gsimps)
  next
    case (Cons v q)
    then have "[v] = put_u8 snapshot_version" and q: "strict_prefix q bs"
      using p by (auto simp: bs put_u8_def)
    then have pq: "p = put_u8 snapshot_version @ q"
      using Cons by simp
    from q obtain x where "bs = q @ x" "x \<noteq> []"
      by (auto simp: strict_prefix_def prefix_def)
    then have "get_body q \<noteq> Inr (y, [])" for y
      using extensible_no_prefix [OF ext_body] body [of "[]"] by (metis append.right_neutral)
    then show ?thesis
      by (cases "get_body q") (auto simp: decode_def pq)
  qed
qed

end
