(* ===== verification/Meta_Restore.thy ===== *)
theory Meta_Restore
  imports Meta_Snapshot Meta_Placement
begin

text \<open>
  Snapshots of reachable states. A log whose commands can be written on the wire keeps every row of the
  state storable (\<open>rows_ok\<close>), so the snapshot of every state such a log reaches decodes to that state,
  and a restart from a snapshot followed by the rest of the log ends where the whole log ends.
\<close>

section \<open>Storable rows are kept\<close>

definition node_rows_ok :: "(i32, node_row) omap \<Rightarrow> bool" where
  "node_rows_ok m \<longleftrightarrow> (\<forall>n r. oget m n = Some r \<longrightarrow> node_ok r)"

definition set_rows_ok :: "(u64, stream_set_object_row) omap \<Rightarrow> bool" where
  "set_rows_ok m \<longleftrightarrow> (\<forall>i r. oget m i = Some r \<longrightarrow> length (obj_offset_ranges (sso_object r)) < 2 ^ 32)"

definition kv_rows_ok :: "(string \<Rightarrow> bytes option) \<Rightarrow> bool" where
  "kv_rows_ok m \<longleftrightarrow> (\<forall>k v. m k = Some v \<longrightarrow> str_ok k \<and> blob_ok v)"

lemma ball_ovals: "(\<forall>r \<in> set (ovals m). Q r) \<longleftrightarrow> (\<forall>k r. oget m k = Some r \<longrightarrow> Q r)"
  unfolding Ball_def in_ovals by blast

lemma rows_ok_alt:
  "rows_ok st \<longleftrightarrow> node_rows_ok (nodes st) \<and> set_rows_ok (stream_set_objects st) \<and> kv_rows_ok (oget (kv st))"
  unfolding rows_ok_def node_rows_ok_def set_rows_ok_def list_all_iff ball_ovals
  by (auto simp: kv_rows_ok_def in_oentries)

lemma rows_ok_new: "rows_ok new_state"
  by (simp add: rows_ok_def new_state_def)

lemma node_rows_ok_oput: "node_rows_ok m \<Longrightarrow> node_ok r \<Longrightarrow> node_rows_ok (oput n r m)"
  by (auto simp: node_rows_ok_def)

lemma node_ok_touch:
  "node_ok (r\<lparr>nr_slots := a\<rparr>) = node_ok r" "node_ok (r\<lparr>nr_heartbeats := b\<rparr>) = node_ok r"
  "node_ok (r\<lparr>nr_fenced := c\<rparr>) = node_ok r"
  by (simp_all add: node_ok_def)

lemma node_rows_run:
  assumes run: "run_command noop st c = Inr (t, r)" and ok: "node_rows_ok (nodes st)" and c: "command_ok c"
  shows "node_rows_ok (nodes t)"
proof -
  have row: "node_ok q" if "oget (nodes st) n = Some q" for n q
    using ok that by (simp add: node_rows_ok_def)
  show ?thesis
  proof (cases "\<exists>n e h sl pa w. c = RegisterNode n e h sl pa w")
    case True
    then obtain n e h sl pa w where c': "c = RegisterNode n e h sl pa w" by blast
    show ?thesis
      using run c ok row [of n]
      by (auto simp: c' register_node_def Let_def kept_def node_ok_def intro!: node_rows_ok_oput split: option.splits)
  next
    case other: False
    show ?thesis
    proof (cases "nodes t = nodes st")
      case True
      then show ?thesis using ok by simp
    next
      case False
      with other nodes_run [OF run] show ?thesis
        using run ok row
        by (cases c) (auto simp: set_node_slots_def heartbeat_def fence_node_def Let_def node_ok_touch
          intro!: node_rows_ok_oput split: option.splits if_splits)
    qed
  qed
qed

lemma kv_rows_run:
  assumes "run_command noop st c = Inr (t, r)" and "kv_rows_ok (oget (kv st))" and "command_ok c"
  shows "kv_rows_ok (oget (kv t))"
  using assms(2,3) unfolding kv_run [OF assms(1)] by (cases c) (auto simp: kv_rows_ok_def)

lemma set_rows_ok_del: "set_rows_ok m \<Longrightarrow> set_rows_ok (odel i m)"
  by (simp add: set_rows_ok_def)

lemma sso_folds [simp]:
  "stream_set_objects (fold (\<lambda>i st. put_stream st (new_row i)) ids st) = stream_set_objects st"
  "stream_set_objects (fold (\<lambda>i st. put_prepared st i d) ids st) = stream_set_objects st"
  "stream_set_objects (fold (\<lambda>(x, i) st. remove_prepared st i) xs st) = stream_set_objects st"
  "stream_set_objects (fold (\<lambda>i st. remove_destroyed st i) ids st) = stream_set_objects st"
  "stream_set_objects (destroy_stream_objects st keys) = stream_set_objects st"
  unfolding destroy_stream_objects_def
  by (rule fold_proj; auto simp: put_prepared_def remove_prepared_def remove_destroyed_def split: option.split)+

lemma sso_compact:
  assumes "compact_stream_object noop st req now = Inr (t, r)"
  shows "stream_set_objects t = stream_set_objects st"
proof -
  have drop: "stream_set_objects (fold (\<lambda>j st. if P j st then remove_stream_object st j else st) ids u) =
      stream_set_objects u" for P ids u
    by (rule fold_proj) simp
  have mark: "stream_set_objects u = stream_set_objects v" if "mark_destroy_objects v ids ops = Inr u" for u v ids ops
    using that by (auto simp: mark_destroy_objects_def case_prod_unfold intro!: fold_proj split: if_splits)
  show ?thesis
    using assms unfolding compact_stream_object_def Let_def
    by (auto simp: drop insert_stream_object_def remove_prepared_def dest!: mark split: if_splits option.splits)
qed

lemma set_rows_commit:
  assumes run: "commit_stream_set_object noop st n req now = Inr (t, r)"
    and ok: "set_rows_ok (stream_set_objects st)" and req: "length (cr_stream_ranges req) < 2 ^ 32"
  shows "set_rows_ok (stream_set_objects t)"
proof -
  let ?u = "fold (\<lambda>i st. mark_destroyed_object (remove_stream_set_object st i) i Delete) (cr_compacted_object_ids req) st"
  from run obtain c dt lw v where v: "commit_set_part noop ?u n req now c dt lw = Inr v"
    and t: "rfold (\<lambda>st so. commit_stream_part st so now c dt lw) (cr_stream_objects req) v = Inr t"
    by (rule commit_Ok_cases)
  have u: "set_rows_ok (stream_set_objects ?u)"
    by (rule fold_invariant_list [where P = "\<lambda>s. set_rows_ok (stream_set_objects s)"])
      (use ok in \<open>auto intro: set_rows_ok_del\<close>)
  have adv: "stream_set_objects y = stream_set_objects x"
    if "rfold (\<lambda>st range. advance_end_offset st (osr_stream_id range) (osr_start_offset range)
      (osr_end_offset range) c) rs x = Inr y" for x y rs
    by (rule rfold_invariant [OF that, where P = "\<lambda>s. stream_set_objects s = stream_set_objects x"])
      (auto dest!: same_objects_advance same_objects_sels(9))
  have "set_rows_ok (stream_set_objects v)"
    using v u req by (auto simp: commit_set_part_def set_rows_ok_def remove_prepared_def
      dest!: adv split: if_splits option.splits)
  with commit_stream_parts_ids(2) [OF t] show ?thesis by simp
qed

lemma set_rows_run:
  assumes "run_command noop st c = Inr (t, r)" and "set_rows_ok (stream_set_objects st)" and "command_ok c"
  shows "set_rows_ok (stream_set_objects t)"
proof (cases "\<exists>p req now. c = CommitStreamSetObject p req now")
  case True
  then show ?thesis
    using assms by (auto intro: set_rows_commit)
next
  case False
  then have "stream_set_objects t = stream_set_objects st"
    using assms(1) by (cases c) (auto simp: registry_handler_defs sso_compact Let_def
      split: option.splits if_splits)
  with assms(2) show ?thesis by simp
qed

lemma rows_ok_apply:
  assumes "rows_ok st" and "command_ok c"
  shows "rows_ok (apply_state noop st c)"
proof -
  obtain t res where run: "apply_command noop st c = (t, res)" by (cases "apply_command noop st c")
  from run show ?thesis
  proof (cases rule: apply_command_cases)
    case err
    with run assms show ?thesis by (simp add: apply_state_def)
  next
    case (ok r)
    with run assms node_rows_run [OF ok(2)] kv_rows_run [OF ok(2)] set_rows_run [OF ok(2)] show ?thesis
      by (simp add: apply_state_def rows_ok_alt)
  qed
qed

interpretation storable: guarded_machine "apply_state noop" "\<lambda>_. command_ok" rows_ok for noop
  by unfold_locales (rule rows_ok_apply)

lemma log_ok_wire: "log_ok step (\<lambda>_. command_ok) s cs \<longleftrightarrow> list_all command_ok cs"
  by (induction cs arbitrary: s) simp_all

lemma rows_ok_run: "rows_ok st \<Longrightarrow> list_all command_ok cs \<Longrightarrow> rows_ok (run_log (apply_state noop) st cs)"
  by (rule storable.run_inv) (simp_all add: log_ok_wire)

text \<open>A log that can be written, and whose last state has few enough rows to be counted.\<close>

definition storable_log :: "u64 \<Rightarrow> metadata_command list \<Rightarrow> bool" where
  "storable_log noop cs \<longleftrightarrow> meta_log_ok noop cs \<and> list_all command_ok cs \<and> counts_ok (meta_run noop cs)"

lemma storable_state:
  assumes "storable_log noop cs"
  shows "meta_inv (meta_run noop cs)" "rows_ok (meta_run noop cs)" "counts_ok (meta_run noop cs)"
  using assms meta.run_inv [OF meta_inv_new] rows_ok_run [OF rows_ok_new] by (auto simp: storable_log_def)

lemma snapshot_restores: "storable_log noop cs \<Longrightarrow> decode (encode (meta_run noop cs)) = Inr (meta_run noop cs)"
  using storable_state [of noop cs] by (intro decode_encode)

section \<open>Example\<close>

lemma demo_snapshot_log: "storable_log 7 demo_log"
proof -
  have "meta_log_ok 7 demo_log"
    by (simp add: demo_log_def demo_eval)
  moreover have "list_all command_ok demo_log"
    by (simp add: demo_log_def str_ok_def str_bytes_def str_map_ok_def)
  moreover have "counts_ok (meta_run 7 demo_log)"
    by (simp add: counts_ok_def demo_log_def demo_eval)
  ultimately show ?thesis
    by (simp add: storable_log_def)
qed

section \<open>Properties\<close>

text \<open>
  C24. A snapshot loses nothing: for every log whose commands can be written and whose state has fewer
  than $2^{64}$ rows per map, decoding the snapshot gives back the whole state, every index and byte
  count included. Replicas may therefore compare snapshots: equal bytes mean equal states.
\<close>

theorem snapshot_round_trip:
  assumes "storable_log noop cs" and "storable_log noop ds"
  shows "decode (encode (meta_run noop cs)) = Inr (meta_run noop cs) \<and>
    (encode (meta_run noop cs) = encode (meta_run noop ds) \<longleftrightarrow> meta_run noop cs = meta_run noop ds)"
proof -
  note cs = snapshot_restores [OF assms(1)] and ds = snapshot_restores [OF assms(2)]
  have "meta_run noop cs = meta_run noop ds" if "encode (meta_run noop cs) = encode (meta_run noop ds)"
    using cs ds unfolding that by simp
  with cs show ?thesis by metis
qed

theorem snapshot_round_trip_witness:
  "decode (encode (meta_run 7 demo_log)) = Inr (meta_run 7 demo_log)"
  using snapshot_round_trip [OF demo_snapshot_log demo_snapshot_log] by blast

text \<open>
  C25. A damaged snapshot is refused: no strict prefix of a snapshot decodes, bytes after its end are an
  error, and so is a foreign version byte.
\<close>

theorem snapshot_rejects_damage:
  assumes "storable_log noop cs"
  shows "(strict_prefix p (encode (meta_run noop cs)) \<longrightarrow> (\<exists>err. decode p = Inl err)) \<and>
    (e \<noteq> [] \<longrightarrow> decode (encode (meta_run noop cs) @ e) = Inl SnapCorrupt) \<and>
    (v \<noteq> snapshot_version \<longrightarrow> decode (put_u8 v @ e) = Inl (SnapUnsupportedVersion v))"
  using decode_damaged [OF storable_state [OF assms]] by (simp add: decode_def)

theorem snapshot_rejects_damage_witness:
  "decode (encode (meta_run 7 demo_log) @ [0]) = Inl SnapCorrupt \<and>
    decode (put_u8 3 @ [0]) = Inl (SnapUnsupportedVersion 3)"
  using snapshot_rejects_damage [OF demo_snapshot_log, of _ "[0]" 3] by (simp add: snapshot_version_def)

end
