(* ===== verification/Sql_Sink.thy ===== *)
theory Sql_Sink
  imports Sql_Store Meta_Restore
begin

text \<open>
  The SQL-backed command sink of \<^verbatim>\<open>pico-sql/src/sink.rs\<close>: several processes share one store,
  append batches of commands to its log, tail the log to build the same state, and replace old rows by
  snapshots. Each node runs three tasks that interleave freely with each other and with the other
  nodes: the flusher (\<open>fl_\<close>) commits batches, the tailer (\<open>tl_\<close>) applies rows and delivers results,
  the snapshot task (\<open>sn_\<close>) writes snapshots and truncates the log. A step is one store call or one
  stretch of local work between two of them; a store call may fail with or without having taken
  effect, and a node may crash at any point and open again.

  Waiting times, the nudge that skips a poll and the queue of proposals are left out: a task may take
  its next step at any time, and a batch is any non-empty list of at most \<open>max_batch\<close> commands.
\<close>

section \<open>Tasks\<close>

type_synonym batch = "metadata_command list"
type_synonym batch_results = "(metadata_error + metadata_result) list"

record sql_config =
  max_batch :: nat
  fetch_limit :: nat
  snapshot_every :: nat

text \<open>The receiver of the flusher's registration: waiting, resolved, or its sender dropped.\<close>

datatype receiver = RxWaiting | RxReady batch_results | RxClosed

datatype flusher =
    FlushIdle
  | FlushNext batch
  | FlushIndex nat batch
  | FlushRegistered nat batch
  | FlushAwait nat batch
  | FlushLost nat batch
  | FlushRefresh batch

datatype tailer =
    TailFetch
  | TailEmpty
  | TailRows "(nat \<times> bytes) list"
  | TailDeliver nat batch_results "(nat \<times> bytes) list"
  | TailRestore
  | TailHalted

datatype snapshotter = SnapWait | SnapStore nat bytes | SnapTruncate nat

text \<open>
  A running sink: the tailer's local state, the published view, \<^verbatim>\<open>last_seen\<close>, the pending
  registrations with their poison flag, and where each task stands. \<open>replies\<close> collects the results
  that were sent to proposers.
\<close>

record sink =
  tl_state :: metadata_state
  tl_applied :: nat
  tl_pc :: tailer
  view_index :: nat
  view_state :: metadata_state
  last_seen :: nat
  poisoned :: bool
  pending :: "(nat, unit) omap"
  receiver :: receiver
  fl_pc :: flusher
  sn_last :: nat
  sn_pc :: snapshotter
  replies :: "(nat \<times> batch \<times> batch_results) list"

fun apply_batch :: "u64 \<Rightarrow> metadata_state \<Rightarrow> batch \<Rightarrow> metadata_state \<times> batch_results" where
  "apply_batch noop st [] = (st, [])"
| "apply_batch noop st (c # cs) =
    (let (st, r) = apply_command noop st c; (st, rs) = apply_batch noop st cs in (st, r # rs))"

subsection \<open>Opening\<close>

datatype opener = OpenLoad | OpenFetch | OpenRows "(nat \<times> bytes) list" | OpenReload nat | OpenFailed

record replay =
  op_state :: metadata_state
  op_applied :: nat
  op_base :: nat
  op_pc :: opener

definition open_start :: replay where
  "open_start = \<lparr>op_state = new_state, op_applied = 0, op_base = 0, op_pc = OpenLoad\<rparr>"

definition open_load :: "(nat \<times> bytes) option \<Rightarrow> replay \<Rightarrow> replay" where
  "open_load row o1 =
    (case row of
       Some (idx, payload) \<Rightarrow>
         (case decode payload of
            Inl _ \<Rightarrow> o1\<lparr>op_pc := OpenFailed\<rparr>
          | Inr st \<Rightarrow> \<lparr>op_state = st, op_applied = idx, op_base = idx, op_pc = OpenFetch\<rparr>)
     | None \<Rightarrow> \<lparr>op_state = new_state, op_applied = 0, op_base = 0, op_pc = OpenFetch\<rparr>)"

definition start_sink :: "metadata_state \<Rightarrow> nat \<Rightarrow> nat \<Rightarrow> sink" where
  "start_sink st applied base =
    \<lparr>tl_state = st, tl_applied = applied, tl_pc = TailFetch, view_index = applied, view_state = st,
     last_seen = applied, poisoned = False, pending = oempty, receiver = RxClosed, fl_pc = FlushIdle,
     sn_last = base, sn_pc = SnapWait, replies = []\<rparr>"

definition open_row :: "u64 \<Rightarrow> nat \<Rightarrow> bytes \<Rightarrow> (nat \<times> bytes) list \<Rightarrow> replay \<Rightarrow> replay" where
  "open_row noop idx payload rows o1 =
    (if idx > op_applied o1 + 1 then o1\<lparr>op_pc := OpenReload idx\<rparr>
     else case decode_batch payload of
       Inl _ \<Rightarrow> o1\<lparr>op_pc := OpenFailed\<rparr>
     | Inr commands \<Rightarrow> o1\<lparr>op_state := fst (apply_batch noop (op_state o1) commands), op_applied := idx,
         op_pc := OpenRows rows\<rparr>)"

definition open_reload :: "(nat \<times> bytes) option \<Rightarrow> replay \<Rightarrow> replay" where
  "open_reload row o1 =
    (case row of
       None \<Rightarrow> o1\<lparr>op_pc := OpenFailed\<rparr>
     | Some (idx, payload) \<Rightarrow>
         (case decode payload of
            Inl _ \<Rightarrow> o1\<lparr>op_pc := OpenFailed\<rparr>
          | Inr st \<Rightarrow> \<lparr>op_state = st, op_applied = idx, op_base = idx, op_pc = OpenFetch\<rparr>))"

subsection \<open>Tailing\<close>

definition tail_fetch :: "(nat \<times> bytes) list \<Rightarrow> sink \<Rightarrow> sink" where
  "tail_fetch rows k = k\<lparr>tl_pc := if rows = [] then TailEmpty else TailRows rows\<rparr>"

definition tail_empty :: "nat option \<Rightarrow> sink \<Rightarrow> sink" where
  "tail_empty idx k =
    (case idx of
       Some i \<Rightarrow> if i > tl_applied k then k\<lparr>tl_pc := TailRestore\<rparr> else k\<lparr>tl_pc := TailFetch\<rparr>
     | None \<Rightarrow> k\<lparr>tl_pc := TailFetch\<rparr>)"

text \<open>Senders that leave the map are dropped: a receiver that still waits sees its channel closed.\<close>

definition retain_pending :: "(nat \<Rightarrow> bool) \<Rightarrow> sink \<Rightarrow> sink" where
  "retain_pending keep k =
    (let gone = filter (\<lambda>i. \<not> keep i) (okeys (pending k)) in
     k\<lparr>pending := fold odel gone (pending k),
       receiver := if gone \<noteq> [] \<and> receiver k = RxWaiting then RxClosed else receiver k\<rparr>)"

definition poison :: "sink \<Rightarrow> sink" where
  "poison k = (retain_pending (\<lambda>_. False) k)\<lparr>poisoned := True, tl_pc := TailHalted\<rparr>"

definition publish :: "nat \<Rightarrow> metadata_state \<Rightarrow> sink \<Rightarrow> sink" where
  "publish index st k = k\<lparr>view_index := index, view_state := st\<rparr>"

definition tail_row :: "u64 \<Rightarrow> nat \<Rightarrow> bytes \<Rightarrow> (nat \<times> bytes) list \<Rightarrow> sink \<Rightarrow> sink" where
  "tail_row noop idx payload rows k =
    (if idx > tl_applied k + 1 then k\<lparr>tl_pc := TailRestore\<rparr>
     else case decode_batch payload of
       Inl _ \<Rightarrow> poison k
     | Inr commands \<Rightarrow>
         (let (st, results) = apply_batch noop (tl_state k) commands in
          publish idx st (k\<lparr>tl_state := st, tl_applied := idx, last_seen := max (last_seen k) idx,
            tl_pc := TailDeliver idx results rows\<rparr>)))"

definition tail_deliver :: "nat \<Rightarrow> batch_results \<Rightarrow> (nat \<times> bytes) list \<Rightarrow> sink \<Rightarrow> sink" where
  "tail_deliver idx results rows k =
    (if ohas (pending k) idx
     then k\<lparr>pending := odel idx (pending k), receiver := RxReady results, tl_pc := TailRows rows\<rparr>
     else k\<lparr>tl_pc := TailRows rows\<rparr>)"

definition restore_from_snapshot :: "(nat \<times> bytes) option \<Rightarrow> sink \<Rightarrow> sink" where
  "restore_from_snapshot row k =
    (case row of
       None \<Rightarrow> poison k
     | Some (idx, payload) \<Rightarrow>
         if idx \<le> tl_applied k then poison k
         else case decode payload of
           Inl _ \<Rightarrow> poison k
         | Inr st \<Rightarrow>
             (let k = k\<lparr>last_seen := max (last_seen k) idx\<rparr>;
                  k = publish idx st k;
                  k = retain_pending (\<lambda>i. i > idx) k
              in k\<lparr>tl_state := st, tl_applied := idx, tl_pc := TailFetch\<rparr>))"

subsection \<open>Flushing\<close>

definition flush_take :: "batch \<Rightarrow> sink \<Rightarrow> sink" where
  "flush_take commands k = k\<lparr>fl_pc := FlushNext commands\<rparr>"

definition flush_next :: "batch \<Rightarrow> sink \<Rightarrow> sink" where
  "flush_next commands k = k\<lparr>fl_pc := FlushIndex (last_seen k + 1) commands\<rparr>"

definition flush_register :: "nat \<Rightarrow> batch \<Rightarrow> sink \<Rightarrow> sink" where
  "flush_register idx commands k =
    (if poisoned k then k\<lparr>fl_pc := FlushIdle\<rparr>
     else k\<lparr>pending := oput idx () (pending k), receiver := RxWaiting, fl_pc := FlushRegistered idx commands\<rparr>)"

definition flush_appended :: "bool \<Rightarrow> nat \<Rightarrow> batch \<Rightarrow> sink \<Rightarrow> sink" where
  "flush_appended won idx commands k =
    k\<lparr>fl_pc := if won then FlushAwait idx commands else FlushLost idx commands\<rparr>"

definition flush_append_failed :: "nat \<Rightarrow> sink \<Rightarrow> sink" where
  "flush_append_failed idx k = k\<lparr>pending := odel idx (pending k), fl_pc := FlushIdle\<rparr>"

definition flush_lost :: "nat \<Rightarrow> batch \<Rightarrow> sink \<Rightarrow> sink" where
  "flush_lost idx commands k = k\<lparr>pending := odel idx (pending k), fl_pc := FlushRefresh commands\<rparr>"

definition flush_refresh :: "nat \<Rightarrow> batch \<Rightarrow> sink \<Rightarrow> sink" where
  "flush_refresh tip commands k = k\<lparr>last_seen := max (last_seen k) tip, fl_pc := FlushNext commands\<rparr>"

text \<open>The batch is answered with its results, or with an error when the registration was dropped.\<close>

definition flush_reply :: "nat \<Rightarrow> batch \<Rightarrow> sink \<Rightarrow> sink" where
  "flush_reply idx commands k =
    (case receiver k of
       RxReady results \<Rightarrow> k\<lparr>replies := (idx, commands, results) # replies k, fl_pc := FlushIdle\<rparr>
     | _ \<Rightarrow> k\<lparr>fl_pc := FlushIdle\<rparr>)"

text \<open>\<^verbatim>\<open>sync\<close> reads the last index of the log and returns once the view has reached it.\<close>

definition sync_done :: "nat \<Rightarrow> sink \<Rightarrow> bool" where
  "sync_done committed k \<longleftrightarrow> committed \<le> view_index k"

subsection \<open>Snapshots\<close>

definition snap_wake :: "sink \<Rightarrow> sink" where
  "snap_wake k = k\<lparr>sn_pc := SnapStore (view_index k) (encode (view_state k))\<rparr>"

definition snap_stored :: "nat \<Rightarrow> sink \<Rightarrow> sink" where
  "snap_stored applied k = k\<lparr>sn_last := applied, sn_pc := SnapTruncate applied\<rparr>"

section \<open>The cluster\<close>

datatype node = Down | Opening replay | Running sink

text \<open>
  A step of one node over the shared store. The last argument is the batch the step appended to the
  log, if it did. Rules that end in \<open>_error\<close> are store calls that report an error; those of calls that
  write come with and without the effect.
\<close>

inductive node_step :: "sql_config \<Rightarrow> u64 \<Rightarrow> meta_store \<Rightarrow> node \<Rightarrow> meta_store \<Rightarrow> node \<Rightarrow> batch option \<Rightarrow> bool"
  for cfg noop s where
  boot: "node_step cfg noop s Down s (Opening open_start) None"
| crash: "node_step cfg noop s n s Down None"
| open_load: "op_pc p = OpenLoad \<Longrightarrow>
    node_step cfg noop s (Opening p) s (Opening (open_load (load_snapshot s) p)) None"
| open_fetch: "op_pc p = OpenFetch \<Longrightarrow> fetch_after s (op_applied p) (fetch_limit cfg) = Inr rows \<Longrightarrow> rows \<noteq> [] \<Longrightarrow>
    node_step cfg noop s (Opening p) s (Opening (p\<lparr>op_pc := OpenRows rows\<rparr>)) None"
| open_done: "op_pc p = OpenFetch \<Longrightarrow> fetch_after s (op_applied p) (fetch_limit cfg) = Inr [] \<Longrightarrow>
    node_step cfg noop s (Opening p) s (Running (start_sink (op_state p) (op_applied p) (op_base p))) None"
| open_row: "op_pc p = OpenRows ((idx, payload) # rows) \<Longrightarrow>
    node_step cfg noop s (Opening p) s (Opening (open_row noop idx payload rows p)) None"
| open_rows: "op_pc p = OpenRows [] \<Longrightarrow> node_step cfg noop s (Opening p) s (Opening (p\<lparr>op_pc := OpenFetch\<rparr>)) None"
| open_reload: "op_pc p = OpenReload idx \<Longrightarrow>
    node_step cfg noop s (Opening p) s (Opening (open_reload (load_snapshot s) p)) None"
| fetch: "tl_pc k = TailFetch \<Longrightarrow> fetch_after s (tl_applied k) (fetch_limit cfg) = Inr rows \<Longrightarrow>
    node_step cfg noop s (Running k) s (Running (tail_fetch rows k)) None"
| empty: "tl_pc k = TailEmpty \<Longrightarrow> node_step cfg noop s (Running k) s (Running (tail_empty (snapshot_idx s) k)) None"
| empty_error: "tl_pc k = TailEmpty \<Longrightarrow> node_step cfg noop s (Running k) s (Running (tail_empty None k)) None"
| row: "tl_pc k = TailRows ((idx, payload) # rows) \<Longrightarrow>
    node_step cfg noop s (Running k) s (Running (tail_row noop idx payload rows k)) None"
| deliver: "tl_pc k = TailDeliver idx results rows \<Longrightarrow>
    node_step cfg noop s (Running k) s (Running (tail_deliver idx results rows k)) None"
| rows: "tl_pc k = TailRows [] \<Longrightarrow> node_step cfg noop s (Running k) s (Running (k\<lparr>tl_pc := TailFetch\<rparr>)) None"
| restore: "tl_pc k = TailRestore \<Longrightarrow>
    node_step cfg noop s (Running k) s (Running (restore_from_snapshot (load_snapshot s) k)) None"
| restore_error: "tl_pc k = TailRestore \<Longrightarrow>
    node_step cfg noop s (Running k) s (Running (k\<lparr>tl_pc := TailFetch\<rparr>)) None"
| take_batch: "fl_pc k = FlushIdle \<Longrightarrow> commands \<noteq> [] \<Longrightarrow> length commands \<le> max_batch cfg \<Longrightarrow>
    node_step cfg noop s (Running k) s (Running (flush_take commands k)) None"
| pick: "fl_pc k = FlushNext commands \<Longrightarrow>
    node_step cfg noop s (Running k) s (Running (flush_next commands k)) None"
| register: "fl_pc k = FlushIndex idx commands \<Longrightarrow>
    node_step cfg noop s (Running k) s (Running (flush_register idx commands k)) None"
| append: "fl_pc k = FlushRegistered idx commands \<Longrightarrow>
    store_append s idx (encode_batch commands) = Inr (s', won) \<Longrightarrow>
    node_step cfg noop s (Running k) s' (Running (flush_appended won idx commands k))
      (if won then Some commands else None)"
| append_error: "fl_pc k = FlushRegistered idx commands \<Longrightarrow>
    node_step cfg noop s (Running k) s (Running (flush_append_failed idx k)) None"
| append_unknown: "fl_pc k = FlushRegistered idx commands \<Longrightarrow>
    store_append s idx (encode_batch commands) = Inr (s', won) \<Longrightarrow>
    node_step cfg noop s (Running k) s' (Running (flush_append_failed idx k))
      (if won then Some commands else None)"
| lost: "fl_pc k = FlushLost idx commands \<Longrightarrow>
    node_step cfg noop s (Running k) s (Running (flush_lost idx commands k)) None"
| refresh: "fl_pc k = FlushRefresh commands \<Longrightarrow>
    node_step cfg noop s (Running k) s (Running (flush_refresh (last_idx s) commands k)) None"
| refresh_error: "fl_pc k = FlushRefresh commands \<Longrightarrow>
    node_step cfg noop s (Running k) s (Running (k\<lparr>fl_pc := FlushIdle\<rparr>)) None"
| reply: "fl_pc k = FlushAwait idx commands \<Longrightarrow> receiver k \<noteq> RxWaiting \<Longrightarrow>
    node_step cfg noop s (Running k) s (Running (flush_reply idx commands k)) None"
| wake: "sn_pc k = SnapWait \<Longrightarrow> snapshot_every cfg \<noteq> 0 \<Longrightarrow> sn_last k + snapshot_every cfg \<le> view_index k \<Longrightarrow>
    node_step cfg noop s (Running k) s (Running (snap_wake k)) None"
| store: "sn_pc k = SnapStore applied payload \<Longrightarrow> store_snapshot s applied payload = Inr s' \<Longrightarrow>
    node_step cfg noop s (Running k) s' (Running (snap_stored applied k)) None"
| store_error: "sn_pc k = SnapStore applied payload \<Longrightarrow>
    node_step cfg noop s (Running k) s (Running (k\<lparr>sn_pc := SnapWait\<rparr>)) None"
| store_unknown: "sn_pc k = SnapStore applied payload \<Longrightarrow> store_snapshot s applied payload = Inr s' \<Longrightarrow>
    node_step cfg noop s (Running k) s' (Running (k\<lparr>sn_pc := SnapWait\<rparr>)) None"
| truncate: "sn_pc k = SnapTruncate applied \<Longrightarrow> truncate_log s applied = Inr s' \<Longrightarrow>
    node_step cfg noop s (Running k) s' (Running (k\<lparr>sn_pc := SnapWait\<rparr>)) None"
| truncate_error: "sn_pc k = SnapTruncate applied \<Longrightarrow>
    node_step cfg noop s (Running k) s (Running (k\<lparr>sn_pc := SnapWait\<rparr>)) None"

text \<open>
  The cluster: the store, the nodes, and the history of all batches ever appended, which no node sees
  and the store forgets when it truncates.
\<close>

record cluster =
  cl_store :: meta_store
  cl_nodes :: "nat \<Rightarrow> node"
  cl_hist :: "batch list"

definition cluster_start :: cluster where
  "cluster_start = \<lparr>cl_store = migrate, cl_nodes = (\<lambda>_. Down), cl_hist = []\<rparr>"

definition history :: "batch list \<Rightarrow> batch option \<Rightarrow> batch list" where
  "history h b = h @ (case b of None \<Rightarrow> [] | Some b \<Rightarrow> [b])"

inductive cluster_step :: "sql_config \<Rightarrow> u64 \<Rightarrow> cluster \<Rightarrow> cluster \<Rightarrow> bool" for cfg noop where
  move: "node_step cfg noop (cl_store c) (cl_nodes c i) s n b \<Longrightarrow>
    cluster_step cfg noop c \<lparr>cl_store = s, cl_nodes = (cl_nodes c)(i := n), cl_hist = history (cl_hist c) b\<rparr>"

inductive cluster_reach :: "sql_config \<Rightarrow> u64 \<Rightarrow> cluster \<Rightarrow> bool" for cfg noop where
  cluster_init: "cluster_reach cfg noop cluster_start"
| cluster_next: "cluster_reach cfg noop c \<Longrightarrow> cluster_step cfg noop c c' \<Longrightarrow> cluster_reach cfg noop c'"

end
