(* ===== verification/Sql_Cluster.thy ===== *)
theory Sql_Cluster
  imports Sql_Sink
begin

text \<open>
  Correctness of the SQL-backed sink: the invariant that ties the store and every node to the history
  of appended batches, its preservation by every step, and the properties that rest on it.
\<close>

section \<open>Runs of the history\<close>

text \<open>
  \<open>hrun noop h i\<close> is the state after the first \<open>i\<close> batches, \<open>hrow h i\<close> the payload of log row \<open>i\<close> and
  \<open>hres noop h i\<close> the results of batch \<open>i\<close>; rows are numbered from 1.
\<close>

definition hrun :: "u64 \<Rightarrow> batch list \<Rightarrow> nat \<Rightarrow> metadata_state" where
  "hrun noop h i = meta_run noop (concat (take i h))"

definition hrow :: "batch list \<Rightarrow> nat \<Rightarrow> bytes" where
  "hrow h i = encode_batch (h ! (i - 1))"

definition hres :: "u64 \<Rightarrow> batch list \<Rightarrow> nat \<Rightarrow> batch_results" where
  "hres noop h i = snd (apply_batch noop (hrun noop h (i - 1)) (h ! (i - 1)))"

text \<open>Batches that fit a row, and states that fit a snapshot, after every prefix.\<close>

definition history_ok :: "u64 \<Rightarrow> batch list \<Rightarrow> bool" where
  "history_ok noop h \<longleftrightarrow> list_all (vec_ok command_ok) h \<and>
    list_all (\<lambda>i. storable_log noop (concat (take i h))) [0..<Suc (length h)]"

lemma history_okD:
  assumes "history_ok noop h"
  shows "i < length h \<Longrightarrow> vec_ok command_ok (h ! i)"
    and "i \<le> length h \<Longrightarrow> storable_log noop (concat (take i h))"
  using assms by (simp_all add: history_ok_def list_all_length list_all_iff del: upt_Suc)

lemma history_okI:
  assumes "\<And>i. i < length h \<Longrightarrow> vec_ok command_ok (h ! i)"
    and "\<And>i. i \<le> length h \<Longrightarrow> storable_log noop (concat (take i h))"
  shows "history_ok noop h"
  using assms by (simp add: history_ok_def list_all_length del: upt_Suc)

lemma history_ok_prefix: "history_ok noop (h @ x) \<Longrightarrow> history_ok noop h"
proof (rule history_okI)
  fix i assume ok: "history_ok noop (h @ x)"
  show "vec_ok command_ok (h ! i)" if "i < length h"
    using history_okD(1) [OF ok, of i] that by (simp add: nth_append)
  show "storable_log noop (concat (take i h))" if "i \<le> length h"
    using history_okD(2) [OF ok, of i] that by simp
qed

lemma apply_batch_run: "fst (apply_batch noop st cs) = run_log (apply_state noop) st cs"
  by (induction cs arbitrary: st) (simp_all add: apply_state_def case_prod_unfold Let_def)

lemma apply_batch_length: "length (snd (apply_batch noop st cs)) = length cs"
  by (induction cs arbitrary: st) (simp_all add: case_prod_unfold Let_def)

lemma hrun_0 [simp]: "hrun noop h 0 = new_state"
  by (simp add: hrun_def)

lemma hrun_Suc: "i < length h \<Longrightarrow> fst (apply_batch noop (hrun noop h i) (h ! i)) = hrun noop h (Suc i)"
  by (simp add: hrun_def apply_batch_run take_Suc_conv_app_nth run_log_append)

lemma hist_append:
  "i \<le> length h \<Longrightarrow> hrun noop (h @ x) i = hrun noop h i"
  "0 < i \<Longrightarrow> i \<le> length h \<Longrightarrow> hrow (h @ x) i = hrow h i"
  "0 < i \<Longrightarrow> i \<le> length h \<Longrightarrow> hres noop (h @ x) i = hres noop h i"
  by (auto simp: hrun_def hrow_def hres_def nth_append)

lemma decode_hrun: "history_ok noop h \<Longrightarrow> i \<le> length h \<Longrightarrow> decode (encode (hrun noop h i)) = Inr (hrun noop h i)"
  unfolding hrun_def by (rule snapshot_restores) (rule history_okD)

lemma decode_hrow:
  assumes "history_ok noop h" and "0 < i" and "i \<le> length h"
  shows "decode_batch (hrow h i) = Inr (h ! (i - 1))"
proof -
  from assms have "vec_ok command_ok (h ! (i - 1))"
    by (intro history_okD(1)) auto
  then show ?thesis
    by (simp add: hrow_def decoders_whole read_batch whole_Inr)
qed


section \<open>The invariant\<close>

text \<open>The log holds the rows above some truncation point, which the snapshot covers.\<close>

definition store_inv :: "u64 \<Rightarrow> batch list \<Rightarrow> meta_store \<Rightarrow> bool" where
  "store_inv noop h s \<longleftrightarrow> length h < 2 ^ 63 \<and> snap_idx s \<le> length h \<and>
    (\<forall>i p. meta_snapshot s = Some (i, p) \<longrightarrow> p = encode (hrun noop h i)) \<and>
    (\<exists>t \<le> snap_idx s. log_shape s (hrow h) t (length h))"

text \<open>Fetched rows are consecutive, and a gap before them means a newer snapshot exists.\<close>

definition rows_inv :: "batch list \<Rightarrow> meta_store \<Rightarrow> nat \<Rightarrow> (nat \<times> bytes) list \<Rightarrow> bool" where
  "rows_inv h s applied rows \<longleftrightarrow> (\<exists>a b. rows = map (\<lambda>i. (i, hrow h i)) [a..<b] \<and> applied < a \<and>
    b \<le> Suc (length h) \<and> (Suc applied < a \<longrightarrow> applied < snap_idx s))"

definition open_inv :: "u64 \<Rightarrow> batch list \<Rightarrow> meta_store \<Rightarrow> replay \<Rightarrow> bool" where
  "open_inv noop h s p \<longleftrightarrow> op_applied p \<le> length h \<and> op_state p = hrun noop h (op_applied p) \<and>
    (case op_pc p of
       OpenRows rows \<Rightarrow> rows_inv h s (op_applied p) rows
     | OpenReload _ \<Rightarrow> op_applied p < snap_idx s
     | OpenFailed \<Rightarrow> False
     | _ \<Rightarrow> True)"

definition tail_inv :: "u64 \<Rightarrow> batch list \<Rightarrow> meta_store \<Rightarrow> sink \<Rightarrow> bool" where
  "tail_inv noop h s k \<longleftrightarrow> tl_applied k \<le> length h \<and> tl_state k = hrun noop h (tl_applied k) \<and>
    view_index k = tl_applied k \<and> view_state k = tl_state k \<and>
    last_seen k \<le> length h \<and> \<not> poisoned k \<and>
    (case tl_pc k of
       TailRows rows \<Rightarrow> rows_inv h s (tl_applied k) rows
     | TailDeliver idx results rows \<Rightarrow> idx = tl_applied k \<and> 0 < idx \<and> results = hres noop h idx \<and>
         rows_inv h s (tl_applied k) rows
     | TailRestore \<Rightarrow> tl_applied k < snap_idx s
     | TailHalted \<Rightarrow> False
     | _ \<Rightarrow> True)"

definition delivering :: "sink \<Rightarrow> nat \<Rightarrow> bool" where
  "delivering k i \<longleftrightarrow> (case tl_pc k of TailDeliver idx _ _ \<Rightarrow> idx = i | _ \<Rightarrow> False)"

text \<open>
  The flusher registers at most one index. A batch it awaits is the one in the log, and what its
  receiver holds are the results of that batch, which the view already contains; while the receiver
  waits, the tailer still has the row before it.
\<close>

definition registered :: "sink \<Rightarrow> nat \<Rightarrow> bool" where
  "registered k i \<longleftrightarrow> pending k = (if receiver k = RxWaiting then oput i () oempty else oempty)"

definition flush_inv :: "u64 \<Rightarrow> batch list \<Rightarrow> sink \<Rightarrow> bool" where
  "flush_inv noop h k \<longleftrightarrow>
    (case fl_pc k of
       FlushIndex i b \<Rightarrow> 0 < i \<and> i \<le> Suc (length h) \<and> pending k = oempty
     | FlushRegistered i b \<Rightarrow> 0 < i \<and> i \<le> Suc (length h) \<and> registered k i \<and>
         (length h < i \<longrightarrow> receiver k = RxWaiting)
     | FlushAwait i b \<Rightarrow> 0 < i \<and> i \<le> length h \<and> h ! (i - 1) = b \<and> registered k i \<and>
         (case receiver k of
            RxWaiting \<Rightarrow> tl_applied k < i \<or> delivering k i
          | RxReady results \<Rightarrow> results = hres noop h i \<and> i \<le> tl_applied k
          | RxClosed \<Rightarrow> i \<le> tl_applied k)
     | FlushLost i b \<Rightarrow> registered k i
     | _ \<Rightarrow> pending k = oempty)"

definition snap_inv :: "u64 \<Rightarrow> batch list \<Rightarrow> meta_store \<Rightarrow> sink \<Rightarrow> bool" where
  "snap_inv noop h s k \<longleftrightarrow>
    (case sn_pc k of
       SnapWait \<Rightarrow> True
     | SnapStore i payload \<Rightarrow> i \<le> length h \<and> payload = encode (hrun noop h i)
     | SnapTruncate i \<Rightarrow> i \<le> snap_idx s)"

definition reply_ok :: "u64 \<Rightarrow> batch list \<Rightarrow> nat \<Rightarrow> nat \<times> batch \<times> batch_results \<Rightarrow> bool" where
  "reply_ok noop h applied = (\<lambda>(i, b, results). 0 < i \<and> i \<le> applied \<and> h ! (i - 1) = b \<and> results = hres noop h i)"

definition node_inv :: "u64 \<Rightarrow> batch list \<Rightarrow> meta_store \<Rightarrow> node \<Rightarrow> bool" where
  "node_inv noop h s n \<longleftrightarrow>
    (case n of
       Down \<Rightarrow> True
     | Opening p \<Rightarrow> open_inv noop h s p
     | Running k \<Rightarrow> tail_inv noop h s k \<and> flush_inv noop h k \<and> snap_inv noop h s k \<and>
         list_all (reply_ok noop h (tl_applied k)) (replies k))"

text \<open>What the parts of the invariant depend on.\<close>

lemma tail_inv_cong:
  "tl_applied k' = tl_applied k \<Longrightarrow> tl_state k' = tl_state k \<Longrightarrow> tl_pc k' = tl_pc k \<Longrightarrow> view_index k' = view_index k \<Longrightarrow>
    view_state k' = view_state k \<Longrightarrow> last_seen k' = last_seen k \<Longrightarrow> poisoned k' = poisoned k \<Longrightarrow>
    tail_inv noop h s k' \<longleftrightarrow> tail_inv noop h s k"
  by (simp add: tail_inv_def cong: tailer.case_cong)

lemma flush_inv_cong:
  "fl_pc k' = fl_pc k \<Longrightarrow> pending k' = pending k \<Longrightarrow> receiver k' = receiver k \<Longrightarrow> tl_applied k' = tl_applied k \<Longrightarrow>
    tl_pc k' = tl_pc k \<Longrightarrow> flush_inv noop h k' \<longleftrightarrow> flush_inv noop h k"
  by (simp add: flush_inv_def registered_def delivering_def cong: flusher.case_cong receiver.case_cong)

lemma snap_inv_cong: "sn_pc k' = sn_pc k \<Longrightarrow> snap_inv noop h s k' \<longleftrightarrow> snap_inv noop h s k"
  by (simp add: snap_inv_def)

lemma node_inv_running:
  "node_inv noop h s (Running k) \<longleftrightarrow> tail_inv noop h s k \<and> flush_inv noop h k \<and> snap_inv noop h s k \<and>
    list_all (reply_ok noop h (tl_applied k)) (replies k)"
  by (simp add: node_inv_def)

lemma node_invD:
  assumes "node_inv noop h s (Running k)"
  shows "tail_inv noop h s k" "flush_inv noop h k" "snap_inv noop h s k"
  using assms by (simp_all add: node_inv_running)

text \<open>A step of the flusher leaves the other parts alone; so does one of the snapshot task.\<close>

lemma flusher_moves:
  assumes "node_inv noop h s (Running k)" and "flush_inv noop h k'"
    and "k' = k\<lparr>pending := pending k', receiver := receiver k', fl_pc := fl_pc k'\<rparr>"
  shows "node_inv noop h s (Running k')"
proof -
  have "tail_inv noop h s k' \<longleftrightarrow> tail_inv noop h s k"
    by (subst assms(3), rule tail_inv_cong) simp_all
  moreover have "snap_inv noop h s k' \<longleftrightarrow> snap_inv noop h s k"
    by (subst assms(3), rule snap_inv_cong) simp
  moreover have "tl_applied k' = tl_applied k" "replies k' = replies k"
    by (subst assms(3), simp)+
  ultimately show ?thesis
    using assms(1,2) by (simp add: node_inv_running)
qed

lemma snapshotter_moves:
  assumes "node_inv noop h s (Running k)" and "snap_inv noop h s k'"
    and "k' = k\<lparr>sn_last := sn_last k', sn_pc := sn_pc k'\<rparr>"
  shows "node_inv noop h s (Running k')"
proof -
  have "tail_inv noop h s k' \<longleftrightarrow> tail_inv noop h s k"
    by (subst assms(3), rule tail_inv_cong) simp_all
  moreover have "flush_inv noop h k' \<longleftrightarrow> flush_inv noop h k"
    by (subst assms(3), rule flush_inv_cong) simp_all
  moreover have "tl_applied k' = tl_applied k" "replies k' = replies k"
    by (subst assms(3), simp)+
  ultimately show ?thesis
    using assms(1,2) by (simp add: node_inv_running)
qed

section \<open>Other nodes' steps\<close>

lemma rows_inv_mono:
  assumes "rows_inv h s a rows" and "snap_idx s \<le> snap_idx s'"
  shows "rows_inv (h @ x) s' a rows"
proof -
  from assms(1) obtain i j where rows: "rows = map (\<lambda>i. (i, hrow h i)) [i..<j]" and le: "a < i" "j \<le> Suc (length h)"
    and gap: "Suc a < i \<longrightarrow> a < snap_idx s"
    by (auto simp: rows_inv_def)
  have "rows = map (\<lambda>i. (i, hrow (h @ x) i)) [i..<j]"
    unfolding rows using le by (auto simp: hist_append)
  with le gap assms(2) show ?thesis
    unfolding rows_inv_def by (intro exI [of _ i] exI [of _ j]) auto
qed

lemma tail_inv_mono:
  "tail_inv noop h s k \<Longrightarrow> snap_idx s \<le> snap_idx s' \<Longrightarrow> tail_inv noop (h @ x) s' k"
  by (auto simp: tail_inv_def hist_append rows_inv_mono split: tailer.splits)

lemma flush_inv_mono: "flush_inv noop h k \<Longrightarrow> flush_inv noop (h @ x) k"
  by (auto simp: flush_inv_def registered_def hist_append nth_append split: flusher.splits receiver.splits)

lemma snap_inv_mono:
  "snap_inv noop h s k \<Longrightarrow> snap_idx s \<le> snap_idx s' \<Longrightarrow> snap_inv noop (h @ x) s' k"
  by (auto simp: snap_inv_def hist_append split: snapshotter.splits)

lemma reply_ok_mono:
  "reply_ok noop h a r \<Longrightarrow> a \<le> length h \<Longrightarrow> a \<le> a' \<Longrightarrow> reply_ok noop (h @ x) a' r"
  by (auto simp: reply_ok_def hist_append nth_append)

lemma replies_mono:
  assumes "list_all (reply_ok noop h a) rs" and "a \<le> length h" and "a \<le> a'"
  shows "list_all (reply_ok noop (h @ x) a') rs"
  using assms(1) by (rule list.pred_mono_strong) (use assms in \<open>auto intro: reply_ok_mono\<close>)

lemma open_inv_mono:
  "open_inv noop h s p \<Longrightarrow> snap_idx s \<le> snap_idx s' \<Longrightarrow> open_inv noop (h @ x) s' p"
  by (auto simp: open_inv_def hist_append rows_inv_mono split: opener.splits)

lemma node_inv_mono:
  assumes "node_inv noop h s n" and "snap_idx s \<le> snap_idx s'"
  shows "node_inv noop (h @ x) s' n"
proof (cases n)
  case (Running k)
  with assms have "tl_applied k \<le> length h"
    by (simp add: node_inv_def tail_inv_def)
  with Running assms show ?thesis
    by (auto simp: node_inv_def tail_inv_mono flush_inv_mono snap_inv_mono intro: replies_mono)
qed (use assms in \<open>auto simp: node_inv_def open_inv_mono\<close>)

section \<open>Store calls\<close>

lemma fetch_inv:
  assumes "store_inv noop h s" and "a \<le> length h" and "fetch_after s a l = Inr rows"
  shows "rows_inv h s a rows"
proof -
  from assms(1) obtain t where t: "t \<le> snap_idx s" "log_shape s (hrow h) t (length h)" and N: "length h < 2 ^ 63"
    by (auto simp: store_inv_def)
  have "rows = map (\<lambda>i. (i, hrow h i)) [Suc (max a t)..<min (Suc (length h)) (Suc (max a t) + l)]"
    using log_shape_fetch [OF t(2), of a l] assms(2,3) N by simp
  moreover have "Suc a < Suc (max a t) \<longrightarrow> a < snap_idx s"
    using t(1) by auto
  ultimately show ?thesis
    unfolding rows_inv_def
    by (intro exI [of _ "Suc (max a t)"] exI [of _ "min (Suc (length h)) (Suc (max a t) + l)"]) (simp del: upt_Suc)
qed

lemma load_inv:
  assumes "store_inv noop h s" and "history_ok noop h" and "load_snapshot s = Some (i, p)"
  shows "i = snap_idx s" and "i \<le> length h" and "decode p = Inr (hrun noop h i)"
proof -
  from assms(1,3) show i: "i = snap_idx s" "i \<le> length h"
    by (auto simp: store_inv_def load_snapshot_def snap_idx_def)
  from assms(1,3) have "p = encode (hrun noop h i)"
    by (auto simp: store_inv_def load_snapshot_def)
  with i decode_hrun [OF assms(2)] show "decode p = Inr (hrun noop h i)"
    by simp
qed

lemma load_some: "0 < snap_idx s \<Longrightarrow> \<exists>p. load_snapshot s = Some (snap_idx s, p)"
  by (auto simp: snap_idx_def load_snapshot_def split: option.splits)

lemma last_idx_inv: "store_inv noop h s \<Longrightarrow> last_idx s = length h"
  by (auto simp: store_inv_def intro: log_shape_last)

lemma append_inv:
  assumes inv: "store_inv noop h s" and idx: "idx \<le> Suc (length h)"
    and run: "store_append s idx (encode_batch b) = Inr (s', won)"
  shows "store_inv noop (history h (if won then Some b else None)) s'"
    and "snap_idx s' = snap_idx s" and "if won then idx = Suc (length h) else idx \<le> length h"
proof -
  from inv obtain t where t: "t \<le> snap_idx s" "snap_idx s \<le> length h" "log_shape s (hrow h) t (length h)"
    by (auto simp: store_inv_def)
  note app = log_shape_append [OF t(3,1,2) run idx]
  from app show "snap_idx s' = snap_idx s"
    by (auto simp: snap_idx_def split: if_splits)
  from app show "if won then idx = Suc (length h) else idx \<le> length h"
    by (simp split: if_splits)
  show "store_inv noop (history h (if won then Some b else None)) s'"
  proof (cases won)
    case False
    with app inv show ?thesis by (simp add: history_def)
  next
    case True
    with app have s': "s' = s\<lparr>meta_log := oput (Suc (length h)) (encode_batch b) (meta_log s)\<rparr>"
      and N: "Suc (length h) < 2 ^ 63"
      by auto
    have snap: "snap_idx s' = snap_idx s" "meta_snapshot s' = meta_snapshot s"
      by (simp_all add: s' snap_idx_def)
    have same: "hrow (h @ [b]) i = hrow h i" if "i \<le> length h" "t < i" for i
      using that by (intro hist_append) auto
    have shape: "log_shape s' (hrow (h @ [b])) t (Suc (length h))"
      using t(3) same unfolding s' by (auto simp: log_shape_def hrow_def)
    have pay: "p = encode (hrun noop (h @ [b]) i)" if "meta_snapshot s = Some (i, p)" for i p
      using inv that by (auto simp: store_inv_def snap_idx_def hist_append)
    from True N shape t snap pay show ?thesis
      by (auto simp: store_inv_def history_def)
  qed
qed

lemma snapshot_inv:
  assumes inv: "store_inv noop h s" and i: "i \<le> length h" and run: "store_snapshot s i (encode (hrun noop h i)) = Inr s'"
  shows "store_inv noop h s'" and "snap_idx s \<le> snap_idx s'" and "i \<le> snap_idx s'"
proof -
  note c = store_snapshot_cases [OF run]
  show le: "snap_idx s \<le> snap_idx s'" "i \<le> snap_idx s'"
    by (fact c)+
  from inv obtain t where t: "t \<le> snap_idx s" "log_shape s (hrow h) t (length h)"
    by (auto simp: store_inv_def)
  from t(2) c(1) have "log_shape s' (hrow h) t (length h)"
    by (simp add: log_shape_def)
  with inv t(1) i c(4) le show "store_inv noop h s'"
    by (auto simp: store_inv_def snap_idx_def intro: order_trans)
qed

lemma truncate_inv:
  assumes inv: "store_inv noop h s" and i: "i \<le> snap_idx s" and run: "truncate_log s i = Inr s'"
  shows "store_inv noop h s'" and "snap_idx s' = snap_idx s"
proof -
  have snap: "meta_snapshot s' = meta_snapshot s"
    by (rule truncate_log_frame [OF run])
  then show eq: "snap_idx s' = snap_idx s"
    by (simp add: snap_idx_def)
  from inv obtain t where t: "t \<le> snap_idx s" "log_shape s (hrow h) t (length h)"
    by (auto simp: store_inv_def)
  have "log_shape s' (hrow h) (max t i) (length h)"
    by (rule log_shape_truncate [OF t(2) _ run]) (use inv i in \<open>auto simp: store_inv_def\<close>)
  with inv t(1) i snap eq show "store_inv noop h s'"
    by (auto simp: store_inv_def intro!: exI [of _ "max t i"])
qed

section \<open>Steps of the tasks\<close>

lemma rows_inv_Nil [simp]: "a \<le> length h \<Longrightarrow> rows_inv h s a []"
  unfolding rows_inv_def by (intro exI [of _ "Suc a"]) simp

lemma rows_inv_Cons:
  assumes "rows_inv h s a ((idx, payload) # rows)"
  shows "a < idx" "idx \<le> length h" "payload = hrow h idx" "Suc a < idx \<Longrightarrow> a < snap_idx s"
    and "rows_inv h s idx rows"
proof -
  from assms obtain i j where eq: "(idx, payload) # rows = map (\<lambda>i. (i, hrow h i)) [i..<j]"
    and le: "a < i" "j \<le> Suc (length h)" and gap: "Suc a < i \<longrightarrow> a < snap_idx s"
    unfolding rows_inv_def by (elim exE conjE) (rule that)
  have "i < j"
    using eq by (cases "i < j") simp_all
  then have "[i..<j] = i # [Suc i..<j]"
    by (rule upt_conv_Cons)
  with eq have hd: "idx = i" "payload = hrow h i" "rows = map (\<lambda>i. (i, hrow h i)) [Suc i..<j]"
    by simp_all
  from hd \<open>i < j\<close> le gap show "a < idx" "idx \<le> length h" "payload = hrow h idx" "Suc a < idx \<Longrightarrow> a < snap_idx s"
    by auto
  show "rows_inv h s idx rows"
    unfolding rows_inv_def using hd le \<open>i < j\<close> by (intro exI [of _ "Suc i"] exI [of _ j]) auto
qed

lemma batch_step:
  assumes "history_ok noop h" and "0 < i" and "i \<le> length h"
  shows "decode_batch (hrow h i) = Inr (h ! (i - 1))"
    and "apply_batch noop (hrun noop h (i - 1)) (h ! (i - 1)) = (hrun noop h i, hres noop h i)"
proof -
  show "decode_batch (hrow h i) = Inr (h ! (i - 1))"
    by (rule decode_hrow [OF assms])
  have "fst (apply_batch noop (hrun noop h (i - 1)) (h ! (i - 1))) = hrun noop h i"
    using hrun_Suc [of "i - 1" h noop] assms(2,3) by simp
  then show "apply_batch noop (hrun noop h (i - 1)) (h ! (i - 1)) = (hrun noop h i, hres noop h i)"
    by (simp add: hres_def prod_eq_iff)
qed

text \<open>Under the invariant a row either shows a gap or applies the next batch; it never poisons.\<close>

lemma tail_row_eq:
  assumes h: "history_ok noop h" and inv: "tail_inv noop h s k" and pc: "tl_pc k = TailRows ((idx, payload) # rows)"
  shows "tail_row noop idx payload rows k =
    (if Suc (tl_applied k) < idx then k\<lparr>tl_pc := TailRestore\<rparr>
     else k\<lparr>tl_state := hrun noop h idx, tl_applied := idx, last_seen := max (last_seen k) idx,
       view_index := idx, view_state := hrun noop h idx, tl_pc := TailDeliver idx (hres noop h idx) rows\<rparr>)"
proof (cases "Suc (tl_applied k) < idx")
  case True
  then show ?thesis by (simp add: tail_row_def)
next
  case False
  from inv pc have rows: "rows_inv h s (tl_applied k) ((idx, payload) # rows)"
    and st: "tl_state k = hrun noop h (tl_applied k)"
    by (simp_all add: tail_inv_def)
  note r = rows_inv_Cons [OF rows]
  from False r(1) have idx: "tl_applied k = idx - 1" "0 < idx"
    by auto
  note b = batch_step [OF h idx(2) r(2)]
  have "apply_batch noop (tl_state k) (h ! (idx - 1)) = (hrun noop h idx, hres noop h idx)"
    unfolding st idx(1) by (fact b(2))
  with False show ?thesis
    by (simp add: tail_row_def r(3) b(1) publish_def del: One_nat_def)
qed

lemma restore_eq:
  assumes h: "history_ok noop h" and s: "store_inv noop h s" and lt: "tl_applied k < snap_idx s"
  shows "restore_from_snapshot (load_snapshot s) k =
    (retain_pending (\<lambda>i. i > snap_idx s) (k\<lparr>last_seen := max (last_seen k) (snap_idx s), view_index := snap_idx s,
      view_state := hrun noop h (snap_idx s)\<rparr>))\<lparr>tl_state := hrun noop h (snap_idx s), tl_applied := snap_idx s,
      tl_pc := TailFetch\<rparr>"
proof -
  from lt have "0 < snap_idx s" by simp
  from load_some [OF this] obtain p where p: "load_snapshot s = Some (snap_idx s, p)" by blast
  note l = load_inv [OF s h p]
  from lt show ?thesis
    by (simp add: restore_from_snapshot_def p l(3) publish_def Let_def)
qed

lemma retain_pending_frame [simp]:
  "tl_state (retain_pending f k) = tl_state k" "tl_applied (retain_pending f k) = tl_applied k"
  "tl_pc (retain_pending f k) = tl_pc k" "view_index (retain_pending f k) = view_index k"
  "view_state (retain_pending f k) = view_state k" "last_seen (retain_pending f k) = last_seen k"
  "poisoned (retain_pending f k) = poisoned k" "fl_pc (retain_pending f k) = fl_pc k"
  "sn_last (retain_pending f k) = sn_last k" "sn_pc (retain_pending f k) = sn_pc k"
  "replies (retain_pending f k) = replies k"
  by (simp_all add: retain_pending_def Let_def)

lemma odel_single [simp]: "odel i (oput i v oempty) = oempty"
  by (simp add: om.del_put om.del_absent)

lemma retain_pending_eval:
  "pending k = oempty \<Longrightarrow> pending (retain_pending f k) = oempty \<and> receiver (retain_pending f k) = receiver k"
  "pending k = oput i () oempty \<Longrightarrow> f i \<Longrightarrow>
    pending (retain_pending f k) = pending k \<and> receiver (retain_pending f k) = receiver k"
  "pending k = oput i () oempty \<Longrightarrow> \<not> f i \<Longrightarrow> pending (retain_pending f k) = oempty \<and>
    receiver (retain_pending f k) = (if receiver k = RxWaiting then RxClosed else receiver k)"
  by (simp_all add: retain_pending_def Let_def)

lemma tail_moves:
  assumes inv: "node_inv noop h s (Running k)" and d: "\<And>i. \<not> delivering k i"
    and pc: "case pc of TailRows rows \<Rightarrow> rows_inv h s (tl_applied k) rows | TailDeliver _ _ _ \<Rightarrow> False
      | TailRestore \<Rightarrow> tl_applied k < snap_idx s | TailHalted \<Rightarrow> False | _ \<Rightarrow> True"
  shows "node_inv noop h s (Running (k\<lparr>tl_pc := pc\<rparr>))"
proof -
  note parts = inv [unfolded node_inv_running]
  have "tail_inv noop h s (k\<lparr>tl_pc := pc\<rparr>)"
    using parts pc by (auto simp: tail_inv_def split: tailer.splits)
  moreover have "flush_inv noop h (k\<lparr>tl_pc := pc\<rparr>)"
    using parts d by (auto simp: flush_inv_def registered_def split: flusher.splits receiver.splits)
  ultimately show ?thesis
    using parts snap_inv_cong [of "k\<lparr>tl_pc := pc\<rparr>" k] by (simp add: node_inv_running)
qed

lemma run_row:
  assumes h: "history_ok noop h" and inv: "node_inv noop h s (Running k)" and pc: "tl_pc k = TailRows ((idx, payload) # rows)"
  shows "node_inv noop h s (Running (tail_row noop idx payload rows k))"
proof -
  from inv have t: "tail_inv noop h s k" and f: "flush_inv noop h k" and sn: "snap_inv noop h s k"
    and rp: "list_all (reply_ok noop h (tl_applied k)) (replies k)"
    by (simp_all add: node_inv_def)
  from t pc have rows: "rows_inv h s (tl_applied k) ((idx, payload) # rows)" and a: "tl_applied k \<le> length h"
    by (simp_all add: tail_inv_def)
  note r = rows_inv_Cons [OF rows]
  let ?k = "tail_row noop idx payload rows k"
  note eq = tail_row_eq [OF h t pc]
  show ?thesis
  proof (cases "Suc (tl_applied k) < idx")
    case True
    with eq r(4) pc show ?thesis
      using tail_moves [OF inv, of TailRestore] by (simp add: delivering_def)
  next
    case False
    with r(1) have idx: "idx = Suc (tl_applied k)" by simp
    have "tail_inv noop h s ?k"
      using eq False t r by (simp add: tail_inv_def)
    moreover have "flush_inv noop h ?k"
      using f pc unfolding eq using False idx
      by (auto simp: flush_inv_def registered_def delivering_def split: flusher.splits receiver.splits)
    moreover have "snap_inv noop h s ?k"
      using sn eq False by (simp add: snap_inv_def)
    moreover have "list_all (reply_ok noop h (tl_applied ?k)) (replies ?k)"
      using replies_mono [OF rp a, of idx "[]"] eq False idx by simp
    ultimately show ?thesis by (simp add: node_inv_def)
  qed
qed

lemma run_deliver:
  assumes inv: "node_inv noop h s (Running k)" and pc: "tl_pc k = TailDeliver idx results rows"
  shows "node_inv noop h s (Running (tail_deliver idx results rows k))"
proof -
  from inv pc have idx: "idx = tl_applied k" "results = hres noop h idx" "tl_applied k \<le> length h" and f: "flush_inv noop h k"
    by (simp_all add: node_inv_def tail_inv_def)
  have "flush_inv noop h (tail_deliver idx results rows k)"
    using f pc idx
    by (auto simp: flush_inv_def registered_def tail_deliver_def delivering_def split: flusher.splits receiver.splits)
  with inv pc show ?thesis
    by (auto simp: node_inv_def tail_inv_def tail_deliver_def snap_inv_def)
qed

lemma flush_restore:
  assumes f: "flush_inv noop h k" and a: "tl_applied k < n" "n \<le> length h" "tl_applied k' = n"
    and t: "\<And>i. \<not> delivering k i" and fr: "fl_pc k' = fl_pc k"
    and none: "pending k = oempty \<Longrightarrow> pending k' = oempty \<and> receiver k' = receiver k"
    and kept: "\<And>i. pending k = oput i () oempty \<Longrightarrow> n < i \<Longrightarrow> pending k' = pending k \<and> receiver k' = receiver k"
    and gone: "\<And>i. pending k = oput i () oempty \<Longrightarrow> \<not> n < i \<Longrightarrow> pending k' = oempty \<and>
      receiver k' = (if receiver k = RxWaiting then RxClosed else receiver k)"
  shows "flush_inv noop h k'"
proof -
  have reg: "registered k' i \<and> receiver k' = (if receiver k = RxWaiting \<and> i \<le> n then RxClosed else receiver k)"
    if "registered k i" for i
    using that none kept [of i] gone [of i]
    by (cases "receiver k = RxWaiting"; cases "n < i") (auto simp: registered_def)
  show ?thesis
  proof (cases "fl_pc k")
    case (FlushRegistered i b)
    with f fr a(2) reg [of i] show ?thesis
      by (auto simp: flush_inv_def)
  next
    case (FlushAwait i b)
    with f fr a t reg [of i] show ?thesis
      by (auto simp: flush_inv_def split: receiver.splits if_splits)
  qed (use f fr none reg in \<open>auto simp: flush_inv_def\<close>)
qed

lemma run_restore:
  assumes h: "history_ok noop h" and s: "store_inv noop h s" and inv: "node_inv noop h s (Running k)"
    and pc: "tl_pc k = TailRestore"
  shows "node_inv noop h s (Running (restore_from_snapshot (load_snapshot s) k))"
proof -
  let ?k = "restore_from_snapshot (load_snapshot s) k"
  from inv have t: "tail_inv noop h s k" and f: "flush_inv noop h k" and sn: "snap_inv noop h s k"
    and rp: "list_all (reply_ok noop h (tl_applied k)) (replies k)"
    by (simp_all add: node_inv_def)
  from t pc have lt: "tl_applied k < snap_idx s" and a: "tl_applied k \<le> length h"
    by (simp_all add: tail_inv_def)
  note eq = restore_eq [OF h s lt]
  have N: "snap_idx s \<le> length h"
    using s by (simp add: store_inv_def)
  have "tail_inv noop h s ?k"
    using eq t N by (simp add: tail_inv_def)
  moreover have "flush_inv noop h ?k"
    by (rule flush_restore [OF f lt N]) (simp_all add: eq retain_pending_eval delivering_def pc)
  moreover have "snap_inv noop h s ?k"
    using sn eq by (simp add: snap_inv_def)
  moreover have "list_all (reply_ok noop h (tl_applied ?k)) (replies ?k)"
    using replies_mono [OF rp a, of "snap_idx s" "[]"] eq lt by simp
  ultimately show ?thesis by (simp add: node_inv_def)
qed

lemma flush_appended_inv:
  assumes inv: "node_inv noop h s (Running k)" and pc: "fl_pc k = FlushRegistered idx b"
    and s: "snap_idx s' = snap_idx s" and won: "if won then idx = Suc (length h) else idx \<le> length h"
  shows "node_inv noop (history h (if won then Some b else None)) s' (Running (flush_appended won idx b k))"
    (is "node_inv noop ?h s' (Running ?k)")
proof (rule flusher_moves)
  have "\<exists>x. ?h = h @ x"
    by (simp add: history_def)
  then show "node_inv noop ?h s' (Running k)"
    using node_inv_mono [OF inv, of s'] s by auto
  have f: "flush_inv noop h k" and a: "tl_applied k \<le> length h"
    using inv by (simp_all add: node_inv_def tail_inv_def)
  then show "flush_inv noop ?h ?k"
    using pc won by (cases won) (auto simp: flush_inv_def registered_def flush_appended_def history_def nth_append)
qed (simp add: flush_appended_def)

lemma flush_drop_inv:
  assumes inv: "node_inv noop h s (Running k)"
  shows "fl_pc k = FlushRegistered idx b \<Longrightarrow> node_inv noop h s (Running (flush_append_failed idx k))"
    and "fl_pc k = FlushLost idx b \<Longrightarrow> node_inv noop h s (Running (flush_lost idx b k))"
  by (rule flusher_moves [OF inv]; use node_invD(2) [OF inv] in
    \<open>auto simp: flush_inv_def registered_def flush_append_failed_def flush_lost_def om.del_absent\<close>)+

lemma flush_local_inv:
  assumes inv: "node_inv noop h s (Running k)"
  shows "fl_pc k = FlushIdle \<Longrightarrow> node_inv noop h s (Running (flush_take b k))"
    and "fl_pc k = FlushNext b \<Longrightarrow> node_inv noop h s (Running (flush_next b k))"
    and "fl_pc k = FlushIndex idx b \<Longrightarrow> node_inv noop h s (Running (flush_register idx b k))"
    and "fl_pc k = FlushRefresh b \<Longrightarrow> node_inv noop h s (Running (k\<lparr>fl_pc := FlushIdle\<rparr>))"
  by (rule flusher_moves [OF inv]; use node_invD(1,2) [OF inv] in
    \<open>auto simp: tail_inv_def flush_inv_def registered_def flush_take_def flush_next_def flush_register_def\<close>)+

lemma flush_refresh_inv:
  assumes inv: "node_inv noop h s (Running k)" and pc: "fl_pc k = FlushRefresh b" and n: "n \<le> length h"
  shows "node_inv noop h s (Running (flush_refresh n b k))"
proof -
  have "tail_inv noop h s (flush_refresh n b k)"
    using inv n by (auto simp: node_inv_def tail_inv_def flush_refresh_def split: tailer.splits)
  with inv pc show ?thesis
    by (auto simp: node_inv_running flush_inv_def flush_refresh_def snap_inv_def split: snapshotter.splits)
qed

lemma flush_reply_inv:
  assumes inv: "node_inv noop h s (Running k)" and pc: "fl_pc k = FlushAwait idx b" and rx: "receiver k \<noteq> RxWaiting"
  shows "node_inv noop h s (Running (flush_reply idx b k))"
proof -
  let ?k = "flush_reply idx b k"
  note parts = inv [unfolded node_inv_running]
  have "tail_inv noop h s ?k \<longleftrightarrow> tail_inv noop h s k" "snap_inv noop h s ?k \<longleftrightarrow> snap_inv noop h s k"
    by (rule tail_inv_cong snap_inv_cong; simp add: flush_reply_def split: receiver.split)+
  moreover have "flush_inv noop h ?k"
    using parts pc rx by (auto simp: flush_inv_def registered_def flush_reply_def split: receiver.splits)
  moreover have "list_all (reply_ok noop h (tl_applied ?k)) (replies ?k)"
    using parts pc rx by (auto simp: flush_inv_def flush_reply_def reply_ok_def split: receiver.splits)
  ultimately show ?thesis
    using parts by (simp add: node_inv_running)
qed

lemma tail_local_inv:
  assumes inv: "node_inv noop h s (Running k)"
  shows "tl_pc k = TailFetch \<Longrightarrow> rows_inv h s (tl_applied k) rows \<Longrightarrow> node_inv noop h s (Running (tail_fetch rows k))"
    and "tl_pc k = TailEmpty \<Longrightarrow> node_inv noop h s (Running (tail_empty (snapshot_idx s) k))"
    and "tl_pc k = TailEmpty \<Longrightarrow> node_inv noop h s (Running (tail_empty None k))"
    and "tl_pc k = TailRows [] \<Longrightarrow> node_inv noop h s (Running (k\<lparr>tl_pc := TailFetch\<rparr>))"
    and "tl_pc k = TailRestore \<Longrightarrow> node_inv noop h s (Running (k\<lparr>tl_pc := TailFetch\<rparr>))"
  by (auto simp: tail_fetch_def tail_empty_def delivering_def snapshot_idx_def snap_idx_def split: option.split
    intro!: tail_moves [OF inv])

lemma snap_local_inv:
  assumes inv: "node_inv noop h s (Running k)"
  shows "node_inv noop h s (Running (snap_wake k))"
    and "node_inv noop h s (Running (k\<lparr>sn_pc := SnapWait\<rparr>))"
    and "i \<le> snap_idx s \<Longrightarrow> node_inv noop h s (Running (snap_stored i k))"
  by (rule snapshotter_moves [OF inv]; use node_invD(1) [OF inv] in
    \<open>simp add: tail_inv_def snap_inv_def snap_wake_def snap_stored_def\<close>)+

lemma open_load_inv:
  assumes h: "history_ok noop h" and s: "store_inv noop h s"
  shows "open_inv noop h s (open_load (load_snapshot s) p)"
proof (cases "load_snapshot s")
  case None
  then show ?thesis by (simp add: open_load_def open_inv_def)
next
  case (Some r)
  then obtain i q where r: "load_snapshot s = Some (i, q)" by (cases r) simp
  from load_inv [OF s h r] r show ?thesis
    by (simp add: open_load_def open_inv_def)
qed

lemma open_row_eq:
  assumes h: "history_ok noop h" and inv: "open_inv noop h s p" and pc: "op_pc p = OpenRows ((idx, payload) # rows)"
  shows "open_row noop idx payload rows p =
    (if Suc (op_applied p) < idx then p\<lparr>op_pc := OpenReload idx\<rparr>
     else p\<lparr>op_state := hrun noop h idx, op_applied := idx, op_pc := OpenRows rows\<rparr>)"
proof (cases "Suc (op_applied p) < idx")
  case True
  then show ?thesis by (simp add: open_row_def)
next
  case False
  from inv pc have rows: "rows_inv h s (op_applied p) ((idx, payload) # rows)"
    and st: "op_state p = hrun noop h (op_applied p)"
    by (simp_all add: open_inv_def)
  note r = rows_inv_Cons [OF rows]
  from False r(1) have idx: "op_applied p = idx - 1" "0 < idx"
    by auto
  note b = batch_step [OF h idx(2) r(2)]
  have "apply_batch noop (op_state p) (h ! (idx - 1)) = (hrun noop h idx, hres noop h idx)"
    unfolding st idx(1) by (fact b(2))
  with False show ?thesis
    by (simp add: open_row_def r(3) b(1) del: One_nat_def)
qed

lemma open_row_inv:
  assumes h: "history_ok noop h" and inv: "open_inv noop h s p" and pc: "op_pc p = OpenRows ((idx, payload) # rows)"
  shows "open_inv noop h s (open_row noop idx payload rows p)"
proof -
  from inv pc have rows: "rows_inv h s (op_applied p) ((idx, payload) # rows)"
    by (simp add: open_inv_def)
  note r = rows_inv_Cons [OF rows]
  from inv r show ?thesis
    unfolding open_row_eq [OF h inv pc] by (simp add: open_inv_def)
qed

lemma open_reload_eq:
  assumes h: "history_ok noop h" and s: "store_inv noop h s" and lt: "0 < snap_idx s"
  shows "open_reload (load_snapshot s) p =
    \<lparr>op_state = hrun noop h (snap_idx s), op_applied = snap_idx s, op_base = snap_idx s, op_pc = OpenFetch\<rparr>"
proof -
  from load_some [OF lt] obtain q where q: "load_snapshot s = Some (snap_idx s, q)" by blast
  from load_inv [OF s h q] show ?thesis
    by (simp add: open_reload_def q)
qed

lemma open_reload_inv:
  assumes h: "history_ok noop h" and s: "store_inv noop h s" and inv: "open_inv noop h s p" and pc: "op_pc p = OpenReload idx"
  shows "open_inv noop h s (open_reload (load_snapshot s) p)"
proof -
  from inv pc have "0 < snap_idx s" by (simp add: open_inv_def)
  from open_reload_eq [OF h s this] s show ?thesis
    by (simp add: open_inv_def store_inv_def)
qed

lemma start_sink_inv:
  "open_inv noop h s p \<Longrightarrow> node_inv noop h s (Running (start_sink (op_state p) (op_applied p) (op_base p)))"
  by (simp add: open_inv_def node_inv_def tail_inv_def flush_inv_def snap_inv_def start_sink_def)

section \<open>Every step keeps the invariant\<close>

lemma history_None [simp]: "history h None = h"
  by (simp add: history_def)

lemma node_step_inv:
  assumes "node_step cfg noop s n s' n' b" and "history_ok noop (history h b)"
    and "store_inv noop h s" and "node_inv noop h s n"
  shows "store_inv noop (history h b) s' \<and> node_inv noop (history h b) s' n' \<and> snap_idx s \<le> snap_idx s'"
  using assms
proof (induction rule: node_step.induct)
  case boot
  then show ?case by (simp add: node_inv_def open_inv_def open_start_def)
next
  case (crash n)
  then show ?case by (simp add: node_inv_def)
next
  case (open_load p)
  then show ?case by (simp add: node_inv_def open_load_inv)
next
  case (open_fetch p rows)
  then show ?case by (auto simp: node_inv_def open_inv_def intro: fetch_inv)
next
  case (open_done p)
  then show ?case by (auto simp: node_inv_def [of _ _ _ "Opening p"] intro: start_sink_inv)
next
  case (open_row p idx payload rows)
  then show ?case by (simp add: node_inv_def open_row_inv)
next
  case (open_rows p)
  then show ?case by (simp add: node_inv_def open_inv_def)
next
  case (open_reload p idx)
  then show ?case by (simp add: node_inv_def open_reload_inv)
next
  case (fetch k rows)
  then have "tl_applied k \<le> length h"
    by (simp add: node_inv_def tail_inv_def)
  with fetch show ?case by (simp add: tail_local_inv(1) fetch_inv)
next
  case (row k idx payload rows)
  then show ?case by (simp add: run_row)
next
  case (restore k)
  then show ?case by (simp add: run_restore)
next
  case (append k idx commands s' won)
  then have idx: "idx \<le> Suc (length h)"
    by (simp add: node_inv_def flush_inv_def)
  note a = append_inv [OF append(4) idx append(2)]
  from a flush_appended_inv [OF append(5,1) a(2,3)] show ?case by simp
next
  case (append_unknown k idx commands s' won)
  then have idx: "idx \<le> Suc (length h)"
    by (simp add: node_inv_def flush_inv_def)
  note a = append_inv [OF append_unknown(4) idx append_unknown(2)]
  have "node_inv noop (history h (if won then Some commands else None)) s' (Running (flush_append_failed idx k))"
    unfolding history_def
    by (rule node_inv_mono [OF flush_drop_inv(1) [OF append_unknown(5,1)]]) (use a(2) in simp)
  with a show ?case by simp
next
  case (refresh k commands)
  then show ?case by (simp add: flush_refresh_inv last_idx_inv)
next
  case (store k applied payload s')
  then have p: "applied \<le> length h" "payload = encode (hrun noop h applied)"
    by (simp_all add: node_inv_def snap_inv_def)
  note si = snapshot_inv [OF store(4) p(1) store(2) [unfolded p(2)]]
  from node_inv_mono [OF store(5) si(2), of "[]"] si show ?case
    by (simp add: snap_local_inv(3))
next
  case (store_unknown k applied payload s')
  then have p: "applied \<le> length h" "payload = encode (hrun noop h applied)"
    by (simp_all add: node_inv_def snap_inv_def)
  note si = snapshot_inv [OF store_unknown(4) p(1) store_unknown(2) [unfolded p(2)]]
  from node_inv_mono [OF store_unknown(5) si(2), of "[]"] si show ?case
    by (simp add: snap_local_inv(2))
next
  case (truncate k applied s')
  then have p: "applied \<le> snap_idx s"
    by (simp add: node_inv_def snap_inv_def)
  note ti = truncate_inv [OF truncate(4) p truncate(2)]
  from node_inv_mono [OF truncate(5), of s' "[]"] ti show ?case
    by (simp add: snap_local_inv(2))
qed (simp_all add: tail_local_inv run_deliver flush_local_inv flush_drop_inv flush_reply_inv snap_local_inv)

definition cluster_inv :: "u64 \<Rightarrow> cluster \<Rightarrow> bool" where
  "cluster_inv noop c \<longleftrightarrow> store_inv noop (cl_hist c) (cl_store c) \<and>
    (\<forall>i. node_inv noop (cl_hist c) (cl_store c) (cl_nodes c i))"

lemma cluster_step_hist: "cluster_step cfg noop c c' \<Longrightarrow> \<exists>x. cl_hist c' = cl_hist c @ x"
  by (auto simp: cluster_step.simps history_def)

lemma cluster_step_inv:
  assumes "cluster_step cfg noop c c'" and "history_ok noop (cl_hist c')" and "cluster_inv noop c"
  shows "cluster_inv noop c'"
  using assms(1)
proof cases
  case (move i s n b)
  have "store_inv noop (cl_hist c') s \<and> node_inv noop (cl_hist c') s n \<and> snap_idx (cl_store c) \<le> snap_idx s"
    using node_step_inv [OF move(2)] assms(2,3) move(1) by (simp add: cluster_inv_def)
  moreover have "node_inv noop (cl_hist c') s (cl_nodes c j)"
    if "snap_idx (cl_store c) \<le> snap_idx s" for j
  proof -
    from cluster_step_hist [OF assms(1)] obtain x where x: "cl_hist c' = cl_hist c @ x" by blast
    from assms(3) have "node_inv noop (cl_hist c) (cl_store c) (cl_nodes c j)"
      by (simp add: cluster_inv_def)
    from node_inv_mono [OF this that, of x] x show ?thesis by simp
  qed
  ultimately show ?thesis
    using move(1) by (auto simp: cluster_inv_def)
qed

lemma cluster_start_inv: "cluster_inv noop cluster_start"
  by (auto simp: cluster_inv_def cluster_start_def store_inv_def node_inv_def migrate_def snap_idx_def log_shape_def)

lemma cluster_reach_inv: "cluster_reach cfg noop c \<Longrightarrow> history_ok noop (cl_hist c) \<Longrightarrow> cluster_inv noop c"
proof (induction rule: cluster_reach.induct)
  case cluster_init
  then show ?case by (simp add: cluster_start_inv)
next
  case (cluster_next c c')
  then have "history_ok noop (cl_hist c)"
    using cluster_step_hist history_ok_prefix by metis
  with cluster_next show ?case by (blast intro: cluster_step_inv)
qed

section \<open>Catching up\<close>

text \<open>Steps of one node that leave the store alone and append nothing.\<close>

abbreviation quiet :: "sql_config \<Rightarrow> u64 \<Rightarrow> meta_store \<Rightarrow> node \<Rightarrow> node \<Rightarrow> bool" where
  "quiet cfg noop s \<equiv> (\<lambda>n n'. node_step cfg noop s n s n' None)\<^sup>*\<^sup>*"

abbreviation cluster_steps :: "sql_config \<Rightarrow> u64 \<Rightarrow> cluster \<Rightarrow> cluster \<Rightarrow> bool" where
  "cluster_steps cfg noop \<equiv> (cluster_step cfg noop)\<^sup>*\<^sup>*"

lemma quiet_inv:
  assumes "quiet cfg noop s n n'" and "history_ok noop h" and "store_inv noop h s" and "node_inv noop h s n"
  shows "node_inv noop h s n'"
  using assms(1)
proof (induction rule: rtranclp_induct)
  case base
  show ?case by (fact assms(4))
next
  case (step m n)
  from node_step_inv [OF step(2), of h] step(3) assms(2,3) show ?case by simp
qed

lemma quiet_cluster:
  assumes "quiet cfg noop (cl_store c) n n'" and "cl_nodes c i = n"
  shows "cluster_steps cfg noop c (c\<lparr>cl_nodes := (cl_nodes c)(i := n')\<rparr>)"
  using assms(1)
proof (induction rule: rtranclp_induct)
  case base
  have "(cl_nodes c)(i := n) = cl_nodes c"
    using assms(2) by auto
  then show ?case by simp
next
  case (step m n)
  let ?c = "c\<lparr>cl_nodes := (cl_nodes c)(i := m)\<rparr>"
  have "cluster_step cfg noop ?c \<lparr>cl_store = cl_store c, cl_nodes = (cl_nodes ?c)(i := n),
      cl_hist = history (cl_hist ?c) None\<rparr>"
    by (rule cluster_step.move) (use step(2) in simp)
  moreover have "\<lparr>cl_store = cl_store c, cl_nodes = (cl_nodes ?c)(i := n), cl_hist = history (cl_hist ?c) None\<rparr> =
      c\<lparr>cl_nodes := (cl_nodes c)(i := n)\<rparr>"
    by simp
  ultimately have "cluster_step cfg noop ?c (c\<lparr>cl_nodes := (cl_nodes c)(i := n)\<rparr>)"
    by (simp only:)
  with step(3) show ?case by (rule rtranclp.rtrancl_into_rtrancl)
qed

lemma cluster_steps_reach: "cluster_steps cfg noop c c' \<Longrightarrow> cluster_reach cfg noop c \<Longrightarrow> cluster_reach cfg noop c'"
  by (induction rule: rtranclp_induct) (auto intro: cluster_next)

lemma cluster_steps_hist: "cluster_steps cfg noop c c' \<Longrightarrow> prefix (cl_hist c) (cl_hist c')"
  by (induction rule: rtranclp_induct) (auto dest!: cluster_step_hist intro: prefix_order.trans)

text \<open>The tailer moves on while the flusher waits.\<close>

definition advances :: "sql_config \<Rightarrow> u64 \<Rightarrow> meta_store \<Rightarrow> sink \<Rightarrow> sink \<Rightarrow> bool" where
  "advances cfg noop s k k' \<longleftrightarrow> quiet cfg noop s (Running k) (Running k') \<and> fl_pc k' = fl_pc k \<and>
    tl_applied k \<le> tl_applied k'"

lemma advances_refl: "advances cfg noop s k k"
  by (simp add: advances_def)

lemma advances_trans: "advances cfg noop s k l \<Longrightarrow> advances cfg noop s l m \<Longrightarrow> advances cfg noop s k m"
  by (auto simp: advances_def)

lemma advances_step:
  "node_step cfg noop s (Running k) s (Running l) None \<Longrightarrow> fl_pc l = fl_pc k \<Longrightarrow> tl_applied k \<le> tl_applied l \<Longrightarrow>
    advances cfg noop s k l"
  by (auto simp: advances_def)

lemma advances_inv:
  "advances cfg noop s k l \<Longrightarrow> history_ok noop h \<Longrightarrow> store_inv noop h s \<Longrightarrow> node_inv noop h s (Running k) \<Longrightarrow>
    node_inv noop h s (Running l)"
  by (auto simp: advances_def intro: quiet_inv)

lemma advance_restore:
  assumes "history_ok noop h" and "store_inv noop h s" and "node_inv noop h s (Running k)" and pc: "tl_pc k = TailRestore"
  shows "\<exists>l. advances cfg noop s k l \<and> tl_pc l = TailFetch \<and> tl_applied k < tl_applied l"
proof -
  from assms have lt: "tl_applied k < snap_idx s"
    by (simp add: node_inv_def tail_inv_def)
  note eq = restore_eq [OF assms(1,2) lt]
  have "advances cfg noop s k (restore_from_snapshot (load_snapshot s) k)"
    by (rule advances_step [OF node_step.restore [OF pc]]) (use lt in \<open>simp_all add: eq\<close>)
  with lt show ?thesis
    by (intro exI [of _ "restore_from_snapshot (load_snapshot s) k"]) (simp add: eq)
qed

lemma advance_rows:
  assumes h: "history_ok noop h" and s: "store_inv noop h s"
  shows "node_inv noop h s (Running k) \<Longrightarrow> tl_pc k = TailRows rows \<Longrightarrow>
    \<exists>l. advances cfg noop s k l \<and> tl_pc l = TailFetch \<and> (rows \<noteq> [] \<longrightarrow> tl_applied k < tl_applied l)"
proof (induction rows arbitrary: k)
  case Nil
  have "advances cfg noop s k (k\<lparr>tl_pc := TailFetch\<rparr>)"
    by (rule advances_step [OF node_step.rows [OF Nil(2)]]) simp_all
  then show ?case by (intro exI [of _ "k\<lparr>tl_pc := TailFetch\<rparr>"]) simp
next
  case (Cons r rows)
  obtain idx payload where r: "r = (idx, payload)" by (cases r)
  note pc = Cons(3) [unfolded r]
  have t: "tail_inv noop h s k"
    by (rule node_invD [OF Cons(2)])
  note eq = tail_row_eq [OF h t pc]
  from t pc have "rows_inv h s (tl_applied k) ((idx, payload) # rows)"
    by (simp add: tail_inv_def)
  then have lt: "tl_applied k < idx" by (rule rows_inv_Cons)
  let ?k = "tail_row noop idx payload rows k"
  have k: "advances cfg noop s k ?k"
    by (rule advances_step [OF node_step.row [OF pc]]) (use lt in \<open>simp_all add: eq\<close>)
  note kinv = advances_inv [OF k h s Cons(2)]
  show ?case
  proof (cases "Suc (tl_applied k) < idx")
    case True
    then have "tl_pc ?k = TailRestore" "tl_applied ?k = tl_applied k" by (simp_all add: eq)
    with advance_restore [OF h s kinv] advances_trans [OF k] show ?thesis by metis
  next
    case False
    then have pc': "tl_pc ?k = TailDeliver idx (hres noop h idx) rows" and a: "tl_applied ?k = idx"
      by (simp_all add: eq)
    let ?d = "tail_deliver idx (hres noop h idx) rows ?k"
    have d: "advances cfg noop s ?k ?d"
      by (rule advances_step [OF node_step.deliver [OF pc']]) (simp_all add: tail_deliver_def)
    note kd = advances_trans [OF k d]
    have pcd: "tl_pc ?d = TailRows rows" by (simp add: tail_deliver_def)
    have ad: "tl_applied ?d = idx" by (simp add: tail_deliver_def a)
    from Cons(1) [OF advances_inv [OF kd h s Cons(2)] pcd] obtain l where
      l: "advances cfg noop s ?d l" "tl_pc l = TailFetch" by blast
    then have "idx \<le> tl_applied l"
      using ad by (auto simp: advances_def)
    with l lt advances_trans [OF kd l(1)] show ?thesis by auto
  qed
qed

lemma advance_fetch:
  assumes h: "history_ok noop h" and s: "store_inv noop h s" and inv: "node_inv noop h s (Running k)"
    and pc: "tl_pc k = TailFetch" and lt: "tl_applied k < length h" and limit: "0 < fetch_limit cfg"
  shows "\<exists>l. advances cfg noop s k l \<and> tl_pc l = TailFetch \<and> tl_applied k < tl_applied l"
proof -
  from s obtain t where t: "t \<le> snap_idx s" "log_shape s (hrow h) t (length h)" and N: "length h < 2 ^ 63"
    by (auto simp: store_inv_def)
  define rows where "rows = map (\<lambda>i. (i, hrow h i)) [Suc (max (tl_applied k) t)..<
    min (Suc (length h)) (Suc (max (tl_applied k) t) + fetch_limit cfg)]"
  have fetch: "fetch_after s (tl_applied k) (fetch_limit cfg) = Inr rows"
    unfolding rows_def using lt N by (intro log_shape_fetch [OF t(2)]) simp
  let ?f = "tail_fetch rows k"
  have f: "advances cfg noop s k ?f"
    by (rule advances_step [OF node_step.fetch [OF pc fetch]]) (simp_all add: tail_fetch_def)
  have a: "tl_applied ?f = tl_applied k" by (simp add: tail_fetch_def)
  note finv = advances_inv [OF f h s inv]
  show ?thesis
  proof (cases "rows = []")
    case False
    then have "tl_pc ?f = TailRows rows" by (simp add: tail_fetch_def)
    from advance_rows [OF h s finv this] False advances_trans [OF f] a show ?thesis by metis
  next
    case True
    then have "min (Suc (length h)) (Suc (max (tl_applied k) t) + fetch_limit cfg) \<le> Suc (max (tl_applied k) t)"
      unfolding rows_def by (simp del: upt_Suc)
    with lt limit t(1) have snap: "tl_applied k < snap_idx s"
      by (auto simp: min_def max_def split: if_splits)
    have pce: "tl_pc ?f = TailEmpty" using True by (simp add: tail_fetch_def)
    have idx: "snapshot_idx s = Some (snap_idx s)"
      using snap by (auto simp: snapshot_idx_def snap_idx_def split: option.splits)
    let ?e = "tail_empty (snapshot_idx s) ?f"
    have e: "advances cfg noop s ?f ?e"
      by (rule advances_step [OF node_step.empty [OF pce]]) (simp_all add: tail_empty_def idx)
    note fe = advances_trans [OF f e]
    have "tl_pc ?e = TailRestore" "tl_applied ?e = tl_applied k"
      using snap a by (simp_all add: tail_empty_def idx)
    with advance_restore [OF h s advances_inv [OF fe h s inv]] advances_trans [OF fe] show ?thesis by metis
  qed
qed

lemma advance_to_fetch:
  assumes h: "history_ok noop h" and s: "store_inv noop h s" and inv: "node_inv noop h s (Running k)"
  shows "\<exists>l. advances cfg noop s k l \<and> tl_pc l = TailFetch"
proof (cases "tl_pc k")
  case TailFetch
  with advances_refl show ?thesis by blast
next
  case TailEmpty
  have "advances cfg noop s k (tail_empty None k)"
    by (rule advances_step [OF node_step.empty_error [OF TailEmpty]]) (simp_all add: tail_empty_def)
  then show ?thesis by (intro exI [of _ "tail_empty None k"]) (simp add: tail_empty_def)
next
  case (TailRows rows)
  from advance_rows [OF h s inv this] show ?thesis by blast
next
  case (TailDeliver idx res rows)
  let ?d = "tail_deliver idx res rows k"
  have d: "advances cfg noop s k ?d"
    by (rule advances_step [OF node_step.deliver [OF TailDeliver]]) (simp_all add: tail_deliver_def)
  have "tl_pc ?d = TailRows rows" by (simp add: tail_deliver_def)
  from advance_rows [OF h s advances_inv [OF d h s inv] this] advances_trans [OF d] show ?thesis by blast
next
  case TailRestore
  from advance_restore [OF h s inv this] show ?thesis by blast
next
  case TailHalted
  with inv show ?thesis by (simp add: node_inv_def tail_inv_def)
qed

lemma advance_to_tip:
  assumes h: "history_ok noop h" and s: "store_inv noop h s" and limit: "0 < fetch_limit cfg"
  shows "node_inv noop h s (Running k) \<Longrightarrow> tl_pc k = TailFetch \<Longrightarrow>
    \<exists>l. advances cfg noop s k l \<and> tl_pc l = TailFetch \<and> tl_applied l = length h"
proof (induction "length h - tl_applied k" arbitrary: k rule: less_induct)
  case less
  have le: "tl_applied k \<le> length h"
    using less(2) by (simp add: node_inv_def tail_inv_def)
  show ?case
  proof (cases "tl_applied k = length h")
    case True
    with less(3) advances_refl show ?thesis by blast
  next
    case False
    with le have lt: "tl_applied k < length h" by simp
    from advance_fetch [OF h s less(2,3) lt limit] obtain l where
      l: "advances cfg noop s k l" "tl_pc l = TailFetch" "tl_applied k < tl_applied l" by blast
    from lt l(3) have "length h - tl_applied l < length h - tl_applied k" by simp
    from less(1) [OF this advances_inv [OF l(1) h s less(2)] l(2)] advances_trans [OF l(1)] show ?thesis by blast
  qed
qed

lemma catch_up:
  assumes h: "history_ok noop h" and s: "store_inv noop h s" and limit: "0 < fetch_limit cfg"
    and inv: "node_inv noop h s (Running k)"
  shows "\<exists>l. advances cfg noop s k l \<and> tl_pc l = TailFetch \<and> tl_applied l = length h"
proof -
  from advance_to_fetch [OF h s inv] obtain l where l: "advances cfg noop s k l" "tl_pc l = TailFetch" by blast
  from advance_to_tip [OF h s limit advances_inv [OF l(1) h s inv] l(2)] advances_trans [OF l(1)] show ?thesis by blast
qed

text \<open>Opening ends in a running sink, from which the tailer catches up.\<close>

lemma open_drain:
  assumes h: "history_ok noop h" and s: "store_inv noop h s"
  shows "open_inv noop h s p \<Longrightarrow> op_pc p = OpenRows rows \<Longrightarrow>
    \<exists>q. quiet cfg noop s (Opening p) (Opening q) \<and> op_pc q = OpenFetch \<and> op_applied p \<le> op_applied q \<and>
      (rows \<noteq> [] \<longrightarrow> op_applied p < op_applied q)"
proof (induction rows arbitrary: p)
  case Nil
  from node_step.open_rows [OF Nil(2), of cfg noop s] show ?case
    by (intro exI [of _ "p\<lparr>op_pc := OpenFetch\<rparr>"]) auto
next
  case (Cons r rows)
  obtain idx payload where r: "r = (idx, payload)" by (cases r)
  note pc = Cons(3) [unfolded r]
  from Cons(2) pc have "rows_inv h s (op_applied p) ((idx, payload) # rows)"
    by (simp add: open_inv_def)
  note rw = rows_inv_Cons [OF this]
  note eq = open_row_eq [OF h Cons(2) pc]
  let ?q = "open_row noop idx payload rows p"
  have q: "quiet cfg noop s (Opening p) (Opening ?q)"
    by (rule r_into_rtranclp) (rule node_step.open_row [OF pc])
  show ?case
  proof (cases "Suc (op_applied p) < idx")
    case True
    then have pcq: "op_pc ?q = OpenReload idx" by (simp add: eq)
    from rw(4) [OF True] have snap: "op_applied p < snap_idx s" .
    then have "0 < snap_idx s" by simp
    note re = open_reload_eq [OF h s this, of ?q]
    have "node_step cfg noop s (Opening ?q) s (Opening (open_reload (load_snapshot s) ?q)) None"
      by (rule node_step.open_reload [OF pcq])
    with q have "quiet cfg noop s (Opening p) (Opening (open_reload (load_snapshot s) ?q))"
      by (rule rtranclp.rtrancl_into_rtrancl)
    then show ?thesis
      using snap by (intro exI [of _ "open_reload (load_snapshot s) ?q"]) (simp add: re)
  next
    case False
    then have pcq: "op_pc ?q = OpenRows rows" "op_applied ?q = idx" by (simp_all add: eq)
    from Cons(1) [OF open_row_inv [OF h Cons(2) pc] pcq(1)] obtain q' where
      q': "quiet cfg noop s (Opening ?q) (Opening q')" "op_pc q' = OpenFetch" "op_applied ?q \<le> op_applied q'" by blast
    from q'(3) pcq(2) rw(1) have "op_applied p < op_applied q'" by simp
    with rtranclp_trans [OF q q'(1)] q'(2) show ?thesis by (intro exI [of _ q']) simp
  qed
qed

lemma open_finishes:
  assumes h: "history_ok noop h" and s: "store_inv noop h s"
  shows "open_inv noop h s p \<Longrightarrow> op_pc p = OpenFetch \<Longrightarrow> \<exists>k. quiet cfg noop s (Opening p) (Running k)"
proof (induction "length h - op_applied p" arbitrary: p rule: less_induct)
  case less
  have le: "op_applied p \<le> length h" using less(2) by (simp add: open_inv_def)
  from s obtain t where t: "log_shape s (hrow h) t (length h)" and N: "length h < 2 ^ 63"
    by (auto simp: store_inv_def)
  from le N have "op_applied p < 2 ^ 63" by simp
  from log_shape_fetch [OF t this, of "fetch_limit cfg"] obtain rows where
    rows: "fetch_after s (op_applied p) (fetch_limit cfg) = Inr rows" by blast
  show ?case
  proof (cases "rows = []")
    case True
    with node_step.open_done [OF less(3), of s cfg noop] rows show ?thesis by auto
  next
    case False
    let ?q = "p\<lparr>op_pc := OpenRows rows\<rparr>"
    have step: "quiet cfg noop s (Opening p) (Opening ?q)"
      by (rule r_into_rtranclp) (rule node_step.open_fetch [OF less(3) rows False])
    have inv: "open_inv noop h s ?q"
      using less(2) fetch_inv [OF s le rows] by (simp add: open_inv_def)
    have pc: "op_pc ?q = OpenRows rows" by simp
    from open_drain [OF h s inv pc] False obtain q where
      q: "quiet cfg noop s (Opening ?q) (Opening q)" "op_pc q = OpenFetch" "op_applied ?q < op_applied q" by blast
    note pq = rtranclp_trans [OF step q(1)]
    have "node_inv noop h s (Opening q)"
      by (rule quiet_inv [OF pq h s]) (simp add: node_inv_def less(2))
    then have qinv: "open_inv noop h s q" by (simp add: node_inv_def)
    then have "op_applied q \<le> length h"
      by (simp add: open_inv_def)
    with q(3) have "length h - op_applied q < length h - op_applied p"
      by simp
    from less(1) [OF this qinv q(2)] rtranclp_trans [OF pq] show ?thesis by blast
  qed
qed

lemma recovers:
  assumes h: "history_ok noop h" and s: "store_inv noop h s" and limit: "0 < fetch_limit cfg"
  shows "\<exists>k. quiet cfg noop s n (Running k) \<and> tl_applied k = length h"
proof -
  let ?p = "open_load (load_snapshot s) open_start"
  have "quiet cfg noop s n Down"
    by (rule r_into_rtranclp) (rule node_step.crash)
  also have "quiet cfg noop s Down (Opening open_start)"
    by (rule r_into_rtranclp) (rule node_step.boot)
  also have "quiet cfg noop s (Opening open_start) (Opening ?p)"
    by (rule r_into_rtranclp) (rule node_step.open_load, simp add: open_start_def)
  finally have p: "quiet cfg noop s n (Opening ?p)" .
  have inv: "open_inv noop h s ?p"
    by (rule open_load_inv [OF h s])
  have "op_pc ?p = OpenFetch"
    using inv by (auto simp: open_load_def open_inv_def split: option.splits sum.splits)
  from open_finishes [OF h s inv this] obtain k where k: "quiet cfg noop s (Opening ?p) (Running k)" by blast
  note pk = rtranclp_trans [OF p k]
  have "node_inv noop h s (Running k)"
    by (rule quiet_inv [OF k h s]) (simp add: node_inv_def inv)
  from catch_up [OF h s limit this] obtain l where "advances cfg noop s k l" "tl_applied l = length h" by blast
  with pk show ?thesis
    unfolding advances_def by (meson rtranclp_trans)
qed

section \<open>Example: one node commits one batch\<close>

definition demo_config :: sql_config where
  "demo_config = \<lparr>max_batch = 256, fetch_limit = 1024, snapshot_every = 1024\<rparr>"

lemma demo_history: "history_ok 7 [demo_log]"
proof (rule history_okI)
  fix i
  have demo: "storable_log 7 demo_log" by (rule demo_snapshot_log)
  then show "vec_ok command_ok ([demo_log] ! i)" if "i < length [demo_log]"
    using that by (simp add: vec_ok_def storable_log_def list_all_iff demo_log_def)
  have "storable_log 7 []"
    by (simp add: storable_log_def counts_ok_def new_state_def)
  with demo show "storable_log 7 (concat (take i [demo_log]))" if "i \<le> length [demo_log]"
    using that by (cases i) simp_all
qed

definition demo_at :: "meta_store \<Rightarrow> node \<Rightarrow> batch list \<Rightarrow> cluster" where
  "demo_at s n h = \<lparr>cl_store = s, cl_nodes = (\<lambda>_. Down)(0 := n), cl_hist = h\<rparr>"

lemma demo_move:
  assumes "cluster_reach cfg noop (demo_at s n h)" and "node_step cfg noop s n s' n' b"
  shows "cluster_reach cfg noop (demo_at s' n' (history h b))"
proof -
  have "cluster_step cfg noop (demo_at s n h) \<lparr>cl_store = s', cl_nodes = (cl_nodes (demo_at s n h))(0 := n'),
      cl_hist = history (cl_hist (demo_at s n h)) b\<rparr>"
    by (rule cluster_step.move) (use assms(2) in \<open>simp add: demo_at_def\<close>)
  from cluster_next [OF assms(1) this] show ?thesis
    by (simp add: demo_at_def)
qed

definition demo_store :: meta_store where
  "demo_store = migrate\<lparr>meta_log := oput 1 (encode_batch demo_log) oempty\<rparr>"

definition demo_sink :: sink where
  "demo_sink = \<lparr>tl_state = hrun 7 [demo_log] 1, tl_applied = 1, tl_pc = TailRows [], view_index = 1,
     view_state = hrun 7 [demo_log] 1, last_seen = 1, poisoned = False, pending = oempty,
     receiver = RxReady (hres 7 [demo_log] 1), fl_pc = FlushIdle, sn_last = 0, sn_pc = SnapWait,
     replies = [(1, demo_log, hres 7 [demo_log] 1)]\<rparr>"

definition demo_waiting :: sink where
  "demo_waiting = flush_appended True 1 demo_log (flush_register 1 demo_log (flush_next demo_log
     (flush_take demo_log (start_sink new_state 0 0))))"

lemma demo_await: "cluster_reach demo_config 7 (demo_at demo_store (Running demo_waiting) [demo_log])"
proof -
  let ?b = demo_log and ?k0 = "start_sink new_state 0 0"
  let ?k1 = "flush_register 1 ?b (flush_next ?b (flush_take ?b ?k0))"
  let ?p = "\<lparr>op_state = new_state, op_applied = 0, op_base = 0, op_pc = OpenFetch\<rparr>"
  have down: "(\<lambda>_. Down) = (\<lambda>_. Down)(0 := Down)" by auto
  have "cluster_reach demo_config 7 (demo_at migrate Down [])"
    using cluster_init [of demo_config 7] down unfolding cluster_start_def demo_at_def by metis
  from demo_move [OF this node_step.boot] have "cluster_reach demo_config 7 (demo_at migrate (Opening open_start) [])"
    by simp
  from demo_move [OF this node_step.open_load] have "cluster_reach demo_config 7 (demo_at migrate (Opening ?p) [])"
    by (simp add: open_start_def open_load_def load_snapshot_def migrate_def)
  from demo_move [OF this node_step.open_done] have "cluster_reach demo_config 7 (demo_at migrate (Running ?k0) [])"
    by (simp add: fetch_after_def to_i64_def migrate_def)
  from demo_move [OF this node_step.take_batch [where commands = ?b]]
  have "cluster_reach demo_config 7 (demo_at migrate (Running (flush_take ?b ?k0)) [])"
    by (simp add: start_sink_def demo_config_def demo_log_def)
  from demo_move [OF this node_step.pick [where commands = ?b]]
  have "cluster_reach demo_config 7 (demo_at migrate (Running (flush_next ?b (flush_take ?b ?k0))) [])"
    by (simp add: flush_take_def)
  from demo_move [OF this node_step.register [where idx = 1 and commands = ?b]]
  have r: "cluster_reach demo_config 7 (demo_at migrate (Running ?k1) [])"
    by (simp add: flush_take_def flush_next_def start_sink_def)
  have "node_step demo_config 7 migrate (Running ?k1) demo_store (Running demo_waiting) (Some ?b)"
    unfolding demo_waiting_def
    by (rule node_step.append [where won = True, simplified])
      (simp_all add: flush_register_def flush_next_def flush_take_def start_sink_def store_append_def to_i64_def
        snap_idx_def migrate_def demo_store_def)
  from demo_move [OF r this] show ?thesis
    by (simp add: history_def)
qed

lemmas demo_waiting_eval = demo_waiting_def flush_appended_def flush_register_def flush_next_def flush_take_def
  start_sink_def

lemma demo_reach: "cluster_reach demo_config 7 (demo_at demo_store (Running demo_sink) [demo_log])"
proof -
  let ?b = demo_log
  let ?k2 = "tail_fetch [(1, encode_batch ?b)] demo_waiting"
  let ?k3 = "tail_deliver 1 (hres 7 [?b] 1) [] (tail_row 7 1 (encode_batch ?b) [] ?k2)"
  from demo_move [OF demo_await node_step.fetch [where rows = "[(1, encode_batch ?b)]"]]
  have "cluster_reach demo_config 7 (demo_at demo_store (Running ?k2) [?b])"
    by (simp add: demo_waiting_eval fetch_after_def to_i64_def demo_store_def demo_config_def)
  from demo_move [OF this node_step.row [where idx = 1 and payload = "encode_batch ?b" and rows = "[]"]]
  have "cluster_reach demo_config 7 (demo_at demo_store (Running (tail_row 7 1 (encode_batch ?b) [] ?k2)) [?b])"
    by (simp add: tail_fetch_def)
  moreover have row: "tail_row 7 1 (encode_batch ?b) [] ?k2 =
      ?k2\<lparr>tl_state := hrun 7 [?b] 1, tl_applied := 1, last_seen := 1, view_index := 1, view_state := hrun 7 [?b] 1,
        tl_pc := TailDeliver 1 (hres 7 [?b] 1) []\<rparr>"
    using batch_step [OF demo_history, of 1]
    by (simp add: tail_row_def publish_def tail_fetch_def hrow_def demo_waiting_eval)
  ultimately have "cluster_reach demo_config 7 (demo_at demo_store (Running ?k3) [?b])"
    using demo_move [OF _ node_step.deliver [where idx = 1 and results = "hres 7 [?b] 1" and rows = "[]"]] by simp
  from demo_move [OF this node_step.reply [where idx = 1 and commands = ?b]]
  have "cluster_reach demo_config 7 (demo_at demo_store (Running (flush_reply 1 ?b ?k3)) [?b])"
    unfolding row by (simp add: tail_deliver_def tail_fetch_def demo_waiting_eval)
  moreover have "flush_reply 1 ?b ?k3 = demo_sink"
    unfolding row by (simp add: demo_sink_def flush_reply_def tail_deliver_def tail_fetch_def demo_waiting_eval)
  ultimately show ?thesis by simp
qed

section \<open>Properties\<close>

lemma running_view:
  assumes "cluster_inv noop c" and "cl_nodes c i = Running k"
  shows "view_index k \<le> length (cl_hist c)" and "view_state k = hrun noop (cl_hist c) (view_index k)"
    and "\<not> poisoned k" and "view_index k = tl_applied k"
proof -
  have "tail_inv noop (cl_hist c) (cl_store c) k"
    using assms by (intro node_invD) (metis cluster_inv_def)
  then show "view_index k \<le> length (cl_hist c)" "view_state k = hrun noop (cl_hist c) (view_index k)"
    "\<not> poisoned k" "view_index k = tl_applied k"
    by (simp_all add: tail_inv_def)
qed

text \<open>
  C27. Replicas agree. Whatever the interleaving of proposals, conflicts, store errors with unknown
  outcome, snapshots, truncations, crashes and restarts: every node's view is the state after a prefix
  of one common history, so two nodes at the same index hold the same state; no node is ever poisoned,
  and no node that opens fails to read the log or the snapshot.
\<close>

theorem replicas_agree:
  assumes "cluster_reach cfg noop c" and "history_ok noop (cl_hist c)"
  shows "(cl_nodes c i = Running k \<longrightarrow> view_index k \<le> length (cl_hist c) \<and>
      view_state k = meta_run noop (concat (take (view_index k) (cl_hist c))) \<and> \<not> poisoned k) \<and>
    (cl_nodes c i = Running k \<longrightarrow> cl_nodes c j = Running l \<longrightarrow> view_index k = view_index l \<longrightarrow>
      view_state k = view_state l) \<and>
    (cl_nodes c i = Opening p \<longrightarrow> op_pc p \<noteq> OpenFailed)"
proof -
  have inv: "cluster_inv noop c"
    by (rule cluster_reach_inv [OF assms])
  have "op_pc p \<noteq> OpenFailed" if "cl_nodes c i = Opening p"
  proof -
    from inv that have "node_inv noop (cl_hist c) (cl_store c) (Opening p)"
      by (metis cluster_inv_def)
    then show ?thesis by (auto simp: node_inv_def open_inv_def)
  qed
  with running_view [OF inv, of i k] running_view [OF inv, of j l] show ?thesis
    by (auto simp: hrun_def)
qed

theorem replicas_agree_witness:
  "cluster_reach demo_config 7 (demo_at demo_store (Running demo_sink) [demo_log]) \<and>
    view_state demo_sink = meta_run 7 demo_log \<and> \<not> poisoned demo_sink"
  using replicas_agree [OF demo_reach, of 0 demo_sink] demo_reach demo_history
  by (simp add: demo_at_def) (simp add: demo_sink_def)

text \<open>
  C28. What a proposer is told is true. A batch that was answered is in the history at the answered
  index; its results, one per command, are those of running it right after the batches before it; and
  the node's view already contains it when the answer is sent (a proposer reads its own writes).
\<close>

theorem answers_are_committed:
  assumes "cluster_reach cfg noop c" and "history_ok noop (cl_hist c)" and "cl_nodes c i = Running k"
    and "(idx, b, results) \<in> set (replies k)"
  shows "0 < idx \<and> idx \<le> view_index k \<and> view_index k \<le> length (cl_hist c) \<and> cl_hist c ! (idx - 1) = b \<and>
    results = snd (apply_batch noop (meta_run noop (concat (take (idx - 1) (cl_hist c)))) b) \<and>
    length results = length b"
proof -
  have inv: "cluster_inv noop c"
    by (rule cluster_reach_inv [OF assms(1,2)])
  with assms(3) have "node_inv noop (cl_hist c) (cl_store c) (Running k)"
    by (metis cluster_inv_def)
  with assms(4) have "reply_ok noop (cl_hist c) (tl_applied k) (idx, b, results)"
    by (auto simp: node_inv_running list_all_iff)
  with running_view [OF inv assms(3)] show ?thesis
    by (auto simp: reply_ok_def hres_def hrun_def apply_batch_length simp del: One_nat_def)
qed

theorem answers_are_committed_witness:
  "(1, demo_log, hres 7 [demo_log] 1) \<in> set (replies demo_sink) \<and>
    hres 7 [demo_log] 1 = snd (apply_batch 7 new_state demo_log)"
  using answers_are_committed [OF demo_reach, of 0 demo_sink 1 demo_log "hres 7 [demo_log] 1"] demo_history
  by (simp add: demo_at_def demo_sink_def)

text \<open>
  C29. Nothing committed is lost. From every reachable situation any node, also one that just crashed,
  can come back to the state after the whole history from the tables of the store alone, without another
  node taking a step: the remaining rows and the snapshot always suffice.
\<close>

theorem store_recovers_history:
  assumes "cluster_reach cfg noop c" and "history_ok noop (cl_hist c)" and "0 < fetch_limit cfg"
  shows "\<exists>k. cluster_steps cfg noop c (c\<lparr>cl_nodes := (cl_nodes c)(i := Running k)\<rparr>) \<and>
    view_index k = length (cl_hist c) \<and> view_state k = meta_run noop (concat (cl_hist c))"
proof -
  let ?h = "cl_hist c"
  have inv: "cluster_inv noop c"
    by (rule cluster_reach_inv [OF assms(1,2)])
  then have s: "store_inv noop ?h (cl_store c)"
    by (simp add: cluster_inv_def)
  from recovers [OF assms(2) s assms(3), of "cl_nodes c i"] obtain k where
    k: "quiet cfg noop (cl_store c) (cl_nodes c i) (Running k)" "tl_applied k = length ?h" by blast
  let ?c = "c\<lparr>cl_nodes := (cl_nodes c)(i := Running k)\<rparr>"
  have steps: "cluster_steps cfg noop c ?c"
    by (rule quiet_cluster [OF k(1) refl])
  have "cluster_inv noop ?c"
    by (rule cluster_reach_inv [OF cluster_steps_reach [OF steps assms(1)]]) (simp add: assms(2))
  from running_view [OF this, of i k] k(2) have "view_index k = length ?h" "view_state k = hrun noop ?h (view_index k)"
    by simp_all
  with steps show ?thesis
    by (intro exI [of _ k]) (simp add: hrun_def)
qed

theorem store_recovers_history_witness:
  "\<exists>k. view_index k = 1 \<and> view_state k = meta_run 7 demo_log \<and>
    cluster_steps demo_config 7 (demo_at demo_store (Running demo_sink) [demo_log])
      ((demo_at demo_store (Running demo_sink) [demo_log])\<lparr>cl_nodes := (\<lambda>_. Down)(0 := Running demo_sink, 1 := Running k)\<rparr>)"
  using store_recovers_history [OF demo_reach, of 1] demo_history
  by (auto simp: demo_at_def demo_config_def)

text \<open>
  C30. No proposer waits for ever. From every reachable situation a running node's tailer alone can bring
  the view to the end of the history, and once it is there a flusher that awaits its batch holds an
  answer: the results, or the news that a snapshot overtook it.
\<close>

theorem awaited_batch_is_answered:
  assumes "cluster_reach cfg noop c" and "history_ok noop (cl_hist c)" and "0 < fetch_limit cfg"
    and "cl_nodes c i = Running k" and "fl_pc k = FlushAwait idx b"
  shows "\<exists>l. cluster_steps cfg noop c (c\<lparr>cl_nodes := (cl_nodes c)(i := Running l)\<rparr>) \<and>
    view_index l = length (cl_hist c) \<and> fl_pc l = FlushAwait idx b \<and>
    (receiver l = RxClosed \<or> receiver l = RxReady (snd (apply_batch noop
      (meta_run noop (concat (take (idx - 1) (cl_hist c)))) b)))"
proof -
  let ?h = "cl_hist c"
  have inv: "cluster_inv noop c"
    by (rule cluster_reach_inv [OF assms(1,2)])
  then have s: "store_inv noop ?h (cl_store c)" and n: "node_inv noop ?h (cl_store c) (Running k)"
    using assms(4) by (simp_all add: cluster_inv_def) metis
  from catch_up [OF assms(2) s assms(3) n] obtain l where
    l: "advances cfg noop (cl_store c) k l" "tl_pc l = TailFetch" "tl_applied l = length ?h" by blast
  have ln: "node_inv noop ?h (cl_store c) (Running l)"
    by (rule advances_inv [OF l(1) assms(2) s n])
  have fl: "fl_pc l = FlushAwait idx b"
    using l(1) assms(5) by (simp add: advances_def)
  have steps: "cluster_steps cfg noop c (c\<lparr>cl_nodes := (cl_nodes c)(i := Running l)\<rparr>)"
    by (rule quiet_cluster [OF _ assms(4)]) (use l(1) in \<open>simp add: advances_def\<close>)
  have "view_index l = length ?h"
    using node_invD(1) [OF ln] l(3) by (simp add: tail_inv_def)
  moreover have "receiver l = RxClosed \<or> receiver l = RxReady (hres noop ?h idx) \<and> ?h ! (idx - 1) = b"
    using node_invD(2) [OF ln] fl l(2,3) by (auto simp: flush_inv_def delivering_def split: receiver.splits)
  ultimately show ?thesis
    using steps fl by (intro exI [of _ l]) (auto simp: hres_def hrun_def)
qed

theorem awaited_batch_is_answered_witness:
  "\<exists>l :: sink. view_index l = 1 \<and> fl_pc l = FlushAwait 1 demo_log \<and> (receiver l = RxClosed \<or>
    receiver l = RxReady (snd (apply_batch 7 new_state demo_log)))"
proof -
  have "fl_pc demo_waiting = FlushAwait 1 demo_log"
    by (simp add: demo_waiting_eval)
  then show ?thesis
    using awaited_batch_is_answered [OF demo_await, of 0 demo_waiting 1 demo_log] demo_history
    by (auto simp: demo_at_def demo_config_def)
qed

text \<open>
  C31. \<^verbatim>\<open>sync\<close> is a barrier: once it returns on some node, that node's view contains every
  batch any node had committed before the call, and nothing but the history.
\<close>

theorem sync_sees_all_commits:
  assumes "cluster_reach cfg noop c" and "cluster_steps cfg noop c c'" and "history_ok noop (cl_hist c')"
    and "cl_nodes c' i = Running k" and "sync_done (last_idx (cl_store c)) k"
  shows "take (length (cl_hist c)) (cl_hist c') = cl_hist c \<and> length (cl_hist c) \<le> view_index k \<and>
    view_state k = meta_run noop (concat (take (view_index k) (cl_hist c')))"
proof -
  from cluster_steps_hist [OF assms(2)] obtain x where x: "cl_hist c' = cl_hist c @ x"
    by (auto simp: prefix_def)
  then have "history_ok noop (cl_hist c)"
    using assms(3) history_ok_prefix by metis
  from cluster_reach_inv [OF assms(1) this] have "last_idx (cl_store c) = length (cl_hist c)"
    by (auto simp: cluster_inv_def intro: last_idx_inv)
  with running_view [OF cluster_reach_inv [OF cluster_steps_reach [OF assms(2,1)] assms(3)] assms(4)] assms(5) x
  show ?thesis
    by (simp add: sync_done_def hrun_def)
qed

theorem sync_sees_all_commits_witness:
  "sync_done (last_idx demo_store) demo_sink \<and> view_state demo_sink = meta_run 7 demo_log"
proof -
  have "last_idx demo_store = 1"
    by (simp add: demo_store_def last_idx_def snap_idx_def migrate_def)
  then have "sync_done (last_idx demo_store) demo_sink"
    by (simp add: sync_done_def demo_sink_def)
  then show ?thesis
    using sync_sees_all_commits [OF demo_reach rtranclp.rtrancl_refl, of 0 demo_sink] demo_history
    by (simp add: demo_at_def demo_sink_def)
qed

end
