(* ===== verification/Wire_Be.thy ===== *)
theory Wire_Be
  imports Wire
begin

text \<open>
  Big-endian integers, as the server's own records have them (\<^verbatim>\<open>pico-server/src/codec.rs\<close> and
  the group log): the reversed bytes of the little-endian form. Readers check how many bytes remain
  before they read.
\<close>

type_synonym i16 = "16 sword"

definition be_bytes :: "nat \<Rightarrow> nat \<Rightarrow> bytes" where
  "be_bytes k n = rev (le_bytes k n)"

definition get_be :: "nat \<Rightarrow> 'e \<Rightarrow> ('e, nat) get" where
  "get_be k corrupt bs = (if length bs < k then Inl corrupt else Inr (le_value (rev (take k bs)), drop k bs))"

lemma get_be_put: "n < 256 ^ k \<Longrightarrow> get_be k corrupt (be_bytes k n @ rest) = Inr (n, rest)"
  by (simp add: get_be_def be_bytes_def le_value_bytes)

lemma length_be_bytes [simp]: "length (be_bytes k n) = k"
  by (simp add: be_bytes_def)

definition put_u8_be :: "u8 \<Rightarrow> bytes" where "put_u8_be w = be_bytes 1 (unat w)"
definition put_u32_be :: "u32 \<Rightarrow> bytes" where "put_u32_be w = be_bytes 4 (unat w)"
definition put_u64_be :: "u64 \<Rightarrow> bytes" where "put_u64_be w = be_bytes 8 (unat w)"
definition put_i16_be :: "i16 \<Rightarrow> bytes" where "put_i16_be x = be_bytes 2 (unat (sbits x))"
definition put_i32_be :: "i32 \<Rightarrow> bytes" where "put_i32_be x = be_bytes 4 (unat (sbits x))"
definition put_i64_be :: "i64 \<Rightarrow> bytes" where "put_i64_be x = be_bytes 8 (unat (sbits x))"

definition get_u8_be :: "'e \<Rightarrow> ('e, u8) get" where
  "get_u8_be corrupt = gbind (get_be 1 corrupt) (\<lambda>n. gret (of_nat n))"
definition get_u32_be :: "'e \<Rightarrow> ('e, u32) get" where
  "get_u32_be corrupt = gbind (get_be 4 corrupt) (\<lambda>n. gret (of_nat n))"
definition get_u64_be :: "'e \<Rightarrow> ('e, u64) get" where
  "get_u64_be corrupt = gbind (get_be 8 corrupt) (\<lambda>n. gret (of_nat n))"
definition get_i16_be :: "'e \<Rightarrow> ('e, i16) get" where
  "get_i16_be corrupt = gbind (get_be 2 corrupt) (\<lambda>n. gret (SW (of_nat n)))"
definition get_i32_be :: "'e \<Rightarrow> ('e, i32) get" where
  "get_i32_be corrupt = gbind (get_be 4 corrupt) (\<lambda>n. gret (SW (of_nat n)))"
definition get_i64_be :: "'e \<Rightarrow> ('e, i64) get" where
  "get_i64_be corrupt = gbind (get_be 8 corrupt) (\<lambda>n. gret (SW (of_nat n)))"

lemma unat_bounds:
  "unat (a :: u8) < 256 ^ 1" "unat (b :: u32) < 256 ^ 4" "unat (c :: u64) < 256 ^ 8"
  "unat (d :: 16 word) < 256 ^ 2"
  using unsigned_less [of a, where ?'a = nat] unsigned_less [of b, where ?'a = nat]
    unsigned_less [of c, where ?'a = nat] unsigned_less [of d, where ?'a = nat]
  by simp_all

lemma get_put_be [simp]:
  "get_u8_be corrupt (put_u8_be a @ rest) = Inr (a, rest)"
  "get_u32_be corrupt (put_u32_be b @ rest) = Inr (b, rest)"
  "get_u64_be corrupt (put_u64_be c @ rest) = Inr (c, rest)"
  "get_i16_be corrupt (put_i16_be d @ rest) = Inr (d, rest)"
  "get_i32_be corrupt (put_i32_be e @ rest) = Inr (e, rest)"
  "get_i64_be corrupt (put_i64_be f @ rest) = Inr (f, rest)"
  by (simp_all only: get_u8_be_def put_u8_be_def get_u32_be_def put_u32_be_def get_u64_be_def put_u64_be_def
    get_i16_be_def put_i16_be_def get_i32_be_def put_i32_be_def get_i64_be_def put_i64_be_def gsimps
    get_be_put unat_bounds rbind_simps prod.case of_nat_unat ucast_id SW_sbits)

text \<open>A fixed number of raw bytes.\<close>

definition get_raw :: "nat \<Rightarrow> 'e \<Rightarrow> ('e, bytes) get" where
  "get_raw n corrupt bs = (if length bs < n then Inl corrupt else Inr (take n bs, drop n bs))"

lemma get_raw_put: "length v = n \<Longrightarrow> get_raw n corrupt (v @ rest) = Inr (v, rest)"
  by (simp add: get_raw_def)

lemma ext_get_be [ext_intros]: "extensible (get_be k corrupt)"
  by (auto simp: extensible_def get_be_def split: if_splits)

lemma ext_ints_be [ext_intros]:
  "extensible (get_u8_be corrupt)" "extensible (get_u32_be corrupt)" "extensible (get_u64_be corrupt)"
  "extensible (get_i16_be corrupt)" "extensible (get_i32_be corrupt)" "extensible (get_i64_be corrupt)"
  by (simp_all add: get_u8_be_def get_u32_be_def get_u64_be_def get_i16_be_def get_i32_be_def get_i64_be_def ext_intros)

end
