(* ===== verification/OSet.thy ===== *)
theory OSet
  imports OMap
begin

text \<open>
  More of the ordered collections: mapping over the values of a map, keeping part of it, and
  \<^verbatim>\<open>BTreeSet\<close> as an ordered map to the unit type. \<open>min_by_key\<close> is the iterator method: the
  first element with the least key.
\<close>

lift_definition ovmap :: "('k::linorder \<Rightarrow> 'v \<Rightarrow> 'w) \<Rightarrow> ('k, 'v) omap \<Rightarrow> ('k, 'w) omap"
  is "\<lambda>f. map (\<lambda>(k, v). (k, f k v))"
  by (simp add: comp_def case_prod_unfold)

lift_definition oretain :: "('k::linorder \<Rightarrow> 'v \<Rightarrow> bool) \<Rightarrow> ('k, 'v) omap \<Rightarrow> ('k, 'v) omap"
  is "\<lambda>P. filter (\<lambda>(k, v). P k v)"
  by (rule sorted_wrt_map_fst_filter)

lemma oentries_ovmap [simp]: "oentries (ovmap f m) = map (\<lambda>(k, v). (k, f k v)) (oentries m)"
  by transfer simp

lemma oentries_oretain [simp]: "oentries (oretain P m) = filter (\<lambda>(k, v). P k v) (oentries m)"
  by transfer simp

lemma oget_ovmap [simp]: "oget (ovmap f m) k = map_option (f k) (oget m k)"
proof -
  have "map_of (map (\<lambda>(k, v). (k, f k v)) xs) k = map_option (f k) (map_of xs k)" for xs
    by (induction xs) auto
  then show ?thesis by (simp add: om.get_entries)
qed

lemma oget_oretain: "oget (oretain P m) k = (case oget m k of Some v \<Rightarrow> if P k v then Some v else None | None \<Rightarrow> None)"
proof -
  have "map_of (filter (\<lambda>(k, v). P k v) xs) k = (case map_of xs k of Some v \<Rightarrow> if P k v then Some v else None | None \<Rightarrow> None)"
    if "distinct (map fst xs)" for xs
    using that
  proof (induction xs)
    case (Cons x xs)
    have "map_of xs (fst x) = None"
      using Cons.prems by (simp add: map_of_eq_None_iff)
    with Cons show ?case by (cases x) (auto split: option.splits)
  qed simp
  then show ?thesis
    using om.distinct_entries [of m] by (simp add: om.get_entries)
qed

lemma ohas_ovmap [simp]: "ohas (ovmap f m) k \<longleftrightarrow> ohas m k"
  by (simp add: ohas_def)

lemma ohas_oretain: "ohas (oretain P m) k \<longleftrightarrow> (\<exists>v. oget m k = Some v \<and> P k v)"
  by (auto simp: ohas_def oget_oretain split: option.splits)

lemma ohasD: "oget m k = Some v \<Longrightarrow> ohas m k"
  by (simp add: ohas_def)

lemma ohasE: "ohas m k \<Longrightarrow> (\<And>v. oget m k = Some v \<Longrightarrow> P) \<Longrightarrow> P"
  by (auto simp: ohas_def)

lemma oempty_iff: "m = oempty \<longleftrightarrow> (\<forall>k. \<not> ohas m k)"
proof
  assume "\<forall>k. \<not> ohas m k"
  then show "m = oempty" by (intro omap_eqI) (simp add: ohas_def)
qed simp

lemma oentries_Nil_iff: "oentries m = [] \<longleftrightarrow> m = oempty"
proof
  assume "oentries m = []"
  then show "m = oempty" by (intro omap_eqI) (simp add: om.get_entries)
qed simp

text \<open>Rules that evaluate maps built by insertion.\<close>

lemma omap_eval:
  "ovmap f oempty = oempty" "ovmap f (oput k v m) = oput k (f k v) (ovmap f m)"
  "oretain P oempty = oempty" "oretain P (oput k v m) = (if P k v then oput k v (oretain P m) else odel k (oretain P m))"
  "odel k oempty = oempty" "odel k (oput l v m) = (if k = l then odel k m else oput l v (odel k m))"
  "oput k v m \<noteq> oempty" "oempty \<noteq> oput k v m"
  "oput k v m = oput l w n \<longleftrightarrow> oentries (oput k v m) = oentries (oput l w n)"
proof -
  show "ovmap f oempty = oempty" "oretain P oempty = oempty" "odel k oempty = oempty"
    by (rule omap_eqI; simp add: oget_oretain)+
  show "ovmap f (oput k v m) = oput k (f k v) (ovmap f m)"
    "oretain P (oput k v m) = (if P k v then oput k v (oretain P m) else odel k (oretain P m))"
    "odel k (oput l v m) = (if k = l then odel k m else oput l v (odel k m))"
    by (rule omap_eqI; simp add: oget_oretain)+
  show "oput k v m \<noteq> oempty" "oempty \<noteq> oput k v m"
    by (metis om.get_empty om.get_put option.distinct(1))+
  show "oput k v m = oput l w n \<longleftrightarrow> oentries (oput k v m) = oentries (oput l w n)"
    by (simp only: oentries_inject)
qed

section \<open>Sets\<close>

type_synonym 'a oset = "('a, unit) omap"

definition ofrom :: "'a::linorder list \<Rightarrow> 'a oset" where
  "ofrom xs = fold (\<lambda>x. oput x ()) xs oempty"

lemma ohas_fold_insert: "ohas (fold (\<lambda>x. oput x ()) xs m) k \<longleftrightarrow> k \<in> set xs \<or> ohas m k"
  by (induction xs arbitrary: m) auto

lemma ohas_ofrom [simp]: "ohas (ofrom xs) k \<longleftrightarrow> k \<in> set xs"
  by (simp add: ofrom_def ohas_fold_insert)

lemma oset_eqI: "(\<And>k. ohas a k \<longleftrightarrow> ohas b k) \<Longrightarrow> a = (b :: 'a::linorder oset)"
proof (rule omap_eqI)
  fix k assume eq: "\<And>k. ohas a k \<longleftrightarrow> ohas b k"
  then show "oget a k = oget b k"
    using eq [of k] by (cases "oget a k"; cases "oget b k") (simp_all add: ohas_def)
qed

definition odifference :: "'a::linorder oset \<Rightarrow> 'a oset \<Rightarrow> 'a list" where
  "odifference a b = filter (\<lambda>k. \<not> ohas b k) (okeys a)"

lemma set_odifference [simp]: "x \<in> set (odifference a b) \<longleftrightarrow> ohas a x \<and> \<not> ohas b x"
  unfolding odifference_def set_filter mem_Collect_eq okeys_iff by simp

section \<open>Least elements\<close>

fun min_by_key :: "('a \<Rightarrow> 'b::linorder) \<Rightarrow> 'a list \<Rightarrow> 'a option" where
  "min_by_key f [] = None"
| "min_by_key f (x # xs) = (case min_by_key f xs of None \<Rightarrow> Some x | Some y \<Rightarrow> if f y < f x then Some y else Some x)"

lemma min_by_key_None [simp]: "min_by_key f xs = None \<longleftrightarrow> xs = []"
  by (cases xs) (auto split: option.splits)

lemma min_by_key_Some:
  assumes "min_by_key f xs = Some y"
  shows "y \<in> set xs" and "x \<in> set xs \<Longrightarrow> f y \<le> f x"
  using assms
proof (induction xs arbitrary: y)
  case (Cons z zs)
  { case 1
    with Cons.IH show ?case by (auto split: option.splits if_splits)
  next
    case 2
    with Cons.IH show ?case by (auto split: option.splits if_splits) }
qed simp_all

end
