(* ===== verification/Grp_Offsets.thy ===== *)
theory Grp_Offsets
  imports Wire_Be OSet
begin

text \<open>
  The committed offsets of a consumer group and the records of its log,
  \<^verbatim>\<open>pico-server/src/group/offsets.rs\<close>: a delta of commits, a snapshot of the whole table, or a list
  of deleted partitions. A partition is a topic id of 16 bytes with an index; maps order partitions by
  id bytes, then index.
\<close>

type_synonym partition = "bytes \<times> u32"

record committed_offset =
  co_position :: u64
  co_leader_epoch :: "i32 option"
  co_metadata :: "string option"

record offset_commit =
  oc_partition :: partition
  oc_value :: committed_offset

type_synonym offset_table = "(partition, committed_offset) omap"

definition offsets_magic :: bytes where
  "offsets_magic = str_bytes ''PGS3''"

definition kind_delta :: u8 where "kind_delta = 0"
definition kind_snapshot :: u8 where "kind_snapshot = 1"
definition kind_delete :: u8 where "kind_delete = 2"

definition max_entries_per_record :: u32 where
  "max_entries_per_record = 1048576"

definition max_string_bytes :: nat where
  "max_string_bytes = 1048576"

section \<open>Writing\<close>

definition put_string :: "string \<Rightarrow> bytes" where
  "put_string v = put_u32_be (of_nat (length v)) @ str_bytes v"

definition put_entry :: "partition \<times> committed_offset \<Rightarrow> bytes" where
  "put_entry = (\<lambda>((topic, index), v).
    topic @ put_u32_be index @ put_u64_be (co_position v) @
    put_i32_be (case co_leader_epoch v of None \<Rightarrow> -1 | Some e \<Rightarrow> e) @
    (case co_metadata v of Some metadata \<Rightarrow> put_u8_be 1 @ put_string metadata | None \<Rightarrow> put_u8_be 0))"

definition put_partition :: "partition \<Rightarrow> bytes" where
  "put_partition = (\<lambda>(topic, index). topic @ put_u32_be index)"

definition encode_commits :: "offset_commit list \<Rightarrow> bytes" where
  "encode_commits commits = offsets_magic @ put_u8_be kind_delta @ put_u32_be (of_nat (length commits)) @
    concat (map (\<lambda>c. put_entry (oc_partition c, oc_value c)) commits)"

definition encode_snapshot :: "offset_table \<Rightarrow> bytes" where
  "encode_snapshot offsets = offsets_magic @ put_u8_be kind_snapshot @ put_u32_be (of_nat (osize offsets)) @
    concat (map put_entry (oentries offsets))"

definition encode_deletes :: "partition list \<Rightarrow> bytes" where
  "encode_deletes partitions = offsets_magic @ put_u8_be kind_delete @ put_u32_be (of_nat (length partitions)) @
    concat (map put_partition partitions)"

section \<open>Reading\<close>

definition take_id :: "(unit, bytes) get" where
  "take_id = get_raw 16 ()"

definition take_string :: "(unit, string) get" where
  "take_string = gbind (get_u32_be ()) (\<lambda>len bs.
    if unat len > max_string_bytes \<or> length bs < unat len then Inl ()
    else if \<not> utf8 (take (unat len) bs) then Inl ()
    else Inr (bytes_str (take (unat len) bs), drop (unat len) bs))"

definition take_partition :: "(unit, partition) get" where
  "take_partition = gbind take_id (\<lambda>topic. gbind (get_u32_be ()) (\<lambda>index. gret (topic, index)))"

definition take_metadata :: "(unit, string option) get" where
  "take_metadata = gbind (get_u8_be ()) (\<lambda>tag.
    if tag = 0 then gret None
    else if tag = 1 then gbind take_string (\<lambda>s. gret (Some s))
    else gfail ())"

definition take_entry :: "(unit, partition \<times> committed_offset) get" where
  "take_entry = gbind take_partition (\<lambda>p. gbind (get_u64_be ()) (\<lambda>position. gbind (get_i32_be ()) (\<lambda>epoch.
    gbind take_metadata (\<lambda>metadata. gret (p, \<lparr>co_position = position,
      co_leader_epoch = (if epoch \<ge> 0 then Some epoch else None), co_metadata = metadata\<rparr>)))))"

definition at_end :: "('e, 'a) get \<Rightarrow> 'e \<Rightarrow> bytes \<Rightarrow> 'e + 'a" where
  "at_end g trailing bs = rbind (g bs) (\<lambda>(x, rest). if rest = [] then Inr x else Inl trailing)"

definition decode_into :: "bytes \<Rightarrow> offset_table \<Rightarrow> unit + offset_table" where
  "decode_into payload offsets =
    (if length payload < length offsets_magic \<or> take (length offsets_magic) payload \<noteq> offsets_magic then Inl ()
     else at_end (gbind (get_u8_be ()) (\<lambda>kind. gbind (get_u32_be ()) (\<lambda>count.
       if count > max_entries_per_record then gfail ()
       else if kind = kind_delete then
         get_loop (unat count) (\<lambda>t. gbind take_partition (\<lambda>p. gret (odel p t))) offsets
       else if kind = kind_snapshot then
         get_loop (unat count) (\<lambda>t. gbind take_entry (\<lambda>e. gret (oput (fst e) (snd e) t))) oempty
       else if kind = kind_delta then
         get_loop (unat count) (\<lambda>t. gbind take_entry (\<lambda>e. gret (oput (fst e) (snd e) t))) offsets
       else gfail ()))) () (drop (length offsets_magic) payload))"

text \<open>\<^verbatim>\<open>replay_offsets\<close>: fold the records of the log, oldest first; count them.\<close>

fun replay_offsets :: "bytes list \<Rightarrow> offset_table \<Rightarrow> unit + offset_table \<times> nat" where
  "replay_offsets [] offsets = Inr (offsets, 0)"
| "replay_offsets (r # rs) offsets =
    rbind (decode_into r offsets) (\<lambda>offsets. rbind (replay_offsets rs offsets) (\<lambda>(offsets, n). Inr (offsets, Suc n)))"

section \<open>Round trips\<close>

definition committed_ok :: "committed_offset \<Rightarrow> bool" where
  "committed_ok v \<longleftrightarrow> (\<forall>e. co_leader_epoch v = Some e \<longrightarrow> 0 \<le> e) \<and>
    (\<forall>m. co_metadata v = Some m \<longrightarrow> utf8 (str_bytes m) \<and> length m \<le> max_string_bytes)"

definition entry_ok :: "partition \<times> committed_offset \<Rightarrow> bool" where
  "entry_ok e \<longleftrightarrow> length (fst (fst e)) = 16 \<and> committed_ok (snd e)"

definition commit_ok :: "offset_commit \<Rightarrow> bool" where
  "commit_ok c \<longleftrightarrow> entry_ok (oc_partition c, oc_value c)"

lemma take_put_partition:
  "length (fst p) = 16 \<Longrightarrow> take_partition (put_partition p @ rest) = Inr (p, rest)"
  by (cases p) (simp add: take_partition_def put_partition_def take_id_def gsimps get_raw_put)

lemma take_put_string:
  assumes "utf8 (str_bytes s)" and "length s \<le> max_string_bytes"
  shows "take_string (put_string s @ rest) = Inr (s, rest)"
proof -
  have "unat (of_nat (length s) :: u32) = length s"
    using assms(2) by (intro unat_length_u32) (simp add: max_string_bytes_def)
  then show ?thesis
    using assms by (simp add: take_string_def put_string_def gbind_def del: unat_of_nat)
qed

lemma take_put_metadata:
  assumes "\<forall>m. v = Some m \<longrightarrow> utf8 (str_bytes m) \<and> length m \<le> max_string_bytes"
  shows "take_metadata ((case v of Some metadata \<Rightarrow> put_u8_be 1 @ put_string metadata | None \<Rightarrow> put_u8_be 0) @ rest)
    = Inr (v, rest)"
  using assms by (cases v) (simp_all add: take_metadata_def gsimps take_put_string)

lemma minus_one_neg: "\<not> 0 \<le> (-1 :: i32)"
  by (simp add: sword_eval)

interpretation wire_entry: wire_codec put_entry take_entry entry_ok
proof
  fix e rest assume ok: "entry_ok e"
  obtain topic index v where e: "e = ((topic, index), v)" by (metis prod.exhaust)
  have part: "take_partition (topic @ put_u32_be index @ rest') = Inr ((topic, index), rest')" for rest'
    using take_put_partition [of "(topic, index)" rest'] ok by (simp add: e entry_ok_def put_partition_def)
  have meta: "take_metadata ((case co_metadata v of Some metadata \<Rightarrow> put_u8_be 1 @ put_string metadata
      | None \<Rightarrow> put_u8_be 0) @ rest') = Inr (co_metadata v, rest')" for rest'
    by (rule take_put_metadata) (use ok in \<open>simp add: e entry_ok_def committed_ok_def\<close>)
  have epoch: "(let x = case co_leader_epoch v of None \<Rightarrow> -1 | Some e \<Rightarrow> e in if 0 \<le> x then Some x else None) =
      co_leader_epoch v"
    using ok minus_one_neg by (cases "co_leader_epoch v") (simp_all add: e entry_ok_def committed_ok_def)
  show "take_entry (put_entry e @ rest) = Inr (e, rest)"
    using epoch unfolding Let_def by (simp add: e take_entry_def put_entry_def gsimps part meta)
qed

interpretation wire_partition: wire_codec put_partition take_partition "\<lambda>p. length (fst p) = 16"
  by unfold_locales (rule take_put_partition)

text \<open>A record of one kind, with the loop its body runs.\<close>

lemma decode_record:
  assumes n: "n \<le> unat max_entries_per_record"
    and kind: "kind = kind_delete \<or> kind = kind_snapshot \<or> kind = kind_delta"
    and body: "(if kind = kind_delete then get_loop n (\<lambda>t. gbind take_partition (\<lambda>p. gret (odel p t))) offsets body
      else if kind = kind_snapshot
      then get_loop n (\<lambda>t. gbind take_entry (\<lambda>e. gret (oput (fst e) (snd e) t))) oempty body
      else get_loop n (\<lambda>t. gbind take_entry (\<lambda>e. gret (oput (fst e) (snd e) t))) offsets body) = Inr (t, rest)"
  shows "decode_into (offsets_magic @ put_u8_be kind @ put_u32_be (of_nat n) @ body) offsets =
    (if rest = [] then Inr t else Inl ())"
proof -
  have small: "n < 2 ^ 32"
    using n by (simp add: max_entries_per_record_def)
  then have un: "unat (of_nat n :: u32) = n"
    by (rule unat_length_u32)
  then have le: "\<not> max_entries_per_record < (of_nat n :: u32)"
    using n by (simp add: word_less_nat_alt)
  show ?thesis
    using kind body
    by (auto simp: decode_into_def at_end_def gsimps un le kind_delete_def kind_snapshot_def kind_delta_def
      simp del: unat_of_nat)
qed

lemma decode_commits:
  assumes "list_all commit_ok cs" and n: "length cs \<le> unat max_entries_per_record"
  shows "decode_into (encode_commits cs) offsets = Inr (fold (\<lambda>c. oput (oc_partition c) (oc_value c)) cs offsets)"
proof -
  let ?es = "map (\<lambda>c. (oc_partition c, oc_value c)) cs"
  have ok: "\<forall>e \<in> set ?es. entry_ok e"
    using assms(1) by (auto simp: list_all_iff commit_ok_def)
  have cat: "concat (map (\<lambda>c. put_entry (oc_partition c, oc_value c)) cs) = concat (map put_entry ?es)"
    by (simp add: comp_def)
  have "get_loop (length ?es) (\<lambda>t. gbind take_entry (\<lambda>e. gret (oput (fst e) (snd e) t))) offsets
      (concat (map put_entry ?es) @ []) = Inr (fold (\<lambda>e t. oput (fst e) (snd e) t) ?es offsets, [])"
    by (rule wire_entry.get_loop_put [OF ok])
  then have "decode_into (encode_commits cs) offsets =
      (if [] = ([] :: bytes) then Inr (fold (\<lambda>e t. oput (fst e) (snd e) t) ?es offsets) else Inl ())"
    unfolding encode_commits_def cat
    by (intro decode_record) (use n in \<open>simp_all add: kind_delta_def kind_delete_def kind_snapshot_def\<close>)
  then show ?thesis
    by (simp add: fold_map comp_def)
qed

lemma decode_snapshot_record:
  assumes "list_all entry_ok (oentries t)" and n: "osize t \<le> unat max_entries_per_record"
  shows "decode_into (encode_snapshot t) offsets = Inr t"
proof -
  have "get_loop (osize t) (\<lambda>t. gbind take_entry (\<lambda>e. gret (oput (fst e) (snd e) t))) oempty
      (concat (map put_entry (oentries t)) @ []) = Inr (fold (\<lambda>e t. oput (fst e) (snd e) t) (oentries t) oempty, [])"
    by (rule wire_entry.get_loop_put) (use assms(1) in \<open>simp add: list_all_iff\<close>)
  moreover have "fold (\<lambda>e t. oput (fst e) (snd e) t) (oentries t) oempty = t"
    using om.rebuild [of t] by (simp add: case_prod_unfold)
  ultimately have "decode_into (encode_snapshot t) offsets = (if [] = ([] :: bytes) then Inr t else Inl ())"
    unfolding encode_snapshot_def
    by (intro decode_record) (use n in \<open>simp_all add: kind_delete_def kind_snapshot_def\<close>)
  then show ?thesis by simp
qed

lemma decode_deletes:
  assumes "\<forall>p \<in> set ps. length (fst p) = 16" and n: "length ps \<le> unat max_entries_per_record"
  shows "decode_into (encode_deletes ps) offsets = Inr (fold odel ps offsets)"
proof -
  have "get_loop (length ps) (\<lambda>t. gbind take_partition (\<lambda>p. gret (odel p t))) offsets
      (concat (map put_partition ps) @ []) = Inr (fold (\<lambda>p t. odel p t) ps offsets, [])"
    by (rule wire_partition.get_loop_put [OF assms(1)])
  then have "decode_into (encode_deletes ps) offsets =
      (if [] = ([] :: bytes) then Inr (fold (\<lambda>p t. odel p t) ps offsets) else Inl ())"
    unfolding encode_deletes_def
    by (intro decode_record) (use n in \<open>simp_all add: kind_delete_def\<close>)
  then show ?thesis by simp
qed

end
