(* ===== verification/Grp_State.thy ===== *)
theory Grp_State
  imports Grp_Offsets
begin

text \<open>
  Consumer groups, \<^verbatim>\<open>pico-server/src/group/\<close>: the data of \<^verbatim>\<open>mod.rs\<close> and
  \<^verbatim>\<open>state.rs\<close>, the stream assignment of \<^verbatim>\<open>assign.rs\<close>, and the operations of
  \<^verbatim>\<open>state.rs\<close> that move a group on.

  A pending join or sync is a \<^verbatim>\<open>oneshot\<close> sender in the code; here it is the number of the
  request, and what is sent is collected in a list of answers. Instants and durations are milliseconds;
  the code reads the clock several times within an operation, the model once. Names of streams are
  shared through \<^verbatim>\<open>Arc\<close> in the code: a name is dropped when no member uses it.
\<close>

section \<open>Data\<close>

datatype group_error =
    CoordinatorNotAvailable | NotCoordinator | IllegalGeneration | InconsistentProtocol | UnknownMember
  | RebalanceInProgress | InvalidRequest | GroupStorage | GroupNotFound | NonEmpty | MemberIdRequired
  | CapacityExceeded | FencedInstance | Superseded | Unauthorized

datatype group_state = GroupEmpty | PreparingRebalance | CompletingRebalance | GroupStable

record join_protocol =
  jp_name :: string
  jp_metadata :: bytes

datatype membership = Subscribed "string list" | Client string "join_protocol list"

record join_input =
  ji_group_id :: string
  ji_member_id :: string
  ji_instance_id :: "string option"
  ji_client_id :: string
  ji_client_host :: string
  ji_membership :: membership
  ji_session_timeout_ms :: i32
  ji_rebalance_timeout_ms :: i32
  ji_require_known_member_id :: bool

record join_member =
  jm_member_id :: string
  jm_instance_id :: "string option"
  jm_metadata :: bytes

datatype joined =
    JoinedSubscribed "string list" "string list"
  | JoinedClient string string string "join_member list"

record join_outcome =
  jo_generation :: i32
  jo_member_id :: string
  jo_result :: "group_error + joined"

definition join_error :: "group_error \<Rightarrow> string \<Rightarrow> join_outcome" where
  "join_error e member_id = \<lparr>jo_generation = -1, jo_member_id = member_id, jo_result = Inl e\<rparr>"

record sync_outcome =
  so_protocol_type :: string
  so_protocol_name :: string
  so_assignment :: bytes

datatype role = RoleSubscribed "string oset" "string list" | RoleClient "join_protocol list" bytes

record member =
  m_instance_id :: "string option"
  m_client_id :: string
  m_client_host :: string
  m_role :: role
  m_session_timeout :: nat
  m_rebalance_timeout :: nat
  m_last_heartbeat :: nat

datatype mode = ModeSubscribed | ModeClient string string string

record rebalance =
  rb_id :: u64
  rb_expected :: "string oset"
  rb_joined :: "string oset"
  rb_waiters :: "(string, nat) omap"

record group =
  g_loaded_epoch :: i64
  g_phase :: group_state
  g_generation :: i32
  g_mode :: "mode option"
  g_names :: "string oset"
  g_members :: "(string, member) omap"
  g_offsets :: offset_table
  g_appends_since_snapshot :: u64
  g_next_rebalance_id :: u64
  g_rebalance :: "rebalance option"
  g_sync_waiters :: "(string, nat) omap"
  g_last_activity :: nat

text \<open>What the senders of pending requests are sent.\<close>

datatype answer = JoinAnswer nat join_outcome | SyncAnswer nat "group_error + sync_outcome"

definition max_members_per_group :: nat where "max_members_per_group = 10000"
definition max_streams_per_group :: nat where "max_streams_per_group = 10000"
definition max_partitions_per_group :: nat where "max_partitions_per_group = 10000"
definition max_subscription_entries :: nat where "max_subscription_entries = 1000000"
definition max_group_id_bytes :: nat where "max_group_id_bytes = 255"
definition max_member_id_bytes :: nat where "max_member_id_bytes = 512"
definition max_stream_name_bytes :: nat where "max_stream_name_bytes = 1024"
definition max_protocols_per_member :: nat where "max_protocols_per_member = 32"
definition max_metadata_bytes :: nat where "max_metadata_bytes = 1048576"
definition min_session_timeout_ms :: i32 where "min_session_timeout_ms = 1000"
definition max_session_timeout_ms :: i32 where "max_session_timeout_ms = 300000"
definition idle_group_ttl :: nat where "idle_group_ttl = 300000"

section \<open>Assignment\<close>

definition subscription :: "member \<Rightarrow> string oset option" where
  "subscription m = (case m_role m of RoleSubscribed s _ \<Rightarrow> Some s | RoleClient _ _ \<Rightarrow> None)"

definition subscribed :: "member \<Rightarrow> string list" where
  "subscribed m = (case subscription m of Some s \<Rightarrow> okeys s | None \<Rightarrow> [])"

definition subscribers :: "(string, member) omap \<Rightarrow> (string, string list) omap" where
  "subscribers members = fold (\<lambda>(mid, m). fold (\<lambda>stream t.
      oput stream ((case oget t stream of Some ids \<Rightarrow> ids | None \<Rightarrow> []) @ [mid]) t) (subscribed m))
    (oentries members) oempty"

definition assign_load :: "(string, string list) omap \<Rightarrow> string \<Rightarrow> nat" where
  "assign_load a mid = (case oget a mid of Some streams \<Rightarrow> length streams | None \<Rightarrow> 0)"

definition assign_one :: "string \<times> string list \<Rightarrow> (string, string list) omap \<Rightarrow> (string, string list) omap" where
  "assign_one = (\<lambda>(stream, candidates) a.
    case min_by_key (\<lambda>mid. (assign_load a mid, mid)) candidates of
      None \<Rightarrow> a
    | Some chosen \<Rightarrow> oput chosen ((case oget a chosen of Some streams \<Rightarrow> streams | None \<Rightarrow> []) @ [stream]) a)"

definition assign :: "(string, member) omap \<Rightarrow> (string, string list) omap" where
  "assign members =
    (let order = sort_key (\<lambda>(stream, candidates). (length candidates, stream)) (oentries (subscribers members));
         assignments = fold assign_one order (ovmap (\<lambda>_ _. []) members)
     in ovmap (\<lambda>_ streams. sort streams) assignments)"

section \<open>Names\<close>

definition uses_name :: "member \<Rightarrow> string \<Rightarrow> bool" where
  "uses_name m n = (case m_role m of
     RoleSubscribed s assignment \<Rightarrow> ohas s n \<or> n \<in> set assignment
   | RoleClient _ _ \<Rightarrow> False)"

definition sweep :: "group \<Rightarrow> group" where
  "sweep g = g\<lparr>g_names := oretain (\<lambda>n _. list_ex (\<lambda>m. uses_name m n) (ovals (g_members g))) (g_names g)\<rparr>"

section \<open>The group\<close>

definition loaded :: "i64 \<Rightarrow> offset_table \<Rightarrow> u64 \<Rightarrow> nat \<Rightarrow> group" where
  "loaded epoch offsets appends now =
    \<lparr>g_loaded_epoch = epoch, g_phase = GroupEmpty, g_generation = 0, g_mode = None, g_names = oempty,
     g_members = oempty, g_offsets = offsets, g_appends_since_snapshot = appends, g_next_rebalance_id = 1,
     g_rebalance = None, g_sync_waiters = oempty, g_last_activity = now\<rparr>"

definition reset_empty :: "group \<Rightarrow> group" where
  "reset_empty g = sweep (g\<lparr>g_phase := GroupEmpty, g_mode := None\<rparr>)"

definition subscription_entries :: "group \<Rightarrow> nat" where
  "subscription_entries g = (\<Sum>m \<leftarrow> ovals (g_members g). length (subscribed m))"

definition idle_since :: "group \<Rightarrow> nat \<Rightarrow> nat option" where
  "idle_since g now = (if g_members g = oempty \<and> g_rebalance g = None then Some (now - g_last_activity g) else None)"

definition protocol_name :: "group \<Rightarrow> string" where
  "protocol_name g = (case g_mode g of Some (ModeClient _ n _) \<Rightarrow> n | _ \<Rightarrow> [])"

definition protocol_type :: "group \<Rightarrow> string" where
  "protocol_type g = (case g_mode g of Some (ModeClient t _ _) \<Rightarrow> t | _ \<Rightarrow> [])"

definition rebalance_ready :: "rebalance \<Rightarrow> bool" where
  "rebalance_ready r \<longleftrightarrow> rb_joined r \<noteq> oempty \<and> rb_joined r = rb_expected r"

definition answer_syncs :: "group \<Rightarrow> group_error \<Rightarrow> group \<times> answer list" where
  "answer_syncs g e = (g\<lparr>g_sync_waiters := oempty\<rparr>, map (\<lambda>req. SyncAnswer req (Inl e)) (ovals (g_sync_waiters g)))"

definition unload :: "group \<Rightarrow> group \<times> answer list" where
  "unload g =
    (let joins = (case g_rebalance g of None \<Rightarrow> []
           | Some r \<Rightarrow> map (\<lambda>(mid, req). JoinAnswer req (join_error NotCoordinator mid)) (oentries (rb_waiters r)));
         (g, syncs) = answer_syncs (g\<lparr>g_rebalance := None\<rparr>) NotCoordinator
     in (g, joins @ syncs))"

text \<open>The answer of a pending request of one member, if it has one.\<close>

definition depart :: "group \<Rightarrow> string \<Rightarrow> group_error \<Rightarrow> group \<times> answer list" where
  "depart g mid e =
    (let syncs = (case oget (g_sync_waiters g) mid of Some req \<Rightarrow> [SyncAnswer req (Inl e)] | None \<Rightarrow> []);
         joins = (case g_rebalance g of None \<Rightarrow> [] | Some r \<Rightarrow>
           (case oget (rb_waiters r) mid of Some req \<Rightarrow> [JoinAnswer req (join_error e mid)] | None \<Rightarrow> []))
     in (g\<lparr>g_members := odel mid (g_members g), g_sync_waiters := odel mid (g_sync_waiters g),
           g_rebalance := map_option (\<lambda>r. r\<lparr>rb_expected := odel mid (rb_expected r), rb_joined := odel mid (rb_joined r),
             rb_waiters := odel mid (rb_waiters r)\<rparr>) (g_rebalance g)\<rparr>,
         syncs @ joins))"

fun depart_all :: "group \<Rightarrow> string list \<Rightarrow> group_error \<Rightarrow> group \<times> answer list" where
  "depart_all g [] e = (g, [])"
| "depart_all g (mid # ids) e =
    (let (g, a) = depart g mid e; (g, b) = depart_all g ids e in (g, a @ b))"

section \<open>Completing a rebalance\<close>

definition set_assignment :: "nat \<Rightarrow> string list \<Rightarrow> member \<Rightarrow> member" where
  "set_assignment now streams m = m\<lparr>m_last_heartbeat := now,
     m_role := case m_role m of RoleSubscribed s _ \<Rightarrow> RoleSubscribed s streams | r \<Rightarrow> r\<rparr>"

definition complete_subscribed :: "group \<Rightarrow> rebalance \<Rightarrow> nat \<Rightarrow> group \<times> answer list" where
  "complete_subscribed g r now =
    (let assignments = assign (g_members g);
         g = sweep (g\<lparr>g_phase := GroupStable, g_members := ovmap (\<lambda>mid m. set_assignment now
               (case oget assignments mid of Some streams \<Rightarrow> streams | None \<Rightarrow> []) m) (g_members g)\<rparr>);
         member_ids = okeys (g_members g)
     in (g, map (\<lambda>(mid, req). JoinAnswer req \<lparr>jo_generation = g_generation g, jo_member_id = mid,
           jo_result = Inr (JoinedSubscribed
             (case oget (g_members g) mid of
                Some m \<Rightarrow> (case m_role m of RoleSubscribed _ assignment \<Rightarrow> assignment | _ \<Rightarrow> [])
              | None \<Rightarrow> []) member_ids)\<rparr>) (oentries (rb_waiters r))))"

definition has_protocol :: "member \<Rightarrow> string \<Rightarrow> bool" where
  "has_protocol m name = (case m_role m of
     RoleClient protocols _ \<Rightarrow> list_ex (\<lambda>p. jp_name p = name) protocols | RoleSubscribed _ _ \<Rightarrow> False)"

definition select_protocol :: "group \<Rightarrow> string \<Rightarrow> string oset \<Rightarrow> string option" where
  "select_protocol g leader joined =
    (case oget (g_members g) leader of
       None \<Rightarrow> None
     | Some m \<Rightarrow> (case m_role m of
         RoleSubscribed _ _ \<Rightarrow> None
       | RoleClient protocols _ \<Rightarrow>
           map_option jp_name (find (\<lambda>candidate. list_all (\<lambda>mid. case oget (g_members g) mid of
             Some m \<Rightarrow> has_protocol m (jp_name candidate) | None \<Rightarrow> False) (okeys joined)) protocols)))"

definition clear_assignment :: "nat \<Rightarrow> member \<Rightarrow> member" where
  "clear_assignment now m = m\<lparr>m_last_heartbeat := now,
     m_role := case m_role m of RoleClient protocols _ \<Rightarrow> RoleClient protocols [] | r \<Rightarrow> r\<rparr>"

definition join_members :: "group \<Rightarrow> string \<Rightarrow> join_member list" where
  "join_members g name =
    List.map_filter (\<lambda>(mid, m). case m_role m of
      RoleClient protocols _ \<Rightarrow> map_option (\<lambda>p. \<lparr>jm_member_id = mid, jm_instance_id = m_instance_id m,
        jm_metadata = jp_metadata p\<rparr>) (find (\<lambda>p. jp_name p = name) protocols)
    | RoleSubscribed _ _ \<Rightarrow> None) (oentries (g_members g))"

definition complete_client :: "group \<Rightarrow> rebalance \<Rightarrow> string \<Rightarrow> string \<Rightarrow> nat \<Rightarrow> group \<times> answer list" where
  "complete_client g r ptype previous_leader now =
    (let leader = (if ohas (rb_joined r) previous_leader then previous_leader
                   else case okeys (rb_joined r) of [] \<Rightarrow> [] | mid # _ \<Rightarrow> mid)
     in case select_protocol g leader (rb_joined r) of
       None \<Rightarrow> (reset_empty (g\<lparr>g_members := oempty\<rparr>),
         map (\<lambda>(mid, req). JoinAnswer req (join_error InconsistentProtocol mid)) (oentries (rb_waiters r)))
     | Some pname \<Rightarrow>
         (let g = g\<lparr>g_mode := Some (ModeClient ptype pname leader), g_phase := CompletingRebalance,
                    g_members := ovmap (\<lambda>_. clear_assignment now) (g_members g)\<rparr>
          in (g, map (\<lambda>(mid, req). JoinAnswer req \<lparr>jo_generation = g_generation g, jo_member_id = mid,
                jo_result = Inr (JoinedClient ptype pname leader
                  (if mid = leader then join_members g pname else []))\<rparr>) (oentries (rb_waiters r)))))"

text \<open>
  The \<^verbatim>\<open>unreachable!\<close> of the code is the branch without a mode; the requests of the rebalance
  would stay unanswered there.
\<close>

definition complete_rebalance :: "group \<Rightarrow> nat \<Rightarrow> group \<times> answer list" where
  "complete_rebalance g now =
    (case g_rebalance g of
       None \<Rightarrow> (g, [])
     | Some r \<Rightarrow>
         (let g = g\<lparr>g_rebalance := None, g_generation := max (g_generation g + 1) 1\<rparr>;
              (g, syncs) = answer_syncs g RebalanceInProgress;
              (g, joins) = (case g_mode g of
                Some ModeSubscribed \<Rightarrow> complete_subscribed g r now
              | Some (ModeClient ptype _ leader) \<Rightarrow> complete_client g r ptype leader now
              | None \<Rightarrow> (g, []))
          in (g, syncs @ joins)))"

definition settle :: "group \<Rightarrow> nat \<Rightarrow> group \<times> answer list" where
  "settle g now =
    (if g_members g = oempty then (reset_empty (g\<lparr>g_rebalance := None\<rparr>), [])
     else let g = sweep g in
       case g_rebalance g of
         Some r \<Rightarrow> if rebalance_ready r then complete_rebalance g now else (g, [])
       | None \<Rightarrow> if g_phase g \<noteq> PreparingRebalance
           then answer_syncs (g\<lparr>g_phase := PreparingRebalance\<rparr>) RebalanceInProgress
           else (g, []))"

definition expire_members :: "group \<Rightarrow> nat \<Rightarrow> group \<times> answer list" where
  "expire_members g now =
    (let expired = map fst (filter (\<lambda>(_, m). now - m_last_heartbeat m \<ge> m_session_timeout m) (oentries (g_members g)))
     in if expired = [] then (g, [])
        else let (g, a) = depart_all g expired UnknownMember; (g, b) = settle g now in (g, a @ b))"

section \<open>Joining members\<close>

text \<open>\<^verbatim>\<open>as u64\<close> of a signed integer.\<close>

definition as_millis :: "i32 \<Rightarrow> nat" where
  "as_millis x = unat (scast (sbits x) :: u64)"

definition rebalance_timeout_of :: "join_input \<Rightarrow> nat" where
  "rebalance_timeout_of input =
    as_millis (max (if ji_rebalance_timeout_ms input \<le> 0 then ji_session_timeout_ms input
      else ji_rebalance_timeout_ms input) 1)"

definition member_from_input :: "join_input \<Rightarrow> nat \<Rightarrow> member" where
  "member_from_input input now =
    \<lparr>m_instance_id = ji_instance_id input, m_client_id = ji_client_id input, m_client_host = ji_client_host input,
     m_role = (case ji_membership input of
       Subscribed names \<Rightarrow> RoleSubscribed (ofrom names) [] | Client _ protocols \<Rightarrow> RoleClient protocols []),
     m_session_timeout = as_millis (ji_session_timeout_ms input), m_rebalance_timeout = rebalance_timeout_of input,
     m_last_heartbeat = now\<rparr>"

definition intern_all :: "membership \<Rightarrow> string oset \<Rightarrow> string oset" where
  "intern_all ms names = (case ms of Subscribed ns \<Rightarrow> fold (\<lambda>n. oput n ()) ns names | Client _ _ \<Rightarrow> names)"

definition mode_of :: "membership \<Rightarrow> mode" where
  "mode_of ms = (case ms of Subscribed _ \<Rightarrow> ModeSubscribed | Client ptype _ \<Rightarrow> ModeClient ptype [] [])"

definition compatible :: "mode \<Rightarrow> membership \<Rightarrow> bool" where
  "compatible md ms = (case (md, ms) of
     (ModeSubscribed, Subscribed _) \<Rightarrow> True
   | (ModeClient ptype _ _, Client t _) \<Rightarrow> ptype = t
   | _ \<Rightarrow> False)"

definition validate_group_id :: "string \<Rightarrow> group_error + unit" where
  "validate_group_id group_id =
    (if group_id = [] \<or> length group_id > max_group_id_bytes then Inl InvalidRequest else Inr ())"

definition validate_stream_name :: "string \<Rightarrow> group_error + unit" where
  "validate_stream_name name =
    (if name = [] \<or> length name > max_stream_name_bytes then Inl InvalidRequest else Inr ())"

definition validate_join :: "join_input \<Rightarrow> group_error + unit" where
  "validate_join input =
    rbind (validate_group_id (ji_group_id input)) (\<lambda>_.
      if length (ji_member_id input) > max_member_id_bytes \<or>
         \<not> (min_session_timeout_ms \<le> ji_session_timeout_ms input \<and> ji_session_timeout_ms input \<le> max_session_timeout_ms)
      then Inl InvalidRequest
      else case ji_membership input of
        Subscribed names \<Rightarrow>
          if length names > max_streams_per_group then Inl InvalidRequest
          else rfold (\<lambda>_ name. validate_stream_name name) names ()
      | Client ptype protocols \<Rightarrow>
          if ptype = [] \<or> protocols = [] \<or> length protocols > max_protocols_per_member \<or>
             list_ex (\<lambda>p. jp_name p = []) protocols \<or>
             (\<Sum>p \<leftarrow> protocols. length (jp_metadata p)) > max_metadata_bytes
          then Inl InvalidRequest else Inr ())"

text \<open>\<^verbatim>\<open>new_member_id\<close>; the random part is an argument.\<close>

definition new_member_id :: "string \<Rightarrow> string \<Rightarrow> string" where
  "new_member_id client_id uuid = client_id @ ''-'' @ uuid"

end
