(* ===== verification/Grp_Assign.thy ===== *)
theory Grp_Assign
  imports Grp_State "HOL-Library.Multiset"
begin

text \<open>
  The stream assignment of a group: every stream somebody subscribes to goes to exactly one of its
  subscribers, and members with equal subscriptions get equal shares up to one stream.
\<close>

section \<open>Subscribers\<close>

abbreviation entry_of :: "(string, string list) omap \<Rightarrow> string \<Rightarrow> string list" where
  "entry_of t s \<equiv> (case oget t s of Some ids \<Rightarrow> ids | None \<Rightarrow> [])"

lemma entry_push:
  assumes "distinct streams"
  shows "oget (fold (\<lambda>s t. oput s (entry_of t s @ [mid]) t) streams t) s =
    (if s \<in> set streams then Some (entry_of t s @ [mid]) else oget t s)"
  using assms by (induction streams arbitrary: t) (auto split: option.split)

lemma distinct_subscribed: "distinct (subscribed m)"
  by (auto simp: subscribed_def om.distinct_entries split: option.split)

lemma subscribers_fold:
  assumes "\<And>s. oget t s \<noteq> Some []"
  shows "oget (fold (\<lambda>(mid, m). fold (\<lambda>s t. oput s (entry_of t s @ [mid]) t) (subscribed m)) es t) s =
    (let c = entry_of t s @ map fst (filter (\<lambda>(_, m). s \<in> set (subscribed m)) es) in if c = [] then None else Some c)"
  using assms
proof (induction es arbitrary: t)
  case Nil
  then show ?case by (auto simp: Let_def split: option.split)
next
  case (Cons e es)
  obtain mid m where e: "e = (mid, m)" by (cases e)
  let ?t = "fold (\<lambda>s t. oput s (entry_of t s @ [mid]) t) (subscribed m) t"
  have get: "oget ?t s = (if s \<in> set (subscribed m) then Some (entry_of t s @ [mid]) else oget t s)" for s
    by (rule entry_push [OF distinct_subscribed])
  have "oget ?t s \<noteq> Some []" for s
    using Cons.prems by (simp add: get)
  from Cons.IH [OF this] show ?case
    by (simp add: e get Let_def)
qed

lemma subscribers_get:
  "oget (subscribers ms) s =
    (let c = map fst (filter (\<lambda>(_, m). s \<in> set (subscribed m)) (oentries ms)) in if c = [] then None else Some c)"
  unfolding subscribers_def using subscribers_fold [where t = oempty and es = "oentries ms"] by simp

lemma subscribers_Some:
  assumes "oget (subscribers ms) s = Some ids"
  shows "ids \<noteq> []" and "mid \<in> set ids \<longleftrightarrow> (\<exists>m. oget ms mid = Some m \<and> s \<in> set (subscribed m))"
proof -
  from assms have ids: "ids = map fst (filter (\<lambda>(_, m). s \<in> set (subscribed m)) (oentries ms))" and "ids \<noteq> []"
    by (auto simp: subscribers_get Let_def split: if_splits)
  then show "ids \<noteq> []" by simp
  show "mid \<in> set ids \<longleftrightarrow> (\<exists>m. oget ms mid = Some m \<and> s \<in> set (subscribed m))"
    unfolding ids by (force simp: om.in_entries_iff [symmetric])
qed

lemma subscribers_has: "ohas (subscribers ms) s \<longleftrightarrow> (\<exists>mid m. oget ms mid = Some m \<and> s \<in> set (subscribed m))"
proof -
  have "(\<exists>mid m. oget ms mid = Some m \<and> s \<in> set (subscribed m)) \<longleftrightarrow>
      filter (\<lambda>(_, m). s \<in> set (subscribed m)) (oentries ms) \<noteq> []"
    by (auto simp: filter_empty_conv om.in_entries_iff [symmetric])
  then show ?thesis
    by (simp add: ohas_def subscribers_get Let_def)
qed

section \<open>Handing out one stream\<close>

definition holds :: "(string, string list) omap \<Rightarrow> string \<Rightarrow> string \<Rightarrow> bool" where
  "holds a s mid \<longleftrightarrow> (\<exists>l. oget a mid = Some l \<and> s \<in> set l)"

lemma assign_one_get:
  assumes "cs \<noteq> []" and "\<forall>c \<in> set cs. ohas a c"
  obtains c l where "c \<in> set cs" and "oget a c = Some l" and "\<forall>d \<in> set cs. assign_load a c \<le> assign_load a d"
    and "assign_one (s, cs) a = oput c (l @ [s]) a"
proof -
  from assms(1) obtain c where c: "min_by_key (\<lambda>mid. (assign_load a mid, mid)) cs = Some c"
    by (cases "min_by_key (\<lambda>mid. (assign_load a mid, mid)) cs") auto
  note least = min_by_key_Some [OF c]
  with assms(2) have "ohas a c" by blast
  then obtain l where l: "oget a c = Some l" by (rule ohasE)
  from least(2) have "\<forall>d \<in> set cs. assign_load a c \<le> assign_load a d"
    by (fastforce simp: less_eq_prod_def)
  from that [OF least(1) l this] c l show ?thesis
    by (simp add: assign_one_def)
qed

text \<open>Streams that wait for a subscriber: each has one, and nobody holds them yet.\<close>

definition assignable :: "(string \<times> string list) list \<Rightarrow> (string, string list) omap \<Rightarrow> bool" where
  "assignable order a \<longleftrightarrow> distinct (map fst order) \<and>
    (\<forall>(s, cs) \<in> set order. cs \<noteq> [] \<and> (\<forall>c \<in> set cs. ohas a c) \<and> (\<forall>mid. \<not> holds a s mid)) \<and>
    (\<forall>mid l. oget a mid = Some l \<longrightarrow> distinct l)"

lemma assign_one_step:
  assumes "assignable ((s, cs) # order) a"
  obtains c where "c \<in> set cs" and "assignable order (assign_one (s, cs) a)"
    and "\<And>mid. ohas (assign_one (s, cs) a) mid \<longleftrightarrow> ohas a mid"
    and "\<And>s' mid. holds (assign_one (s, cs) a) s' mid \<longleftrightarrow> holds a s' mid \<or> (s' = s \<and> mid = c)"
    and "\<And>mid. assign_load (assign_one (s, cs) a) mid = assign_load a mid + (if mid = c then 1 else 0)"
    and "\<And>d. d \<in> set cs \<Longrightarrow> assign_load a c \<le> assign_load a d"
proof -
  from assms have ne: "cs \<noteq> []" "\<forall>c \<in> set cs. ohas a c" and fresh: "\<And>mid. \<not> holds a s mid"
    by (auto simp: assignable_def)
  obtain c l where c: "c \<in> set cs" "oget a c = Some l" "\<forall>d \<in> set cs. assign_load a c \<le> assign_load a d"
    and eq: "assign_one (s, cs) a = oput c (l @ [s]) a"
    by (rule assign_one_get [OF ne])
  have "s \<notin> set l"
    using fresh [of c] c(2) by (auto simp: holds_def)
  have has: "ohas (assign_one (s, cs) a) mid \<longleftrightarrow> ohas a mid" for mid
    using c(2) by (auto simp: eq ohas_def)
  have holds: "holds (assign_one (s, cs) a) s' mid \<longleftrightarrow> holds a s' mid \<or> (s' = s \<and> mid = c)" for s' mid
    using c(2) by (auto simp: eq holds_def)
  have dist: "distinct l'" if "oget (assign_one (s, cs) a) mid = Some l'" for mid l'
    using that assms c(2) \<open>s \<notin> set l\<close> by (auto simp: eq assignable_def split: if_splits)
  have rest: "assignable order (assign_one (s, cs) a)"
    unfolding assignable_def
  proof (intro conjI allI impI ballI)
    show "distinct (map fst order)"
      using assms by (simp add: assignable_def)
    show "distinct l'" if "oget (assign_one (s, cs) a) mid = Some l'" for mid l'
      using that by (rule dist)
    show "case e of (s', cs') \<Rightarrow> cs' \<noteq> [] \<and> (\<forall>c \<in> set cs'. ohas (assign_one (s, cs) a) c) \<and>
        (\<forall>mid. \<not> holds (assign_one (s, cs) a) s' mid)" if "e \<in> set order" for e
      using that assms has holds by (cases e) (auto simp: assignable_def image_iff)
  qed
  have load: "assign_load (assign_one (s, cs) a) mid = assign_load a mid + (if mid = c then 1 else 0)" for mid
    using c(2) by (simp add: eq assign_load_def)
  show ?thesis
    by (rule that [OF c(1) rest has holds load]) (use c(3) in blast)
qed

lemma assign_fold:
  assumes "assignable order a"
  shows "(\<forall>mid. ohas (fold assign_one order a) mid \<longleftrightarrow> ohas a mid) \<and>
    (\<forall>s cs. (s, cs) \<in> set order \<longrightarrow> (\<exists>c \<in> set cs. \<forall>mid. holds (fold assign_one order a) s mid \<longleftrightarrow> mid = c)) \<and>
    (\<forall>s mid. s \<notin> fst ` set order \<longrightarrow> (holds (fold assign_one order a) s mid \<longleftrightarrow> holds a s mid)) \<and>
    (\<forall>mid l. oget (fold assign_one order a) mid = Some l \<longrightarrow> distinct l)"
  using assms
proof (induction order arbitrary: a)
  case Nil
  then show ?case by (simp add: assignable_def)
next
  case (Cons o1 order)
  obtain s1 cs1 where o1: "o1 = (s1, cs1)" by (cases o1)
  note inv = Cons.prems [unfolded o1]
  obtain c where c: "c \<in> set cs1" "assignable order (assign_one (s1, cs1) a)"
    "\<And>mid. ohas (assign_one (s1, cs1) a) mid \<longleftrightarrow> ohas a mid"
    "\<And>s' mid. holds (assign_one (s1, cs1) a) s' mid \<longleftrightarrow> holds a s' mid \<or> (s' = s1 \<and> mid = c)"
    by (rule assign_one_step [OF inv]) blast
  note IH = Cons.IH [OF c(2)]
  have new: "s1 \<notin> fst ` set order" and fresh: "\<not> holds a s1 mid" for mid
    using inv by (auto simp: assignable_def)
  let ?f = "fold assign_one order (assign_one (s1, cs1) a)"
  have "\<exists>c \<in> set cs. \<forall>mid. holds ?f s mid \<longleftrightarrow> mid = c" if mem: "(s, cs) \<in> set (o1 # order)" for s cs
  proof (cases "(s, cs) \<in> set order")
    case True
    with IH show ?thesis by blast
  next
    case False
    with mem have s: "s = s1" "cs = cs1" by (auto simp: o1)
    have "holds ?f s1 mid \<longleftrightarrow> mid = c" for mid
      using IH new c(4) fresh by simp
    with c(1) s show ?thesis by blast
  qed
  moreover have "holds ?f s mid \<longleftrightarrow> holds a s mid" if "s \<notin> fst ` set (o1 # order)" for s mid
    using IH that c(4) by (simp add: o1)
  ultimately show ?case
    using IH c(3) by (simp add: o1)
qed

section \<open>The whole assignment\<close>

abbreviation assign_order :: "(string, member) omap \<Rightarrow> (string \<times> string list) list" where
  "assign_order ms \<equiv> sort_key (\<lambda>(stream, candidates). (length candidates, stream)) (oentries (subscribers ms))"

lemma assign_order_set: "(s, cs) \<in> set (assign_order ms) \<longleftrightarrow> oget (subscribers ms) s = Some cs"
  by (simp add: om.in_entries_iff)

lemma assign_assignable: "assignable (assign_order ms) (ovmap (\<lambda>_ _. []) ms)"
proof -
  have "distinct (map fst (assign_order ms))"
  proof -
    have "mset (map fst (assign_order ms)) = mset (map fst (oentries (subscribers ms)))"
      by simp
    then show ?thesis
      using om.distinct_entries mset_eq_imp_distinct_iff by blast
  qed
  then show ?thesis
    unfolding assignable_def
  proof (intro conjI allI impI ballI)
    show "case e of (s, cs) \<Rightarrow> cs \<noteq> [] \<and> (\<forall>c \<in> set cs. ohas (ovmap (\<lambda>_ _. []) ms) c) \<and>
        (\<forall>mid. \<not> holds (ovmap (\<lambda>_ _. []) ms) s mid)" if "e \<in> set (assign_order ms)" for e
    proof -
      obtain s cs where e: "e = (s, cs)" by (cases e)
      with that have "oget (subscribers ms) s = Some cs" by (simp only: assign_order_set)
      from subscribers_Some [OF this] show ?thesis
        by (auto simp: e holds_def ohas_def)
    qed
  qed auto
qed

lemma assign_get: "oget (assign ms) mid = map_option sort (oget (fold assign_one (assign_order ms) (ovmap (\<lambda>_ _. []) ms)) mid)"
  by (simp add: assign_def Let_def)

lemma assign_holds: "holds (assign ms) s mid \<longleftrightarrow> holds (fold assign_one (assign_order ms) (ovmap (\<lambda>_ _. []) ms)) s mid"
  by (auto simp: holds_def assign_get)

lemma assign_has [simp]: "ohas (assign ms) mid \<longleftrightarrow> ohas ms mid"
  using assign_fold [OF assign_assignable, of ms] by (simp add: ohas_def assign_get)

lemma assign_unique:
  assumes "oget ms i = Some m" and "s \<in> set (subscribed m)"
  shows "\<exists>!mid. holds (assign ms) s mid"
proof -
  from assms have "ohas (subscribers ms) s"
    by (auto simp: subscribers_has)
  then obtain cs where "oget (subscribers ms) s = Some cs" by (rule ohasE)
  then have "(s, cs) \<in> set (assign_order ms)" by (simp only: assign_order_set)
  with assign_fold [OF assign_assignable, of ms] obtain c where
    "\<forall>mid. holds (fold assign_one (assign_order ms) (ovmap (\<lambda>_ _. []) ms)) s mid \<longleftrightarrow> mid = c" by meson
  then have "holds (assign ms) s mid \<longleftrightarrow> mid = c" for mid by (simp only: assign_holds)
  then show ?thesis by (intro ex1I [of _ c]) simp_all
qed

lemma assign_subscribed:
  assumes "holds (assign ms) s mid"
  obtains m where "oget ms mid = Some m" and "s \<in> set (subscribed m)"
proof -
  let ?f = "fold assign_one (assign_order ms) (ovmap (\<lambda>_ _. []) ms)"
  note fold = assign_fold [OF assign_assignable, of ms]
  have "s \<in> fst ` set (assign_order ms)"
  proof (rule ccontr)
    assume "s \<notin> fst ` set (assign_order ms)"
    with fold have "holds ?f s mid \<longleftrightarrow> holds (ovmap (\<lambda>_ _. []) ms) s mid" by meson
    moreover have "\<not> holds (ovmap (\<lambda>_ _. []) ms) s mid" by (auto simp: holds_def)
    ultimately show False using assms by (simp only: assign_holds)
  qed
  then obtain cs where cs: "(s, cs) \<in> set (assign_order ms)" by fastforce
  with fold obtain c where c: "c \<in> set cs" "\<forall>mid. holds ?f s mid \<longleftrightarrow> mid = c" by meson
  from assms have "holds ?f s mid" by (simp only: assign_holds)
  with c have mid: "mid \<in> set cs" by simp
  from cs have "oget (subscribers ms) s = Some cs" by (simp only: assign_order_set)
  from subscribers_Some(2) [OF this, of mid] mid that show ?thesis by blast
qed

lemma assign_sorted: "oget (assign ms) mid = Some l \<Longrightarrow> sorted l \<and> distinct l"
  using assign_fold [OF assign_assignable, of ms] by (auto simp: assign_get)

section \<open>Balance\<close>

lemma assign_balanced_fold:
  assumes "assignable order a" and "\<And>s cs. (s, cs) \<in> set order \<Longrightarrow> set cs = M"
    and "\<And>i j. i \<in> M \<Longrightarrow> j \<in> M \<Longrightarrow> assign_load a i \<le> assign_load a j + 1"
  shows "i \<in> M \<Longrightarrow> j \<in> M \<Longrightarrow> assign_load (fold assign_one order a) i \<le> assign_load (fold assign_one order a) j + 1"
  using assms
proof (induction order arbitrary: a)
  case Nil
  then show ?case by simp
next
  case (Cons o1 order)
  obtain s cs where o1: "o1 = (s, cs)" by (cases o1)
  note inv = Cons.prems(3) [unfolded o1]
  obtain c where c: "c \<in> set cs" "assignable order (assign_one (s, cs) a)"
    "\<And>mid. assign_load (assign_one (s, cs) a) mid = assign_load a mid + (if mid = c then 1 else 0)"
    "\<And>d. d \<in> set cs \<Longrightarrow> assign_load a c \<le> assign_load a d"
    by (rule assign_one_step [OF inv]) blast
  have M: "set cs = M"
    by (rule Cons.prems(4) [of s]) (simp add: o1)
  have "assign_load (fold assign_one order (assign_one (s, cs) a)) i \<le>
      assign_load (fold assign_one order (assign_one (s, cs) a)) j + 1"
  proof (rule Cons.IH [OF Cons.prems(1,2) c(2)])
    show "set cs' = M" if "(s', cs') \<in> set order" for s' cs'
      by (rule Cons.prems(4) [of s']) (simp add: that)
    show "assign_load (assign_one (s, cs) a) i \<le> assign_load (assign_one (s, cs) a) j + 1"
      if "i \<in> M" "j \<in> M" for i j
      using Cons.prems(5) [OF that] c(3) c(4) [of j] that M by (simp split: if_splits)
  qed
  then show ?case by (simp add: o1)
qed

lemma assign_balanced:
  assumes same: "\<And>i m. oget ms i = Some m \<Longrightarrow> set (subscribed m) = S"
    and "oget (assign ms) i = Some k" and "oget (assign ms) j = Some l"
  shows "length k \<le> length l + 1"
proof -
  let ?f = "fold assign_one (assign_order ms) (ovmap (\<lambda>_ _. []) ms)"
  have members: "ohas ms i" "ohas ms j"
    using assms(2,3) assign_has [of ms] by (auto simp: ohas_def simp del: assign_has)
  have "assign_load ?f i \<le> assign_load ?f j + 1"
  proof (rule assign_balanced_fold [OF assign_assignable, where M = "{mid. ohas ms mid}"])
    show "set cs = {mid. ohas ms mid}" if "(s, cs) \<in> set (assign_order ms)" for s cs
    proof -
      from that have cs: "oget (subscribers ms) s = Some cs" by (simp only: assign_order_set)
      from subscribers_Some [OF cs] have "s \<in> S"
        using same by (metis last_in_set)
      with subscribers_Some(2) [OF cs] same show ?thesis
        by (auto simp: ohas_def)
    qed
    show "assign_load (ovmap (\<lambda>_ _. []) ms) i' \<le> assign_load (ovmap (\<lambda>_ _. []) ms) j' + 1" for i' j'
      by (auto simp: assign_load_def split: option.split)
  qed (use members in simp_all)
  with assms(2,3) show ?thesis
    by (auto simp: assign_get assign_load_def)
qed

end
