(* ===== verification/Grp_Coord.thy ===== *)
theory Grp_Coord
  imports Grp_State
begin

text \<open>
  The coordinator's operations on one loaded group, \<^verbatim>\<open>pico-server/src/group/mod.rs\<close>: the part of
  each method that runs while it holds the group's lock. Authorisation, finding the coordinator and
  opening the group's log come before and are not part of the group's state. The outcome of an append to
  the group's log is an argument.
\<close>

record member_fence =
  mf_generation :: i32
  mf_member_id :: string
  mf_instance_id :: "string option"

record sync_input =
  si_generation :: i32
  si_member_id :: string
  si_instance_id :: "string option"
  si_assignments :: "(string \<times> bytes) list"

definition check_fence :: "group \<Rightarrow> member_fence \<Rightarrow> group_error + unit" where
  "check_fence g f =
    (case oget (g_members g) (mf_member_id f) of
       None \<Rightarrow> Inl UnknownMember
     | Some m \<Rightarrow>
         if m_instance_id m \<noteq> mf_instance_id f then Inl FencedInstance
         else if g_generation g \<noteq> mf_generation f then Inl IllegalGeneration
         else Inr ())"

definition sync_outcome_of :: "group \<Rightarrow> string \<Rightarrow> sync_outcome" where
  "sync_outcome_of g mid =
    \<lparr>so_protocol_type = protocol_type g, so_protocol_name = protocol_name g,
     so_assignment = (case oget (g_members g) mid of
       Some m \<Rightarrow> (case m_role m of RoleClient _ assignment \<Rightarrow> assignment | _ \<Rightarrow> [])
     | None \<Rightarrow> [])\<rparr>"

section \<open>Join\<close>

definition resolve_member_id :: "group \<Rightarrow> join_input \<Rightarrow> string" where
  "resolve_member_id g input =
    (if ji_member_id input = [] then
       (case ji_instance_id input of
          Some inst \<Rightarrow>
            (case find (\<lambda>(_, m). m_instance_id m = Some inst) (oentries (g_members g)) of
               Some (existing, _) \<Rightarrow> existing | None \<Rightarrow> [])
        | None \<Rightarrow> [])
     else ji_member_id input)"

definition over_capacity :: "group \<Rightarrow> string \<Rightarrow> membership \<Rightarrow> bool" where
  "over_capacity g mid ms =
    (case ms of
       Client _ _ \<Rightarrow> False
     | Subscribed names \<Rightarrow>
         (let previous = (case oget (g_members g) mid of Some m \<Rightarrow> length (subscribed m) | None \<Rightarrow> 0);
              new_names = osize (ofrom (filter (\<lambda>n. \<not> ohas (g_names g) n) names))
          in osize (g_names g) + new_names > max_streams_per_group \<or>
             subscription_entries g - previous + length names > max_subscription_entries))"

definition insert_member :: "group \<Rightarrow> string \<Rightarrow> join_input \<Rightarrow> nat \<Rightarrow> group" where
  "insert_member g mid input now =
    g\<lparr>g_names := intern_all (ji_membership input) (g_names g),
      g_members := oput mid (member_from_input input now) (g_members g)\<rparr>"

definition stale_instances :: "group \<Rightarrow> string \<Rightarrow> string option \<Rightarrow> string list" where
  "stale_instances g mid instance_id =
    (case instance_id of
       None \<Rightarrow> []
     | Some inst \<Rightarrow> map fst (filter (\<lambda>(i, m). i \<noteq> mid \<and> m_instance_id m = Some inst) (oentries (g_members g))))"

definition start_rebalance :: "group \<Rightarrow> nat \<Rightarrow> group \<times> (u64 \<times> nat) option" where
  "start_rebalance g now =
    (case g_rebalance g of
       Some _ \<Rightarrow> (g, None)
     | None \<Rightarrow>
         (let rid = g_next_rebalance_id g;
              timeout = (case ovals (g_members g) of [] \<Rightarrow> 1000
                | ms \<Rightarrow> Max (set (map m_rebalance_timeout ms)))
          in (g\<lparr>g_phase := PreparingRebalance, g_next_rebalance_id := max (rid + 1) 1,
                g_rebalance := Some \<lparr>rb_id = rid, rb_expected = ovmap (\<lambda>_ _. ()) (g_members g),
                  rb_joined = oempty, rb_waiters = oempty\<rparr>\<rparr>,
              Some (rid, now + timeout))))"

definition enqueue_join :: "group \<Rightarrow> string \<Rightarrow> nat \<Rightarrow> group \<times> answer list" where
  "enqueue_join g mid req =
    (case g_rebalance g of
       None \<Rightarrow> (g, [])
     | Some r \<Rightarrow>
         (g\<lparr>g_rebalance := Some (r\<lparr>rb_expected := oput mid () (rb_expected r), rb_joined := oput mid () (rb_joined r),
             rb_waiters := oput mid req (rb_waiters r)\<rparr>)\<rparr>,
          case oget (rb_waiters r) mid of
            Some previous \<Rightarrow> [JoinAnswer previous (join_error Superseded mid)] | None \<Rightarrow> []))"

text \<open>From the checks on: the member is known or new, and fits.\<close>

definition admit_join :: "group \<Rightarrow> nat \<Rightarrow> join_input \<Rightarrow> string \<Rightarrow> bool \<Rightarrow> nat \<Rightarrow> group \<times> answer list \<times> (u64 \<times> nat) option"
  where
  "admit_join g req input mid is_new now =
    (let g = (if is_new then insert_member g mid input now else g)
     in if is_new \<and> ji_require_known_member_id input
        then (g, [JoinAnswer req (join_error MemberIdRequired mid)], None)
        else
          (let (g, a) = depart_all g (stale_instances g mid (ji_instance_id input)) FencedInstance
           in case oget (g_members g) mid of
             None \<Rightarrow> (g, a, None)
           | Some m \<Rightarrow>
               if m_instance_id m \<noteq> ji_instance_id input
               then (g, a @ [JoinAnswer req (join_error FencedInstance mid)], None)
               else
                 (let g = (if is_new then g else insert_member g mid input now);
                      g = (if g_mode g = None then g\<lparr>g_mode := Some (mode_of (ji_membership input))\<rparr> else g);
                      (g, schedule) = start_rebalance g now;
                      (g, b) = enqueue_join g mid req;
                      (g, c) = settle g now
                  in (g, a @ b @ c, schedule))))"

definition join :: "group \<Rightarrow> nat \<Rightarrow> join_input \<Rightarrow> string \<Rightarrow> nat \<Rightarrow> group \<times> answer list \<times> (u64 \<times> nat) option" where
  "join g req input uuid now =
    (let (g, a) = expire_members g now;
         g = g\<lparr>g_last_activity := now\<rparr>;
         known = resolve_member_id g input;
         is_new = (known = []);
         mid = (if is_new then new_member_id (ji_client_id input) uuid else known);
         refuse = (\<lambda>e i. (g, a @ [JoinAnswer req (join_error e i)], None))
     in if is_new \<and> osize (g_members g) \<ge> max_members_per_group then refuse CapacityExceeded []
        else if \<not> is_new \<and> \<not> ohas (g_members g) mid then refuse UnknownMember mid
        else if (case g_mode g of Some md \<Rightarrow> \<not> compatible md (ji_membership input) | None \<Rightarrow> False)
        then refuse InconsistentProtocol mid
        else if over_capacity g mid (ji_membership input) then refuse CapacityExceeded mid
        else let (g, b, schedule) = admit_join g req input mid is_new now in (g, a @ b, schedule))"

section \<open>Watching a rebalance\<close>

text \<open>
  One turn of \<^verbatim>\<open>watch_rebalance\<close>: nothing when the rebalance is over or replaced, otherwise the
  time to wake up at, or at the deadline the end of it.
\<close>

definition watch_rebalance :: "group \<Rightarrow> u64 \<Rightarrow> nat \<Rightarrow> nat \<Rightarrow> group \<times> answer list \<times> nat option" where
  "watch_rebalance g rid deadline now =
    (let (g, a) = expire_members g now
     in case g_rebalance g of
       None \<Rightarrow> (g, a, None)
     | Some r \<Rightarrow>
         if rb_id r \<noteq> rid then (g, a, None)
         else
           (let missing = odifference (rb_expected r) (rb_joined r)
            in if now \<ge> deadline
               then (let (g, b) = depart_all g missing UnknownMember; (g, c) = settle g now in (g, a @ b @ c, None))
               else (g, a, Some (fold min (List.map_filter (\<lambda>mid. map_option (\<lambda>m. m_last_heartbeat m + m_session_timeout m)
                      (oget (g_members g) mid)) missing) deadline))))"

section \<open>Sync, assignment, heartbeat, leave\<close>

definition assign_bytes :: "nat \<Rightarrow> bytes \<Rightarrow> member \<Rightarrow> member" where
  "assign_bytes now b m = m\<lparr>m_last_heartbeat := now,
     m_role := case m_role m of RoleClient protocols _ \<Rightarrow> RoleClient protocols b | r \<Rightarrow> r\<rparr>"

definition distribute :: "group \<Rightarrow> nat \<Rightarrow> string \<Rightarrow> (string, bytes) omap \<Rightarrow> nat \<Rightarrow> group \<times> answer list" where
  "distribute g req mid assignments now =
    (if list_ex (\<lambda>i. \<not> ohas (g_members g) i) (okeys assignments)
     then (g, [SyncAnswer req (Inl UnknownMember)])
     else
       (let g = g\<lparr>g_members := ovmap (\<lambda>i. assign_bytes now (case oget assignments i of Some b \<Rightarrow> b | None \<Rightarrow> []))
                 (g_members g), g_phase := GroupStable\<rparr>;
            waiters = oentries (g_sync_waiters g);
            g = g\<lparr>g_sync_waiters := oempty\<rparr>
        in (g, map (\<lambda>(i, r). SyncAnswer r (Inr (sync_outcome_of g i))) waiters @
               [SyncAnswer req (Inr (sync_outcome_of g mid))])))"

definition sync :: "group \<Rightarrow> nat \<Rightarrow> sync_input \<Rightarrow> nat \<Rightarrow> group \<times> answer list" where
  "sync g req input now =
    (let (g, a) = expire_members g now;
         mid = si_member_id input;
         refuse = (\<lambda>e. (g, a @ [SyncAnswer req (Inl e)]))
     in case check_fence g \<lparr>mf_generation = si_generation input, mf_member_id = mid,
          mf_instance_id = si_instance_id input\<rparr> of
       Inl e \<Rightarrow> refuse e
     | Inr _ \<Rightarrow>
         (case g_mode g of
            Some (ModeClient _ _ leader) \<Rightarrow>
              if g_phase g = PreparingRebalance then refuse RebalanceInProgress
              else if g_phase g = GroupStable then (g, a @ [SyncAnswer req (Inr (sync_outcome_of g mid))])
              else if mid = leader then
                (let (g, b) = distribute g req mid (fold (\<lambda>(i, b). oput i b) (si_assignments input) oempty) now
                 in (g, a @ b))
              else
                (let b = (case oget (g_sync_waiters g) mid of
                       Some previous \<Rightarrow> [SyncAnswer previous (Inl Superseded)] | None \<Rightarrow> [])
                 in (g\<lparr>g_sync_waiters := oput mid req (g_sync_waiters g)\<rparr>, a @ b))
          | _ \<Rightarrow> refuse InvalidRequest))"

definition assignment :: "group \<Rightarrow> member_fence \<Rightarrow> nat \<Rightarrow> group \<times> answer list \<times> (group_error + string list)" where
  "assignment g f now =
    (let (g, a) = expire_members g now
     in (g, a, rbind (check_fence g f) (\<lambda>_.
       if g_phase g \<noteq> GroupStable then Inl RebalanceInProgress
       else case oget (g_members g) (mf_member_id f) of
         None \<Rightarrow> Inl UnknownMember
       | Some m \<Rightarrow> (case m_role m of RoleSubscribed _ streams \<Rightarrow> Inr streams | RoleClient _ _ \<Rightarrow> Inl InvalidRequest))))"

definition heartbeat :: "group \<Rightarrow> member_fence \<Rightarrow> nat \<Rightarrow> group \<times> answer list \<times> (group_error + unit)" where
  "heartbeat g f now =
    (let (g, a) = expire_members g now
     in case check_fence g f of
       Inl e \<Rightarrow> (g, a, Inl e)
     | Inr _ \<Rightarrow>
         (let g = g\<lparr>g_members := ovmap (\<lambda>i m. if i = mf_member_id f then m\<lparr>m_last_heartbeat := now\<rparr> else m) (g_members g)\<rparr>
          in (g, a, if g_phase g \<noteq> GroupStable then Inl RebalanceInProgress else Inr ())))"

fun leave_each :: "group \<Rightarrow> (string \<times> string option) list \<Rightarrow> group \<times> answer list \<times> (group_error + unit) list" where
  "leave_each g [] = (g, [], [])"
| "leave_each g ((mid, inst) # ms) =
    (case oget (g_members g) mid of
       None \<Rightarrow> (let (g, a, rs) = leave_each g ms in (g, a, Inl UnknownMember # rs))
     | Some m \<Rightarrow>
         if m_instance_id m \<noteq> inst then (let (g, a, rs) = leave_each g ms in (g, a, Inl FencedInstance # rs))
         else (let (g, a) = depart g mid UnknownMember; (g, b, rs) = leave_each g ms in (g, a @ b, Inr () # rs)))"

definition leave :: "group \<Rightarrow> (string \<times> string option) list \<Rightarrow> nat \<Rightarrow> group \<times> answer list \<times> (group_error + unit) list" where
  "leave g ms now =
    (let (g, a) = expire_members g now;
         (g, b, rs) = leave_each (g\<lparr>g_last_activity := now\<rparr>) ms;
         (g, c) = (if Inr () \<in> set rs then settle g now else (g, []))
     in (g, a @ b @ c, rs))"

section \<open>Offsets\<close>

text \<open>
  The answers of the log service: whether an append fails and whether its record is in the log
  nevertheless, which topics exist, and whether the snapshot append and the trim succeed.
\<close>

record log_io =
  io_error :: "group_error option"
  io_landed :: bool
  io_exists :: "bytes \<Rightarrow> bool"
  io_snapshot :: bool
  io_trim :: bool

definition offset_snapshot_interval :: u64 where
  "offset_snapshot_interval = 64"

definition record_append :: "bytes list \<Rightarrow> bytes \<Rightarrow> log_io \<Rightarrow> bytes list \<times> (group_error + unit)" where
  "record_append log payload io =
    (case io_error io of
       None \<Rightarrow> (log @ [payload], Inr ())
     | Some e \<Rightarrow> (if io_landed io then log @ [payload] else log, Inl e))"

definition snapshot_and_trim :: "group \<Rightarrow> bytes list \<Rightarrow> log_io \<Rightarrow> group \<times> bytes list" where
  "snapshot_and_trim g log io =
    (let g = g\<lparr>g_offsets := oretain (\<lambda>p _. io_exists io (fst p)) (g_offsets g)\<rparr>
     in if \<not> io_snapshot io then (g, log)
        else let log = log @ [encode_snapshot (g_offsets g)]
          in if io_trim io then (g\<lparr>g_appends_since_snapshot := 0\<rparr>, [last log]) else (g, log))"

definition recorded :: "group \<Rightarrow> bytes list \<Rightarrow> log_io \<Rightarrow> group \<times> bytes list" where
  "recorded g log io =
    (let g = g\<lparr>g_appends_since_snapshot := g_appends_since_snapshot g + 1\<rparr>
     in if g_appends_since_snapshot g \<ge> offset_snapshot_interval then snapshot_and_trim g log io else (g, log))"

definition commit_offsets :: "group \<Rightarrow> bytes list \<Rightarrow> member_fence option \<Rightarrow> offset_commit list \<Rightarrow> log_io \<Rightarrow> nat
    \<Rightarrow> group \<times> bytes list \<times> answer list \<times> (group_error + unit)" where
  "commit_offsets g log fence commits io now =
    (let (g, a) = expire_members g now;
         g = g\<lparr>g_last_activity := now\<rparr>;
         admitted = (case fence of
           Some f \<Rightarrow> rbind (check_fence g f) (\<lambda>_. if g_phase g \<noteq> GroupStable then Inl RebalanceInProgress else Inr ())
         | None \<Rightarrow> if g_phase g \<noteq> GroupEmpty then Inl UnknownMember else Inr ())
     in case admitted of
       Inl e \<Rightarrow> (g, log, a, Inl e)
     | Inr _ \<Rightarrow>
         if commits = [] then (g, log, a, Inr ())
         else if osize (g_offsets g) +
           osize (ofrom (map oc_partition (filter (\<lambda>c. \<not> ohas (g_offsets g) (oc_partition c)) commits)))
             > max_partitions_per_group then (g, log, a, Inl CapacityExceeded)
         else
           (case record_append log (encode_commits commits) io of
              (log, Inl e) \<Rightarrow> (g, log, a, Inl e)
            | (log, Inr _) \<Rightarrow>
                (let g = g\<lparr>g_offsets := fold (\<lambda>c. oput (oc_partition c) (oc_value c)) commits (g_offsets g)\<rparr>;
                     (g, log) = recorded g log io
                 in (g, log, a, Inr ()))))"

definition delete_offsets :: "group \<Rightarrow> bytes list \<Rightarrow> partition list \<Rightarrow> log_io \<Rightarrow> nat
    \<Rightarrow> group \<times> bytes list \<times> (group_error + unit)" where
  "delete_offsets g log partitions io now =
    (let g = g\<lparr>g_last_activity := now\<rparr>;
         committed = filter (ohas (g_offsets g)) partitions
     in if committed = [] then (g, log, Inr ())
        else
          (case record_append log (encode_deletes committed) io of
             (log, Inl e) \<Rightarrow> (g, log, Inl e)
           | (log, Inr _) \<Rightarrow>
               (let g = g\<lparr>g_offsets := fold odel committed (g_offsets g)\<rparr>;
                    (g, log) = recorded g log io
                in (g, log, Inr ()))))"

definition fetch_offsets :: "group \<Rightarrow> partition list option \<Rightarrow> nat \<Rightarrow> group \<times> offset_table" where
  "fetch_offsets g partitions now =
    (let g = g\<lparr>g_last_activity := now\<rparr>
     in (g, case partitions of
          None \<Rightarrow> g_offsets g
        | Some ps \<Rightarrow> fold (\<lambda>p t. case oget (g_offsets g) p of Some v \<Rightarrow> oput p v t | None \<Rightarrow> t) ps oempty))"

definition fetch_offsets_after :: "group \<Rightarrow> bytes option \<Rightarrow> partition option \<Rightarrow> nat \<Rightarrow> (partition \<times> committed_offset) list" where
  "fetch_offsets_after g topic after count =
    (let from = (case (after, topic) of
           (Some p, _) \<Rightarrow> filter (\<lambda>(q, _). p < q) (oentries (g_offsets g))
         | (None, Some t) \<Rightarrow> filter (\<lambda>(q, _). (t, 0) \<le> q) (oentries (g_offsets g))
         | (None, None) \<Rightarrow> oentries (g_offsets g))
     in take count (takeWhile (\<lambda>((t, _), _). case topic of None \<Rightarrow> True | Some t' \<Rightarrow> t = t') from))"

text \<open>\<^verbatim>\<open>delete\<close>: only a group without members; the log goes with it.\<close>

definition delete_group :: "group \<Rightarrow> nat \<Rightarrow> group \<times> answer list \<times> (group_error + unit)" where
  "delete_group g now =
    (let (g, a) = expire_members g now
     in (g, a, if g_members g \<noteq> oempty then Inl NonEmpty else Inr ()))"

text \<open>\<^verbatim>\<open>local_group\<close> when the log has moved to another epoch: replay, answer what is pending, start over.\<close>

definition reload_group :: "group \<Rightarrow> i64 \<Rightarrow> bytes list \<Rightarrow> nat \<Rightarrow> group_error + group \<times> answer list" where
  "reload_group g epoch log now =
    (if g_loaded_epoch g = epoch then Inr (g, [])
     else case replay_offsets log oempty of
       Inl _ \<Rightarrow> Inl NotCoordinator
     | Inr (offsets, n) \<Rightarrow> (let (_, a) = unload g in Inr (loaded epoch offsets (of_nat n) now, a)))"

end
