(* ===== verification/Grp_Inv.thy ===== *)
theory Grp_Inv
  imports Grp_Coord Grp_Assign
begin

text \<open>
  The invariant of a loaded group and the account of pending requests: every operation keeps the
  invariant, and whatever request leaves the group is answered on the way.
\<close>

section \<open>Values of a map as a multiset\<close>

lemma mset_al_put: "k \<notin> fst ` set xs \<Longrightarrow> mset (al_put k v xs) = add_mset (k, v) (mset xs)"
  by (induction k v xs rule: al_put.induct) auto

lemma oput_odel: "oput k v m = oput k v (odel k m)"
  by (rule omap_eqI) simp

lemma mset_oput: "mset (ovals (oput k v m)) = add_mset v (mset (ovals (odel k m)))"
proof -
  have "k \<notin> fst ` set (oentries (odel k m))"
    using okeys_iff [of k "odel k m"] by simp
  then have "mset (oentries (oput k v (odel k m))) = add_mset (k, v) (mset (oentries (odel k m)))"
    unfolding oentries_eval(2) by (rule mset_al_put)
  then show ?thesis
    unfolding oput_odel [of k v m] mset_map by simp
qed

lemma mset_odel: "oget m k = Some v \<Longrightarrow> mset (ovals m) = add_mset v (mset (ovals (odel k m)))"
  using mset_oput [of k v m] om.put_same [of m k v] by simp

section \<open>Pending requests\<close>

definition pending_requests :: "group \<Rightarrow> nat multiset" where
  "pending_requests g =
    (case g_rebalance g of None \<Rightarrow> {#} | Some r \<Rightarrow> mset (ovals (rb_waiters r))) + mset (ovals (g_sync_waiters g))"

definition answered :: "answer list \<Rightarrow> nat multiset" where
  "answered as = mset (map (\<lambda>x. case x of JoinAnswer r _ \<Rightarrow> r | SyncAnswer r _ \<Rightarrow> r) as)"

lemma answered_simps [simp]:
  "answered [] = {#}" "answered (as @ bs) = answered as + answered bs"
  "answered (JoinAnswer r j # as) = add_mset r (answered as)"
  "answered (SyncAnswer r s # as) = add_mset r (answered as)"
  by (simp_all add: answered_def)

lemma answered_joins: "answered (map (\<lambda>(i, r). JoinAnswer r (f i r)) xs) = mset (map snd xs)"
  by (induction xs) auto

lemma answered_syncs: "answered (map ((\<lambda>r. SyncAnswer r (f r)) \<circ> snd) xs) = mset (map snd xs)"
  by (induction xs) auto

lemma answered_sync_entries: "answered (map (\<lambda>(i, r). SyncAnswer r (f i r)) xs) = mset (map snd xs)"
  by (induction xs) auto

text \<open>Fields that no request and no part of the invariant depends on.\<close>

lemma pending_frame [simp]:
  "pending_requests (g\<lparr>g_phase := p\<rparr>) = pending_requests g" "pending_requests (g\<lparr>g_mode := mo\<rparr>) = pending_requests g"
  "pending_requests (g\<lparr>g_names := ns\<rparr>) = pending_requests g" "pending_requests (g\<lparr>g_members := ms\<rparr>) = pending_requests g"
  "pending_requests (g\<lparr>g_last_activity := t\<rparr>) = pending_requests g" "pending_requests (sweep g) = pending_requests g"
  "pending_requests (g\<lparr>g_generation := n\<rparr>) = pending_requests g"
  "pending_requests (g\<lparr>g_offsets := os\<rparr>) = pending_requests g"
  "pending_requests (g\<lparr>g_appends_since_snapshot := x\<rparr>) = pending_requests g"
  by (simp_all add: pending_requests_def sweep_def)

section \<open>The invariant\<close>

definition assigned :: "member \<Rightarrow> string list" where
  "assigned m = (case m_role m of RoleSubscribed _ streams \<Rightarrow> streams | RoleClient _ _ \<Rightarrow> [])"

definition role_fits :: "mode \<Rightarrow> member \<Rightarrow> bool" where
  "role_fits md m = (case (md, m_role m) of
     (ModeSubscribed, RoleSubscribed _ _) \<Rightarrow> True | (ModeClient _ _ _, RoleClient _ _) \<Rightarrow> True | _ \<Rightarrow> False)"

text \<open>A running rebalance: who has joined waits, is expected, is a member and speaks the group's mode.\<close>

definition rebalance_ok :: "group \<Rightarrow> rebalance \<Rightarrow> bool" where
  "rebalance_ok g r \<longleftrightarrow> g_phase g = PreparingRebalance \<and>
    (\<forall>i. ohas (rb_expected r) i \<longrightarrow> ohas (g_members g) i) \<and>
    (\<forall>i. ohas (rb_joined r) i \<longrightarrow> ohas (rb_expected r) i) \<and>
    (\<forall>i. ohas (rb_waiters r) i \<longleftrightarrow> ohas (rb_joined r) i) \<and>
    (\<exists>md. g_mode g = Some md \<and> (\<forall>i m. ohas (rb_joined r) i \<longrightarrow> oget (g_members g) i = Some m \<longrightarrow> role_fits md m))"

definition members_ok :: "(string, member) omap \<Rightarrow> bool" where
  "members_ok ms \<longleftrightarrow>
    (\<forall>i m. oget ms i = Some m \<longrightarrow> distinct (assigned m) \<and> set (assigned m) \<subseteq> set (subscribed m)) \<and>
    (\<forall>i j m n s. oget ms i = Some m \<longrightarrow> oget ms j = Some n \<longrightarrow> s \<in> set (assigned m) \<longrightarrow> s \<in> set (assigned n) \<longrightarrow> i = j)"

definition phase_ok :: "group \<Rightarrow> bool" where
  "phase_ok g \<longleftrightarrow> (case g_phase g of
     GroupEmpty \<Rightarrow> g_mode g = None \<and> g_sync_waiters g = oempty
   | PreparingRebalance \<Rightarrow> True
   | CompletingRebalance \<Rightarrow> (\<exists>t n l. g_mode g = Some (ModeClient t n l))
   | GroupStable \<Rightarrow> g_mode g \<noteq> None \<and> g_sync_waiters g = oempty)"

definition group_core :: "group \<Rightarrow> bool" where
  "group_core g \<longleftrightarrow> (\<forall>r. g_rebalance g = Some r \<longrightarrow> rebalance_ok g r) \<and>
    (\<forall>i. ohas (g_sync_waiters g) i \<longrightarrow> ohas (g_members g) i) \<and>
    members_ok (g_members g) \<and> phase_ok g \<and> 0 \<le> g_generation g"

text \<open>Between operations, only an empty group has no members.\<close>

definition group_ok :: "group \<Rightarrow> bool" where
  "group_ok g \<longleftrightarrow> group_core g \<and> (g_members g = oempty \<longrightarrow> g_phase g = GroupEmpty)"

lemma members_okD:
  assumes "members_ok ms" and "oget ms i = Some m"
  shows "distinct (assigned m)" and "s \<in> set (assigned m) \<Longrightarrow> s \<in> set (subscribed m)"
    and "oget ms j = Some n \<Longrightarrow> s \<in> set (assigned m) \<Longrightarrow> s \<in> set (assigned n) \<Longrightarrow> i = j"
  using assms unfolding members_ok_def by blast+

lemma members_okI:
  assumes "\<And>i m. oget ms i = Some m \<Longrightarrow> distinct (assigned m) \<and> set (assigned m) \<subseteq> set (subscribed m)"
    and "\<And>i j m n s. oget ms i = Some m \<Longrightarrow> oget ms j = Some n \<Longrightarrow> s \<in> set (assigned m) \<Longrightarrow> s \<in> set (assigned n) \<Longrightarrow> i = j"
  shows "members_ok ms"
  using assms unfolding members_ok_def by blast

lemma members_ok_odel: "members_ok ms \<Longrightarrow> members_ok (odel i ms)"
  by (rule members_okI) (auto dest: members_okD split: if_splits)

text \<open>A member that brings no assignment fits in.\<close>

lemma members_ok_oput: "members_ok ms \<Longrightarrow> assigned m = [] \<Longrightarrow> members_ok (oput i m ms)"
  by (rule members_okI) (auto dest: members_okD split: if_splits)

text \<open>Changing members one by one, each keeping or losing its assignment.\<close>

lemma members_ok_ovmap:
  assumes "members_ok ms" and "\<And>i m. assigned (f i m) = assigned m \<or> assigned (f i m) = []"
    and "\<And>i m. subscribed (f i m) = subscribed m"
  shows "members_ok (ovmap f ms)"
proof (rule members_okI)
  fix i m assume "oget (ovmap f ms) i = Some m"
  then obtain m' where m': "oget ms i = Some m'" "m = f i m'" by auto
  have sub: "set (assigned m) \<subseteq> set (assigned m')" and d: "distinct (assigned m)"
    using assms(2) [of i m'] members_okD(1) [OF assms(1) m'(1)] m'(2) by auto
  show "distinct (assigned m) \<and> set (assigned m) \<subseteq> set (subscribed m)"
    using sub d members_okD(2) [OF assms(1) m'(1)] assms(3) [of i m'] m'(2) by auto
  fix j n s assume "oget (ovmap f ms) j = Some n" and s: "s \<in> set (assigned m)" "s \<in> set (assigned n)"
  then obtain n' where n': "oget ms j = Some n'" "n = f j n'" by auto
  have "s \<in> set (assigned n')"
    using s(2) n'(2) assms(2) [of j n'] by auto
  with sub s(1) n'(1) show "i = j"
    using members_okD(3) [OF assms(1) m'(1)] by blast
qed

lemma group_coreD:
  assumes "group_core g"
  shows "g_rebalance g = Some r \<Longrightarrow> rebalance_ok g r" and "ohas (g_sync_waiters g) i \<Longrightarrow> ohas (g_members g) i"
    and "members_ok (g_members g)" and "phase_ok g" and "0 \<le> g_generation g"
  using assms by (auto simp: group_core_def)

lemma group_coreI:
  assumes "\<And>r. g_rebalance g = Some r \<Longrightarrow> rebalance_ok g r" and "\<And>i. ohas (g_sync_waiters g) i \<Longrightarrow> ohas (g_members g) i"
    and "members_ok (g_members g)" and "phase_ok g" and "0 \<le> g_generation g"
  shows "group_core g"
  using assms by (auto simp: group_core_def)

lemma phase_ok_cong:
  "g_phase g' = g_phase g \<Longrightarrow> g_mode g' = g_mode g \<Longrightarrow> g_sync_waiters g' = g_sync_waiters g \<Longrightarrow> phase_ok g' \<longleftrightarrow> phase_ok g"
  by (simp add: phase_ok_def cong: group_state.case_cong)

lemma rebalance_ok_cong:
  "g_phase g' = g_phase g \<Longrightarrow> g_mode g' = g_mode g \<Longrightarrow> g_members g' = g_members g \<Longrightarrow> rebalance_ok g' r \<longleftrightarrow> rebalance_ok g r"
  by (simp add: rebalance_ok_def)

lemma group_core_cong:
  assumes "g_phase g' = g_phase g" "g_mode g' = g_mode g" "g_members g' = g_members g" "g_rebalance g' = g_rebalance g"
    "g_sync_waiters g' = g_sync_waiters g" "g_generation g' = g_generation g"
  shows "group_core g' \<longleftrightarrow> group_core g"
  using phase_ok_cong [OF assms(1,2,5)] rebalance_ok_cong [OF assms(1,2,3)] assms by (simp add: group_core_def)

lemma core_frame [simp]:
  "group_core (g\<lparr>g_names := ns\<rparr>) \<longleftrightarrow> group_core g" "group_core (g\<lparr>g_last_activity := t\<rparr>) \<longleftrightarrow> group_core g"
  "group_core (g\<lparr>g_offsets := os\<rparr>) \<longleftrightarrow> group_core g" "group_core (g\<lparr>g_appends_since_snapshot := x\<rparr>) \<longleftrightarrow> group_core g"
  "group_core (sweep g) \<longleftrightarrow> group_core g"
  by (rule group_core_cong; simp add: sweep_def)+

lemma ok_frame [simp]:
  "group_ok (g\<lparr>g_last_activity := t\<rparr>) \<longleftrightarrow> group_ok g" "group_ok (g\<lparr>g_offsets := os\<rparr>) \<longleftrightarrow> group_ok g"
  "group_ok (g\<lparr>g_appends_since_snapshot := x\<rparr>) \<longleftrightarrow> group_ok g"
  by (simp_all add: group_ok_def)

lemma sweep_frame [simp]:
  "g_phase (sweep g) = g_phase g" "g_mode (sweep g) = g_mode g" "g_members (sweep g) = g_members g"
  "g_rebalance (sweep g) = g_rebalance g" "g_sync_waiters (sweep g) = g_sync_waiters g"
  "g_generation (sweep g) = g_generation g" "g_offsets (sweep g) = g_offsets g"
  by (simp_all add: sweep_def)

section \<open>Leaving\<close>

lemma depart_fields [simp]:
  "g_members (fst (depart g mid e)) = odel mid (g_members g)" "g_phase (fst (depart g mid e)) = g_phase g"
  "g_mode (fst (depart g mid e)) = g_mode g" "g_generation (fst (depart g mid e)) = g_generation g"
  "g_sync_waiters (fst (depart g mid e)) = odel mid (g_sync_waiters g)" "g_offsets (fst (depart g mid e)) = g_offsets g"
  "g_rebalance (fst (depart g mid e)) = map_option (\<lambda>r. r\<lparr>rb_expected := odel mid (rb_expected r),
     rb_joined := odel mid (rb_joined r), rb_waiters := odel mid (rb_waiters r)\<rparr>) (g_rebalance g)"
  by (simp_all add: depart_def Let_def)

lemma depart_core:
  assumes "group_core g"
  shows "group_core (fst (depart g mid e))"
proof (rule group_coreI)
  note core = group_coreD [OF assms]
  show "rebalance_ok (fst (depart g mid e)) r" if "g_rebalance (fst (depart g mid e)) = Some r" for r
  proof -
    from that obtain q where q: "g_rebalance g = Some q" "r = q\<lparr>rb_expected := odel mid (rb_expected q),
        rb_joined := odel mid (rb_joined q), rb_waiters := odel mid (rb_waiters q)\<rparr>" by auto
    from core(1) [OF q(1)] show ?thesis
      by (auto simp: q(2) rebalance_ok_def)
  qed
  show "ohas (g_members (fst (depart g mid e))) i" if "ohas (g_sync_waiters (fst (depart g mid e))) i" for i
    using that core(2) by simp
  show "members_ok (g_members (fst (depart g mid e)))"
    by (simp add: members_ok_odel core(3))
  show "phase_ok (fst (depart g mid e))"
    using core(4) by (auto simp: phase_ok_def om.del_absent split: group_state.splits)
  show "0 \<le> g_generation (fst (depart g mid e))"
    using core(5) by simp
qed

lemma mset_odel_case:
  "mset (ovals m) = mset (ovals (odel k m)) + (case oget m k of Some v \<Rightarrow> {#v#} | None \<Rightarrow> {#})"
  by (cases "oget m k") (simp_all add: om.del_absent mset_odel del: mset_map oentries_eval)

lemma depart_pending: "pending_requests (fst (depart g mid e)) + answered (snd (depart g mid e)) = pending_requests g"
proof -
  have syncs: "answered (case oget (g_sync_waiters g) mid of Some req \<Rightarrow> [SyncAnswer req (Inl e)] | None \<Rightarrow> []) =
      (case oget (g_sync_waiters g) mid of Some v \<Rightarrow> {#v#} | None \<Rightarrow> {#})"
    by (simp split: option.split)
  have joins: "answered (case oget w mid of Some req \<Rightarrow> [JoinAnswer req (join_error e mid)] | None \<Rightarrow> []) =
      (case oget w mid of Some v \<Rightarrow> {#v#} | None \<Rightarrow> {#})" for w
    by (simp split: option.split)
  note s = mset_odel_case [of "g_sync_waiters g" mid]
  show ?thesis
  proof (cases "g_rebalance g")
    case None
    then show ?thesis
      by (simp add: depart_def Let_def pending_requests_def syncs s [symmetric] del: mset_map oentries_eval)
  next
    case (Some r)
    note w = mset_odel_case [of "rb_waiters r" mid]
    have "mset (ovals (odel mid (rb_waiters r))) + mset (ovals (odel mid (g_sync_waiters g))) +
        ((case oget (g_sync_waiters g) mid of Some v \<Rightarrow> {#v#} | None \<Rightarrow> {#}) +
         (case oget (rb_waiters r) mid of Some v \<Rightarrow> {#v#} | None \<Rightarrow> {#})) =
        mset (ovals (rb_waiters r)) + mset (ovals (g_sync_waiters g))"
      unfolding s w by (simp only: ac_simps)
    with Some show ?thesis
      by (simp add: depart_def Let_def pending_requests_def syncs joins del: mset_map oentries_eval)
  qed
qed

lemma depart_all_core:
  assumes "group_core g"
  shows "group_core (fst (depart_all g ids e))"
  using assms by (induction ids arbitrary: g) (simp_all add: case_prod_unfold Let_def depart_core)

lemma depart_all_pending:
  "pending_requests (fst (depart_all g ids e)) + answered (snd (depart_all g ids e)) = pending_requests g"
proof (induction ids arbitrary: g)
  case (Cons i ids)
  from Cons [of "fst (depart g i e)"] depart_pending [of g i e] show ?case
    by (simp add: case_prod_unfold Let_def ac_simps)
qed simp

lemma depart_all_fields [simp]:
  "g_phase (fst (depart_all g ids e)) = g_phase g" "g_mode (fst (depart_all g ids e)) = g_mode g"
  "g_generation (fst (depart_all g ids e)) = g_generation g" "g_offsets (fst (depart_all g ids e)) = g_offsets g"
  by (induction ids arbitrary: g) (simp_all add: case_prod_unfold Let_def)

lemma depart_all_members: "oget (g_members (fst (depart_all g ids e))) i = (if i \<in> set ids then None else oget (g_members g) i)"
  by (induction ids arbitrary: g) (auto simp: case_prod_unfold Let_def)

section \<open>Completing and settling\<close>

lemma generation_pos: "(0 :: i32) \<le> max (n + 1) 1"
  by (rule order_trans [OF _ max.cobounded2]) (simp add: sword_eval)

lemma set_assignment_roles [simp]:
  "subscribed (set_assignment now streams m) = subscribed m"
  "assigned (set_assignment now streams m) = (case m_role m of RoleSubscribed _ _ \<Rightarrow> streams | RoleClient _ _ \<Rightarrow> [])"
  by (simp_all add: subscribed_def subscription_def set_assignment_def assigned_def split: role.splits)

lemma clear_assignment_roles [simp]:
  "subscribed (clear_assignment now m) = subscribed m" "assigned (clear_assignment now m) = assigned m"
  by (simp_all add: subscribed_def subscription_def clear_assignment_def assigned_def split: role.splits)

text \<open>The fresh assignment is exclusive and within the subscriptions.\<close>

lemma members_ok_assign:
  "members_ok (ovmap (\<lambda>mid m. set_assignment now (case oget (assign ms) mid of Some l \<Rightarrow> l | None \<Rightarrow> []) m) ms)"
    (is "members_ok (ovmap ?f ms)")
proof (rule members_okI)
  have mine: "holds (assign ms) s mid" if "s \<in> set (assigned (?f mid m))" for s mid m
    using that by (cases "m_role m"; cases "oget (assign ms) mid") (simp_all add: holds_def)
  fix i m assume "oget (ovmap ?f ms) i = Some m"
  then obtain m' where m': "oget ms i = Some m'" "m = ?f i m'" by auto
  have "distinct (assigned m)"
    using assign_sorted [of ms i] by (cases "m_role m'"; cases "oget (assign ms) i") (simp_all add: m'(2))
  moreover have "s \<in> set (subscribed m)" if "s \<in> set (assigned m)" for s
    using mine [of s i m'] that m' by (auto elim!: assign_subscribed)
  ultimately show "distinct (assigned m) \<and> set (assigned m) \<subseteq> set (subscribed m)" by blast
  fix j n s assume "oget (ovmap ?f ms) j = Some n" and s: "s \<in> set (assigned m)" "s \<in> set (assigned n)"
  then obtain n' where n': "oget ms j = Some n'" "n = ?f j n'" by auto
  have hi: "holds (assign ms) s i" and hj: "holds (assign ms) s j"
    using mine s m'(2) n'(2) by blast+
  from hi obtain q where "oget ms i = Some q" "s \<in> set (subscribed q)" by (rule assign_subscribed)
  from assign_unique [OF this] hi hj show "i = j" by blast
qed

lemma answer_syncs_simps [simp]:
  "pending_requests (fst (answer_syncs g e)) + answered (snd (answer_syncs g e)) = pending_requests g"
  "g_rebalance (fst (answer_syncs g e)) = g_rebalance g" "g_members (fst (answer_syncs g e)) = g_members g"
  "g_phase (fst (answer_syncs g e)) = g_phase g" "g_mode (fst (answer_syncs g e)) = g_mode g"
  "g_generation (fst (answer_syncs g e)) = g_generation g" "g_sync_waiters (fst (answer_syncs g e)) = oempty"
  "g_offsets (fst (answer_syncs g e)) = g_offsets g" "g_names (fst (answer_syncs g e)) = g_names g"
  by (simp_all add: answer_syncs_def pending_requests_def answered_syncs del: mset_map)

lemma complete_subscribed_ok:
  assumes "g_rebalance g = None" "g_sync_waiters g = oempty" "g_mode g = Some ModeSubscribed" "0 \<le> g_generation g"
    "g_members g \<noteq> oempty"
  shows "group_ok (fst (complete_subscribed g r now))"
    and "answered (snd (complete_subscribed g r now)) = mset (ovals (rb_waiters r))"
    and "pending_requests (fst (complete_subscribed g r now)) = {#}"
proof -
  have "ovmap f (g_members g) \<noteq> oempty" for f :: "string \<Rightarrow> member \<Rightarrow> member"
    using assms(5) by (metis ohas_ovmap oempty_iff)
  with assms members_ok_assign [of now "g_members g"] show "group_ok (fst (complete_subscribed g r now))"
    by (simp add: complete_subscribed_def Let_def group_ok_def group_core_def phase_ok_def)
  show "answered (snd (complete_subscribed g r now)) = mset (ovals (rb_waiters r))"
    by (simp add: complete_subscribed_def Let_def answered_joins del: mset_map)
  show "pending_requests (fst (complete_subscribed g r now)) = {#}"
    using assms by (simp add: complete_subscribed_def Let_def pending_requests_def)
qed

lemma reset_empty_ok:
  assumes "g_rebalance g = None" "g_sync_waiters g = oempty" "g_members g = oempty" "0 \<le> g_generation g"
  shows "group_ok (reset_empty g)" and "pending_requests (reset_empty g) = {#}"
proof -
  have "members_ok oempty" by (rule members_okI) simp_all
  with assms show "group_ok (reset_empty g)"
    by (simp add: reset_empty_def group_ok_def group_core_def phase_ok_def)
  show "pending_requests (reset_empty g) = {#}"
    using assms by (simp add: reset_empty_def pending_requests_def)
qed

lemma complete_client_ok:
  assumes "g_rebalance g = None" "g_sync_waiters g = oempty" "0 \<le> g_generation g" "members_ok (g_members g)"
    "g_members g \<noteq> oempty"
  shows "group_ok (fst (complete_client g r t l now))"
    and "answered (snd (complete_client g r t l now)) = mset (ovals (rb_waiters r))"
    and "pending_requests (fst (complete_client g r t l now)) = {#}"
proof -
  let ?leader = "if ohas (rb_joined r) l then l else case okeys (rb_joined r) of [] \<Rightarrow> [] | mid # _ \<Rightarrow> mid"
  have ne: "ovmap f (g_members g) \<noteq> oempty" for f :: "string \<Rightarrow> member \<Rightarrow> member"
    using assms(5) by (metis ohas_ovmap oempty_iff)
  have ok: "members_ok (ovmap (\<lambda>_. clear_assignment now) (g_members g))"
    by (rule members_ok_ovmap [OF assms(4)]) simp_all
  show "group_ok (fst (complete_client g r t l now))"
  proof (cases "select_protocol g ?leader (rb_joined r)")
    case None
    then show ?thesis
      using assms reset_empty_ok(1) [of "g\<lparr>g_members := oempty\<rparr>"] by (simp add: complete_client_def Let_def)
  next
    case (Some pname)
    with assms ne ok show ?thesis
      by (simp add: complete_client_def Let_def group_ok_def group_core_def phase_ok_def)
  qed
  show "answered (snd (complete_client g r t l now)) = mset (ovals (rb_waiters r))"
    by (simp add: complete_client_def Let_def answered_joins del: mset_map split: option.split)
  show "pending_requests (fst (complete_client g r t l now)) = {#}"
    using assms by (simp add: complete_client_def Let_def pending_requests_def reset_empty_def split: option.split)
qed

lemma complete_rebalance_ok:
  assumes core: "group_core g" and r: "g_rebalance g = Some r" and ne: "g_members g \<noteq> oempty"
  shows "group_ok (fst (complete_rebalance g now))"
    and "pending_requests (fst (complete_rebalance g now)) + answered (snd (complete_rebalance g now)) = pending_requests g"
    and "g_rebalance (fst (complete_rebalance g now)) = None"
proof -
  from group_coreD(1) [OF core r] obtain md where md: "g_mode g = Some md"
    by (auto simp: rebalance_ok_def)
  let ?g = "g\<lparr>g_rebalance := None, g_generation := max (g_generation g + 1) 1\<rparr>"
  let ?h = "fst (answer_syncs ?g RebalanceInProgress)"
  have h: "g_rebalance ?h = None" "g_sync_waiters ?h = oempty" "0 \<le> g_generation ?h" "members_ok (g_members ?h)"
    "g_members ?h \<noteq> oempty" "g_mode ?h = Some md"
    using md ne group_coreD(3) [OF core] by (simp_all add: generation_pos)
  have syncs: "answered (snd (answer_syncs ?g RebalanceInProgress)) = mset (ovals (g_sync_waiters g))"
    by (simp add: answer_syncs_def answered_syncs del: mset_map)
  have pend: "pending_requests g = mset (ovals (rb_waiters r)) + mset (ovals (g_sync_waiters g))"
    by (simp add: pending_requests_def r del: mset_map)
  have "group_ok (fst (complete_rebalance g now)) \<and>
    pending_requests (fst (complete_rebalance g now)) + answered (snd (complete_rebalance g now)) = pending_requests g \<and>
    g_rebalance (fst (complete_rebalance g now)) = None"
  proof (cases md)
    case ModeSubscribed
    have "g_rebalance (fst (complete_subscribed ?h r now)) = None"
      using h(1) by (simp add: complete_subscribed_def Let_def)
    with ModeSubscribed complete_subscribed_ok [OF h(1,2) _ h(3,5), of r now] h(6) md show ?thesis
      by (simp add: complete_rebalance_def r case_prod_unfold Let_def syncs pend del: mset_map)
  next
    case (ModeClient t n l)
    have "g_rebalance (fst (complete_client ?h r t l now)) = None"
      using h(1) by (simp add: complete_client_def Let_def reset_empty_def split: option.split)
    with ModeClient complete_client_ok [OF h(1,2,3,4,5), of r t l now] h(6) md show ?thesis
      by (simp add: complete_rebalance_def r case_prod_unfold Let_def syncs pend del: mset_map)
  qed
  then show "group_ok (fst (complete_rebalance g now))"
    "pending_requests (fst (complete_rebalance g now)) + answered (snd (complete_rebalance g now)) = pending_requests g"
    "g_rebalance (fst (complete_rebalance g now)) = None"
    by blast+
qed

lemma core_without_members:
  assumes "group_core g" and "g_members g = oempty"
  shows "g_sync_waiters g = oempty" and "g_rebalance g = Some r \<Longrightarrow> rb_waiters r = oempty"
proof -
  note core = group_coreD [OF assms(1)]
  show "g_sync_waiters g = oempty"
    using core(2) assms(2) by (auto simp: oempty_iff [of "g_sync_waiters g"])
  show "rb_waiters r = oempty" if "g_rebalance g = Some r"
    using core(1) [OF that] assms(2) by (auto simp: oempty_iff [of "rb_waiters r"] rebalance_ok_def)
qed

lemma settle_ok:
  assumes core: "group_core g"
  shows "group_ok (fst (settle g now))"
    and "pending_requests (fst (settle g now)) + answered (snd (settle g now)) = pending_requests g"
proof -
  have "group_ok (fst (settle g now)) \<and>
    pending_requests (fst (settle g now)) + answered (snd (settle g now)) = pending_requests g"
  proof (cases "g_members g = oempty")
    case True
    note none = core_without_members [OF core True]
    have "pending_requests g = {#}"
      using none by (cases "g_rebalance g") (simp_all add: pending_requests_def)
    with True none reset_empty_ok [of "g\<lparr>g_rebalance := None\<rparr>"] group_coreD(5) [OF core] show ?thesis
      by (simp add: settle_def)
  next
    case ne: False
    show ?thesis
    proof (cases "g_rebalance g")
      case None
      have "group_core (fst (answer_syncs ((sweep g)\<lparr>g_phase := PreparingRebalance\<rparr>) RebalanceInProgress))"
        by (rule group_coreI) (use None group_coreD [OF core] in \<open>simp_all add: phase_ok_def\<close>)
      moreover have "pending_requests (fst (answer_syncs ((sweep g)\<lparr>g_phase := PreparingRebalance\<rparr>) RebalanceInProgress)) +
          answered (snd (answer_syncs ((sweep g)\<lparr>g_phase := PreparingRebalance\<rparr>) RebalanceInProgress)) = pending_requests g"
        by (simp only: answer_syncs_simps pending_frame)
      ultimately show ?thesis
        using None ne core by (simp add: settle_def Let_def group_ok_def)
    next
      case (Some r)
      with ne core complete_rebalance_ok [of "sweep g" r now] show ?thesis
        by (simp add: settle_def Let_def group_ok_def)
    qed
  qed
  then show "group_ok (fst (settle g now))"
    "pending_requests (fst (settle g now)) + answered (snd (settle g now)) = pending_requests g"
    by blast+
qed

lemma depart_settle_ok:
  assumes "group_core g"
  shows "group_ok (fst (settle (fst (depart_all g ids e)) now))"
    and "pending_requests (fst (settle (fst (depart_all g ids e)) now)) + (answered (snd (depart_all g ids e)) +
      answered (snd (settle (fst (depart_all g ids e)) now))) = pending_requests g"
  using settle_ok [OF depart_all_core [OF assms], of ids e now] depart_all_pending [of g ids e]
  by (simp_all add: ac_simps)

lemma expire_members_ok:
  assumes "group_ok g"
  shows "group_ok (fst (expire_members g now))"
    and "pending_requests (fst (expire_members g now)) + answered (snd (expire_members g now)) = pending_requests g"
proof -
  have "group_core g" using assms by (simp add: group_ok_def)
  from depart_settle_ok [OF this] assms show "group_ok (fst (expire_members g now))"
    "pending_requests (fst (expire_members g now)) + answered (snd (expire_members g now)) = pending_requests g"
    by (simp_all add: expire_members_def Let_def case_prod_unfold)
qed

end
