(* ===== verification/Grp_Steps.thy ===== *)
theory Grp_Steps
  imports Grp_Inv
begin

text \<open>
  Every operation of the coordinator keeps the invariant of the group and accounts for every request;
  runs of operations.
\<close>

section \<open>Join\<close>

lemma compatible_fits: "compatible md (ji_membership input) \<Longrightarrow> role_fits md (member_from_input input now)"
  by (auto simp: compatible_def role_fits_def member_from_input_def split: mode.splits membership.splits)

lemma mode_of_fits: "role_fits (mode_of (ji_membership input)) (member_from_input input now)"
  by (auto simp: mode_of_def role_fits_def member_from_input_def split: membership.splits)

lemma fresh_member [simp]:
  "assigned (member_from_input input now) = []" "m_instance_id (member_from_input input now) = ji_instance_id input"
  by (auto simp: assigned_def member_from_input_def split: membership.splits)

lemma insert_member_fields [simp]:
  "g_members (insert_member g mid input now) = oput mid (member_from_input input now) (g_members g)"
  "g_rebalance (insert_member g mid input now) = g_rebalance g" "g_phase (insert_member g mid input now) = g_phase g"
  "g_mode (insert_member g mid input now) = g_mode g" "g_generation (insert_member g mid input now) = g_generation g"
  "g_sync_waiters (insert_member g mid input now) = g_sync_waiters g"
  "pending_requests (insert_member g mid input now) = pending_requests g"
  by (simp_all add: insert_member_def pending_requests_def)

definition speaks :: "group \<Rightarrow> join_input \<Rightarrow> bool" where
  "speaks g input \<longleftrightarrow> (case g_mode g of Some md \<Rightarrow> compatible md (ji_membership input) | None \<Rightarrow> True)"

lemma insert_member_core:
  assumes core: "group_core g" and speaks: "speaks g input"
  shows "group_core (insert_member g mid input now)"
proof (rule group_coreI)
  show "rebalance_ok (insert_member g mid input now) r" if "g_rebalance (insert_member g mid input now) = Some r" for r
  proof -
    from that have r: "rebalance_ok g r"
      using group_coreD(1) [OF core] by simp
    then obtain md where md: "g_mode g = Some md"
      "\<forall>i m. ohas (rb_joined r) i \<longrightarrow> oget (g_members g) i = Some m \<longrightarrow> role_fits md m"
      by (auto simp: rebalance_ok_def)
    have "role_fits md (member_from_input input now)"
      using speaks md(1) by (simp add: speaks_def compatible_fits)
    with r md show ?thesis
      by (auto simp: rebalance_ok_def)
  qed
  show "phase_ok (insert_member g mid input now)"
    using group_coreD(4) [OF core] by (rule phase_ok_cong [THEN iffD2, rotated 3]) simp_all
qed (use group_coreD [OF core] in \<open>auto simp: members_ok_oput\<close>)

lemma start_rebalance_core:
  assumes core: "group_core g" and mem: "oget (g_members g) mid = Some m"
    and fits: "case g_mode g of Some md \<Rightarrow> role_fits md m | None \<Rightarrow> role_fits md0 m"
    and g1: "g1 = (if g_mode g = None then g\<lparr>g_mode := Some md0\<rparr> else g)"
  shows "group_core (fst (start_rebalance g1 now))"
    and "\<exists>r md. g_rebalance (fst (start_rebalance g1 now)) = Some r \<and> g_mode (fst (start_rebalance g1 now)) = Some md \<and>
      role_fits md m"
    and "pending_requests (fst (start_rebalance g1 now)) = pending_requests g"
    and "g_members (fst (start_rebalance g1 now)) = g_members g"
proof -
  note c = group_coreD [OF core]
  have same: "g_rebalance g1 = g_rebalance g" "g_members g1 = g_members g" "g_sync_waiters g1 = g_sync_waiters g"
    "g_generation g1 = g_generation g"
    by (simp_all add: g1)
  obtain md where md: "g_mode g1 = Some md" "role_fits md m"
    using fits by (cases "g_mode g") (auto simp: g1)
  have "group_core (fst (start_rebalance g1 now)) \<and>
    (\<exists>r md. g_rebalance (fst (start_rebalance g1 now)) = Some r \<and> g_mode (fst (start_rebalance g1 now)) = Some md \<and>
      role_fits md m) \<and> pending_requests (fst (start_rebalance g1 now)) = pending_requests g \<and>
    g_members (fst (start_rebalance g1 now)) = g_members g"
  proof (cases "g_rebalance g")
    case None
    have "group_core (fst (start_rebalance g1 now))"
      by (rule group_coreI) (use None c md same in \<open>auto simp: start_rebalance_def Let_def rebalance_ok_def phase_ok_def\<close>)
    with None md same show ?thesis
      by (simp add: start_rebalance_def Let_def pending_requests_def)
  next
    case (Some r)
    with c(1) have "g_mode g \<noteq> None" by (auto simp: rebalance_ok_def)
    then have "g1 = g" by (simp add: g1)
    with Some md core show ?thesis
      by (simp add: start_rebalance_def)
  qed
  then show "group_core (fst (start_rebalance g1 now))"
    "\<exists>r md. g_rebalance (fst (start_rebalance g1 now)) = Some r \<and> g_mode (fst (start_rebalance g1 now)) = Some md \<and>
      role_fits md m"
    "pending_requests (fst (start_rebalance g1 now)) = pending_requests g"
    "g_members (fst (start_rebalance g1 now)) = g_members g"
    by blast+
qed

lemma enqueue_join_core:
  assumes core: "group_core g" and r: "g_rebalance g = Some r" and md: "g_mode g = Some md"
    and mem: "oget (g_members g) mid = Some m" "role_fits md m"
  shows "group_core (fst (enqueue_join g mid req))"
    and "pending_requests (fst (enqueue_join g mid req)) + answered (snd (enqueue_join g mid req)) =
      add_mset req (pending_requests g)"
proof -
  note c = group_coreD [OF core]
  have rok: "rebalance_ok g r" by (rule c(1) [OF r])
  show "group_core (fst (enqueue_join g mid req))"
  proof (rule group_coreI)
    show "rebalance_ok (fst (enqueue_join g mid req)) q" if "g_rebalance (fst (enqueue_join g mid req)) = Some q" for q
      using that rok md mem ohasD [OF mem(1)] by (auto simp: enqueue_join_def r rebalance_ok_def)
    show "phase_ok (fst (enqueue_join g mid req))"
      using c(4) by (rule phase_ok_cong [THEN iffD2, rotated 3]) (simp_all add: enqueue_join_def r)
  qed (use c in \<open>auto simp: enqueue_join_def r\<close>)
  have put: "mset (ovals (oput mid req w)) + (case oget w mid of Some v \<Rightarrow> {#v#} | None \<Rightarrow> {#}) =
      add_mset req (mset (ovals w))" for w
    using mset_odel_case [of w mid] by (simp add: mset_oput del: mset_map oentries_eval)
  have ans: "answered (case oget (rb_waiters r) mid of Some previous \<Rightarrow> [JoinAnswer previous (join_error Superseded mid)]
      | None \<Rightarrow> []) = (case oget (rb_waiters r) mid of Some v \<Rightarrow> {#v#} | None \<Rightarrow> {#})"
    by (simp split: option.split)
  have "mset (ovals (oput mid req (rb_waiters r))) + mset (ovals (g_sync_waiters g)) +
      (case oget (rb_waiters r) mid of Some v \<Rightarrow> {#v#} | None \<Rightarrow> {#}) =
      add_mset req (mset (ovals (rb_waiters r)) + mset (ovals (g_sync_waiters g)))"
    using put [of "rb_waiters r"] by (metis (no_types, lifting) add.commute add.left_commute add_mset_add_single)
  then show "pending_requests (fst (enqueue_join g mid req)) + answered (snd (enqueue_join g mid req)) =
      add_mset req (pending_requests g)"
    by (simp add: enqueue_join_def r pending_requests_def ans del: mset_map oentries_eval)
qed

lemma stale_not_self: "mid \<notin> set (stale_instances g mid inst)"
  by (auto simp: stale_instances_def split: option.splits)

lemma admit_join_ok:
  assumes ok: "group_ok g" and speaks: "speaks g input" and known: "is_new \<or> ohas (g_members g) mid"
  shows "group_ok (fst (admit_join g req input mid is_new now))"
    and "pending_requests (fst (admit_join g req input mid is_new now)) +
      answered (fst (snd (admit_join g req input mid is_new now))) = add_mset req (pending_requests g)"
proof -
  define h where "h = (if is_new then insert_member g mid input now else g)"
  have core: "group_core h" and hp: "pending_requests h = pending_requests g" and hm: "ohas (g_members h) mid"
    and hs: "g_mode h = g_mode g"
    using ok speaks known by (auto simp: h_def group_ok_def insert_member_core)
  have ne: "g_members h \<noteq> oempty"
    using hm by (auto simp: oempty_iff)
  let ?r = "admit_join g req input mid is_new now"
  have "group_ok (fst ?r) \<and> pending_requests (fst ?r) + answered (fst (snd ?r)) = add_mset req (pending_requests g)"
  proof (cases "is_new \<and> ji_require_known_member_id input")
    case True
    with core ne hp show ?thesis
      by (simp add: admit_join_def Let_def h_def group_ok_def)
  next
    case nr: False
    define ids where "ids = stale_instances h mid (ji_instance_id input)"
    define d where "d = depart_all h ids FencedInstance"
    have dcore: "group_core (fst d)" and dp: "pending_requests (fst d) + answered (snd d) = pending_requests g"
      using depart_all_core [OF core] depart_all_pending [of h ids FencedInstance] hp by (simp_all add: d_def)
    have dm: "oget (g_members (fst d)) mid = oget (g_members h) mid"
      using stale_not_self [of mid h] by (simp add: d_def ids_def depart_all_members)
    obtain m where m: "oget (g_members (fst d)) mid = Some m"
      using hm dm by (auto simp: ohas_def)
    have dmode: "g_mode (fst d) = g_mode g"
      by (simp add: d_def hs)
    show ?thesis
    proof (cases "m_instance_id m = ji_instance_id input")
      case False
      have "g_members (fst d) \<noteq> oempty"
        using m by auto
      with False nr dcore dp m show ?thesis
        by (auto simp: admit_join_def Let_def h_def [symmetric] ids_def [symmetric] d_def [symmetric] case_prod_unfold
          group_ok_def)
    next
      case True
      define k where "k = (if is_new then fst d else insert_member (fst d) mid input now)"
      have sd: "speaks (fst d) input"
        using speaks by (simp add: speaks_def dmode)
      have kcore: "group_core k" and kp: "pending_requests k = pending_requests (fst d)" and kmode: "g_mode k = g_mode g"
        using dcore insert_member_core [OF dcore sd] dmode by (auto simp: k_def)
      have km: "oget (g_members k) mid = Some (member_from_input input now)"
        using dm m by (auto simp: k_def h_def)
      define l where "l = (if g_mode k = None then k\<lparr>g_mode := Some (mode_of (ji_membership input))\<rparr> else k)"
      define st where "st = start_rebalance l now"
      have fits: "case g_mode k of Some md \<Rightarrow> role_fits md (member_from_input input now)
          | None \<Rightarrow> role_fits (mode_of (ji_membership input)) (member_from_input input now)"
        using speaks by (auto simp: speaks_def kmode compatible_fits mode_of_fits split: option.splits)
      note S = start_rebalance_core [OF kcore km fits l_def, of now, folded st_def]
      from S(2) obtain r md where r: "g_rebalance (fst st) = Some r" "g_mode (fst st) = Some md"
        "role_fits md (member_from_input input now)" by blast
      have mem: "oget (g_members (fst st)) mid = Some (member_from_input input now)"
        using km S(4) by simp
      define en where "en = enqueue_join (fst st) mid req"
      note E = enqueue_join_core [OF S(1) r(1,2) mem r(3), of req, folded en_def]
      note T = settle_ok [OF E(1), of now]
      have eq: "?r = (fst (settle (fst en) now), snd d @ snd en @ snd (settle (fst en) now), snd st)"
        using nr True m
        by (auto simp: admit_join_def Let_def h_def [symmetric] ids_def [symmetric] d_def [symmetric] k_def [symmetric]
          l_def [symmetric] st_def [symmetric] en_def [symmetric] case_prod_unfold)
      have "pending_requests (fst (settle (fst en) now)) + (answered (snd d) + (answered (snd en) +
          answered (snd (settle (fst en) now)))) = pending_requests (fst en) + answered (snd en) + answered (snd d)"
        using T(2) by (metis add.assoc add.commute)
      also have "\<dots> = add_mset req (pending_requests g)"
        using E(2) S(3) kp dp by simp
      finally show ?thesis
        using T(1) by (simp add: eq)
    qed
  qed
  then show "group_ok (fst ?r)" "pending_requests (fst ?r) + answered (fst (snd ?r)) = add_mset req (pending_requests g)"
    by blast+
qed

lemma join_ok:
  assumes "group_ok g"
  shows "group_ok (fst (join g req input uuid now))"
    and "pending_requests (fst (join g req input uuid now)) + answered (fst (snd (join g req input uuid now))) =
      add_mset req (pending_requests g)"
proof -
  note E = expire_members_ok [OF assms, of now]
  define e where "e = expire_members g now"
  define h where "h = (fst e)\<lparr>g_last_activity := now\<rparr>"
  have ok: "group_ok h" and hp: "pending_requests h + answered (snd e) = pending_requests g"
    using E by (simp_all add: h_def e_def)
  let ?known = "resolve_member_id h input"
  let ?mid = "if ?known = [] then new_member_id (ji_client_id input) uuid else ?known"
  let ?r = "join g req input uuid now"
  let ?refused = "\<exists>er i. ?r = (h, snd e @ [JoinAnswer req (join_error er i)], None)"
  let ?a = "admit_join h req input ?mid (?known = []) now"
  have "?refused \<or> (speaks h input \<and> (?known = [] \<or> ohas (g_members h) ?mid) \<and>
      ?r = (fst ?a, snd e @ fst (snd ?a), snd (snd ?a)))"
    unfolding join_def speaks_def e_def [symmetric] case_prod_unfold Let_def h_def [symmetric]
    by (auto split: option.splits)
  then consider (refused) er i where "?r = (h, snd e @ [JoinAnswer req (join_error er i)], None)"
    | (admitted) "speaks h input" "?known = [] \<or> ohas (g_members h) ?mid"
        "?r = (fst ?a, snd e @ fst (snd ?a), snd (snd ?a))"
    by blast
  then have "group_ok (fst ?r) \<and> pending_requests (fst ?r) + answered (fst (snd ?r)) = add_mset req (pending_requests g)"
  proof cases
    case refused
    with ok hp show ?thesis by simp
  next
    case admitted
    note s = admitted(1,2) and eq = admitted(3)
    note A = admit_join_ok [OF ok s, of req now]
    have "pending_requests (fst ?a) + (answered (snd e) + answered (fst (snd ?a))) =
        (pending_requests (fst ?a) + answered (fst (snd ?a))) + answered (snd e)"
      by (simp only: ac_simps)
    also have "\<dots> = add_mset req (pending_requests g)"
      unfolding A(2) using hp by simp
    finally show ?thesis
      using A(1) by (simp add: eq)
  qed
  then show "group_ok (fst ?r)" "pending_requests (fst ?r) + answered (fst (snd ?r)) = add_mset req (pending_requests g)"
    by blast+
qed

section \<open>The other operations\<close>

lemma watch_rebalance_ok:
  assumes "group_ok g"
  shows "group_ok (fst (watch_rebalance g rid deadline now))"
    and "pending_requests (fst (watch_rebalance g rid deadline now)) +
      answered (fst (snd (watch_rebalance g rid deadline now))) = pending_requests g"
proof -
  define e where "e = expire_members g now"
  have ok: "group_ok (fst e)" and ep: "pending_requests (fst e) + answered (snd e) = pending_requests g"
    using expire_members_ok [OF assms] by (simp_all add: e_def)
  then have core: "group_core (fst e)" by (simp add: group_ok_def)
  have late: "pending_requests (fst (settle (fst (depart_all (fst e) ids UnknownMember)) now)) + (answered (snd e) +
      (answered (snd (depart_all (fst e) ids UnknownMember)) +
       answered (snd (settle (fst (depart_all (fst e) ids UnknownMember)) now)))) = pending_requests g" for ids
    using depart_settle_ok(2) [OF core, of ids UnknownMember now] ep by (metis add.assoc add.commute)
  show "group_ok (fst (watch_rebalance g rid deadline now))"
    using ok depart_settle_ok(1) [OF core]
    by (simp add: watch_rebalance_def e_def [symmetric] case_prod_unfold Let_def split: option.split)
  show "pending_requests (fst (watch_rebalance g rid deadline now)) +
      answered (fst (snd (watch_rebalance g rid deadline now))) = pending_requests g"
    using ep late
    by (simp add: watch_rebalance_def e_def [symmetric] case_prod_unfold Let_def split: option.split)
qed

lemma assign_bytes_roles [simp]:
  "subscribed (assign_bytes now b m) = subscribed m" "assigned (assign_bytes now b m) = assigned m"
  by (simp_all add: subscribed_def subscription_def assign_bytes_def assigned_def split: role.splits)

lemma role_fits_bytes [simp]: "role_fits md (assign_bytes now b m) = role_fits md m"
  by (simp add: role_fits_def assign_bytes_def split: mode.splits role.splits)

lemma ovmap_ne [simp]: "ovmap f m = oempty \<longleftrightarrow> m = oempty"
  by (metis ohas_ovmap oempty_iff)

lemma distribute_ok:
  assumes ok: "group_ok g" and mode: "g_mode g \<noteq> None" and phase: "g_phase g \<noteq> PreparingRebalance"
    and mem: "ohas (g_members g) mid"
  shows "group_ok (fst (distribute g req mid asg now))"
    and "pending_requests (fst (distribute g req mid asg now)) + answered (snd (distribute g req mid asg now)) =
      add_mset req (pending_requests g)"
proof -
  have core: "group_core g" using ok by (simp add: group_ok_def)
  note c = group_coreD [OF core]
  have nr: "g_rebalance g = None"
    using c(1) phase by (cases "g_rebalance g") (auto simp: rebalance_ok_def)
  have ms: "members_ok (ovmap (\<lambda>i. assign_bytes now (f i)) (g_members g))" for f
    by (rule members_ok_ovmap [OF c(3)]) simp_all
  have "g_members g \<noteq> oempty"
    using mem by (auto simp: oempty_iff)
  then have "group_ok (fst (distribute g req mid asg now))"
    if "\<not> list_ex (\<lambda>i. \<not> ohas (g_members g) i) (okeys asg)"
    using that ms mode nr c(5) by (simp add: distribute_def Let_def group_ok_def group_core_def phase_ok_def)
  with ok show "group_ok (fst (distribute g req mid asg now))"
    by (cases "list_ex (\<lambda>i. \<not> ohas (g_members g) i) (okeys asg)") (simp_all only: distribute_def if_True fst_conv simp_thms)
  show "pending_requests (fst (distribute g req mid asg now)) + answered (snd (distribute g req mid asg now)) =
      add_mset req (pending_requests g)"
    by (simp add: distribute_def Let_def pending_requests_def nr answered_sync_entries del: mset_map)
qed

lemma check_fence_member: "check_fence g f = Inr x \<Longrightarrow> ohas (g_members g) (mf_member_id f)"
  by (auto simp: check_fence_def ohas_def split: option.splits)

lemma park_sync_ok:
  assumes ok: "group_ok g" and mode: "g_mode g = Some (ModeClient t n l)" and phase: "g_phase g \<noteq> PreparingRebalance" "g_phase g \<noteq> GroupStable"
    and mem: "ohas (g_members g) mid"
  shows "group_ok (g\<lparr>g_sync_waiters := oput mid req (g_sync_waiters g)\<rparr>)"
    and "pending_requests (g\<lparr>g_sync_waiters := oput mid req (g_sync_waiters g)\<rparr>) +
      answered (case oget (g_sync_waiters g) mid of Some previous \<Rightarrow> [SyncAnswer previous (Inl Superseded)] | None \<Rightarrow> []) =
      add_mset req (pending_requests g)"
proof -
  have core: "group_core g" using ok by (simp add: group_ok_def)
  note c = group_coreD [OF core]
  have nr: "g_rebalance g = None"
    using c(1) phase by (cases "g_rebalance g") (auto simp: rebalance_ok_def)
  have ph: "g_phase g = CompletingRebalance"
    using c(4) mode phase by (cases "g_phase g") (simp_all add: phase_ok_def)
  show "group_ok (g\<lparr>g_sync_waiters := oput mid req (g_sync_waiters g)\<rparr>)"
    using ok nr ph mode mem c by (auto simp: group_ok_def group_core_def phase_ok_def)
  have "answered (case oget (g_sync_waiters g) mid of Some previous \<Rightarrow> [SyncAnswer previous (Inl Superseded)] | None \<Rightarrow> []) =
      (case oget (g_sync_waiters g) mid of Some v \<Rightarrow> {#v#} | None \<Rightarrow> {#})"
    by (simp split: option.split)
  then show "pending_requests (g\<lparr>g_sync_waiters := oput mid req (g_sync_waiters g)\<rparr>) +
      answered (case oget (g_sync_waiters g) mid of Some previous \<Rightarrow> [SyncAnswer previous (Inl Superseded)] | None \<Rightarrow> []) =
      add_mset req (pending_requests g)"
    using mset_odel_case [of "g_sync_waiters g" mid]
    by (simp add: pending_requests_def nr mset_oput del: mset_map oentries_eval)
qed

lemma sync_ok:
  assumes "group_ok g"
  shows "group_ok (fst (sync g req input now))"
    and "pending_requests (fst (sync g req input now)) + answered (snd (sync g req input now)) =
      add_mset req (pending_requests g)"
proof -
  define e where "e = expire_members g now"
  define f where "f = \<lparr>mf_generation = si_generation input, mf_member_id = si_member_id input,
    mf_instance_id = si_instance_id input\<rparr>"
  let ?asg = "fold (\<lambda>(i, b). oput i b) (si_assignments input) oempty"
  let ?parked = "(fst e)\<lparr>g_sync_waiters := oput (si_member_id input) req (g_sync_waiters (fst e))\<rparr>"
  let ?prev = "case oget (g_sync_waiters (fst e)) (si_member_id input) of
    Some previous \<Rightarrow> [SyncAnswer previous (Inl Superseded)] | None \<Rightarrow> []"
  have ok: "group_ok (fst e)" and ep: "pending_requests (fst e) + answered (snd e) = pending_requests g"
    using expire_members_ok [OF assms] by (simp_all add: e_def)
  let ?dist = "distribute (fst e) req (si_member_id input) ?asg now"
  have eq: "sync g req input now =
    (case check_fence (fst e) f of
       Inl er \<Rightarrow> (fst e, snd e @ [SyncAnswer req (Inl er)])
     | Inr _ \<Rightarrow> (case g_mode (fst e) of
         Some (ModeClient _ _ leader) \<Rightarrow>
           if g_phase (fst e) = PreparingRebalance then (fst e, snd e @ [SyncAnswer req (Inl RebalanceInProgress)])
           else if g_phase (fst e) = GroupStable
           then (fst e, snd e @ [SyncAnswer req (Inr (sync_outcome_of (fst e) (si_member_id input)))])
           else if si_member_id input = leader then (fst ?dist, snd e @ snd ?dist)
           else (?parked, snd e @ ?prev)
       | _ \<Rightarrow> (fst e, snd e @ [SyncAnswer req (Inl InvalidRequest)])))"
    by (simp only: sync_def e_def [symmetric] case_prod_unfold Let_def f_def [symmetric])
  let ?goal = "\<lambda>r. group_ok (fst r) \<and> pending_requests (fst r) + answered (snd r) = add_mset req (pending_requests g)"
  have direct: "?goal (fst e, snd e @ [SyncAnswer req r])" for r
    using ok ep by simp
  have leads: "?goal (fst ?dist, snd e @ snd ?dist)"
    if m: "g_mode (fst e) \<noteq> None" "g_phase (fst e) \<noteq> PreparingRebalance" "check_fence (fst e) f = Inr x" for x
  proof -
    from check_fence_member [OF m(3)] have mem: "ohas (g_members (fst e)) (si_member_id input)"
      by (simp add: f_def)
    note D = distribute_ok [OF ok m(1,2) mem, of req ?asg now]
    have "pending_requests (fst ?dist) + (answered (snd e) + answered (snd ?dist)) =
        (pending_requests (fst ?dist) + answered (snd ?dist)) + answered (snd e)"
      by (simp only: ac_simps)
    also have "\<dots> = add_mset req (pending_requests g)"
      unfolding D(2) using ep by simp
    finally show ?thesis
      using D(1) by simp
  qed
  have parks: "?goal (?parked, snd e @ ?prev)"
    if m: "g_mode (fst e) = Some (ModeClient t n l)" "g_phase (fst e) \<noteq> PreparingRebalance" "g_phase (fst e) \<noteq> GroupStable"
      "check_fence (fst e) f = Inr x" for t n l x
  proof -
    from check_fence_member [OF m(4)] have mem: "ohas (g_members (fst e)) (si_member_id input)"
      by (simp add: f_def)
    note D = park_sync_ok [OF ok m(1,2,3) mem, of req]
    have "pending_requests ?parked + (answered (snd e) + answered ?prev) =
        (pending_requests ?parked + answered ?prev) + answered (snd e)"
      by (simp only: ac_simps)
    also have "\<dots> = add_mset req (pending_requests g)"
      unfolding D(2) using ep by simp
    finally show ?thesis
      using D(1) by simp
  qed
  have "?goal (sync g req input now)"
  proof (cases "check_fence (fst e) f")
    case (Inl er)
    then show ?thesis
      unfolding eq by (simp only: sum.case direct)
  next
    case (Inr x)
    show ?thesis
    proof (cases "\<exists>t n l. g_mode (fst e) = Some (ModeClient t n l)")
      case False
      then have "sync g req input now = (fst e, snd e @ [SyncAnswer req (Inl InvalidRequest)])"
        unfolding eq Inr by (auto split: option.split mode.split)
      then show ?thesis by (simp only: direct)
    next
      case True
      then obtain t n l where m: "g_mode (fst e) = Some (ModeClient t n l)" by blast
      consider "g_phase (fst e) = PreparingRebalance" | "g_phase (fst e) = GroupStable"
        | (rest) "g_phase (fst e) \<noteq> PreparingRebalance" "g_phase (fst e) \<noteq> GroupStable" by blast
      then show ?thesis
      proof cases
        case rest
        have "g_mode (fst e) \<noteq> None" using m by simp
        from leads [OF this rest(1) Inr] parks [OF m rest Inr] rest m Inr show ?thesis
          unfolding eq by (simp only: sum.case option.case mode.case if_False split: if_split) blast
      qed (unfold eq, simp_all only: Inr m sum.case option.case mode.case if_True if_False direct simp_thms group_state.distinct)
    qed
  qed
  then show "group_ok (fst (sync g req input now))"
    "pending_requests (fst (sync g req input now)) + answered (snd (sync g req input now)) = add_mset req (pending_requests g)"
    by blast+
qed

lemma heartbeat_ok:
  assumes "group_ok g"
  shows "group_ok (fst (heartbeat g f now))"
    and "pending_requests (fst (heartbeat g f now)) + answered (fst (snd (heartbeat g f now))) = pending_requests g"
proof -
  define e where "e = expire_members g now"
  have ok: "group_ok (fst e)" and ep: "pending_requests (fst e) + answered (snd e) = pending_requests g"
    using expire_members_ok [OF assms] by (simp_all add: e_def)
  let ?touch = "\<lambda>i m. if i = mf_member_id f then m\<lparr>m_last_heartbeat := now\<rparr> else m"
  let ?t = "(fst e)\<lparr>g_members := ovmap ?touch (g_members (fst e))\<rparr>"
  have role: "m_role (?touch i m) = m_role m" for i m by simp
  have core: "group_core (fst e)" using ok by (simp add: group_ok_def)
  have "group_core ?t"
  proof (rule group_coreI)
    show "rebalance_ok ?t r" if "g_rebalance ?t = Some r" for r
    proof -
      have fits: "role_fits md (?touch i m) = role_fits md m" for md i m
        by (simp add: role_fits_def split: mode.split)
      have r: "rebalance_ok (fst e) r"
        using group_coreD(1) [OF core, of r] that by simp
      then obtain md where md: "g_mode (fst e) = Some md"
        "\<And>i m. ohas (rb_joined r) i \<Longrightarrow> oget (g_members (fst e)) i = Some m \<Longrightarrow> role_fits md m"
        by (auto simp: rebalance_ok_def)
      have "role_fits md m" if "ohas (rb_joined r) i" "oget (g_members ?t) i = Some m" for i m
      proof -
        from that(2) obtain m' where m': "oget (g_members (fst e)) i = Some m'" "m = ?touch i m'" by auto
        show ?thesis
          unfolding m'(2) fits by (rule md(2) [OF that(1) m'(1)])
      qed
      with r md(1) show ?thesis
        by (simp add: rebalance_ok_def)
    qed
    show "members_ok (g_members ?t)"
      using group_coreD(3) [OF core]
      by (auto intro!: members_ok_ovmap simp: assigned_def subscribed_def subscription_def)
    show "phase_ok ?t"
      using group_coreD(4) [OF core] by (rule phase_ok_cong [THEN iffD2, rotated 3]) simp_all
  qed (use group_coreD [OF core] in simp_all)
  with ok have tok: "group_ok ?t" by (simp add: group_ok_def)
  have tp: "pending_requests ?t = pending_requests (fst e)" by simp
  show "group_ok (fst (heartbeat g f now))"
    using ok tok by (simp add: heartbeat_def e_def [symmetric] case_prod_unfold Let_def split: sum.split)
  show "pending_requests (fst (heartbeat g f now)) + answered (fst (snd (heartbeat g f now))) = pending_requests g"
    using ep tp by (simp add: heartbeat_def e_def [symmetric] case_prod_unfold Let_def split: sum.split)
qed

lemma leave_each_core:
  "group_core g \<Longrightarrow> group_core (fst (leave_each g ms)) \<and>
    pending_requests (fst (leave_each g ms)) + answered (fst (snd (leave_each g ms))) = pending_requests g \<and>
    (Inr () \<notin> set (snd (snd (leave_each g ms))) \<longrightarrow> fst (leave_each g ms) = g)"
proof (induction ms arbitrary: g)
  case (Cons x ms)
  obtain mid inst where x: "x = (mid, inst)" by (cases x)
  show ?case
  proof (cases "oget (g_members g) mid")
    case None
    with Cons.IH [OF Cons.prems] show ?thesis by (simp add: x case_prod_unfold Let_def)
  next
    case (Some m)
    show ?thesis
    proof (cases "m_instance_id m = inst")
      case False
      with Some Cons.IH [OF Cons.prems] show ?thesis by (simp add: x case_prod_unfold Let_def)
    next
      case True
      from Some True Cons.IH [OF depart_core [OF Cons.prems], of mid UnknownMember] depart_pending [of g mid UnknownMember]
      show ?thesis
        by (simp add: x case_prod_unfold Let_def ac_simps)
    qed
  qed
qed simp

lemma leave_ok:
  assumes "group_ok g"
  shows "group_ok (fst (leave g ms now))"
    and "pending_requests (fst (leave g ms now)) + answered (fst (snd (leave g ms now))) = pending_requests g"
proof -
  define e where "e = expire_members g now"
  define h where "h = (fst e)\<lparr>g_last_activity := now\<rparr>"
  define l where "l = leave_each h ms"
  have ok: "group_ok h" and hp: "pending_requests h + answered (snd e) = pending_requests g"
    using expire_members_ok [OF assms] by (simp_all add: e_def h_def)
  then have "group_core h" by (simp add: group_ok_def)
  from leave_each_core [OF this, of ms] have core: "group_core (fst l)"
    and lp: "pending_requests (fst l) + answered (fst (snd l)) = pending_requests h"
    and same: "Inr () \<notin> set (snd (snd l)) \<longrightarrow> fst l = h"
    by (simp_all add: l_def)
  note S = settle_ok [OF core, of now]
  have eq: "leave g ms now = (if Inr () \<in> set (snd (snd l))
      then (fst (settle (fst l) now), snd e @ fst (snd l) @ snd (settle (fst l) now), snd (snd l))
      else (fst l, snd e @ fst (snd l), snd (snd l)))"
    by (simp add: leave_def e_def [symmetric] h_def [symmetric] l_def [symmetric] case_prod_unfold Let_def)
  have late: "pending_requests (fst (settle (fst l) now)) + (answered (snd e) + (answered (fst (snd l)) +
      answered (snd (settle (fst l) now)))) = pending_requests g"
    using S(2) lp hp by (metis add.assoc add.commute)
  have early: "pending_requests (fst l) + (answered (snd e) + answered (fst (snd l))) = pending_requests g"
    using lp hp by (metis add.assoc add.commute)
  show "group_ok (fst (leave g ms now))"
    using S(1) same ok by (simp add: eq)
  show "pending_requests (fst (leave g ms now)) + answered (fst (snd (leave g ms now))) = pending_requests g"
    using late early by (simp add: eq)
qed

text \<open>Offsets are no part of the membership.\<close>

lemma recorded_frame [simp]:
  "group_ok (fst (recorded g log io)) \<longleftrightarrow> group_ok g" "pending_requests (fst (recorded g log io)) = pending_requests g"
  by (simp_all add: recorded_def snapshot_and_trim_def Let_def)

lemma commit_offsets_ok:
  assumes "group_ok g"
  shows "group_ok (fst (commit_offsets g log fence cs io now))"
    and "pending_requests (fst (commit_offsets g log fence cs io now)) +
      answered (fst (snd (snd (commit_offsets g log fence cs io now)))) = pending_requests g"
  using expire_members_ok [OF assms, of now]
  by (simp_all add: commit_offsets_def case_prod_unfold Let_def record_append_def split: sum.split option.split)

lemma delete_offsets_ok:
  assumes "group_ok g"
  shows "group_ok (fst (delete_offsets g log ps io now))"
    and "pending_requests (fst (delete_offsets g log ps io now)) = pending_requests g"
  using assms
  by (simp_all add: delete_offsets_def case_prod_unfold Let_def record_append_def split: sum.split option.split)

lemma loaded_ok: "group_ok (loaded epoch offsets n now)" "pending_requests (loaded epoch offsets n now) = {#}"
proof -
  have "members_ok oempty" by (rule members_okI) simp_all
  then show "group_ok (loaded epoch offsets n now)" "pending_requests (loaded epoch offsets n now) = {#}"
    by (simp_all add: loaded_def group_ok_def group_core_def phase_ok_def pending_requests_def)
qed

lemma unload_pending: "answered (snd (unload g)) = pending_requests g"
  by (cases "g_rebalance g")
    (simp_all add: unload_def answer_syncs_def pending_requests_def Let_def answered_joins answered_syncs del: mset_map)

section \<open>Runs\<close>

datatype group_op =
    DoJoin nat join_input string nat
  | DoWatch u64 nat nat
  | DoSync nat sync_input nat
  | DoAssignment member_fence nat
  | DoHeartbeat member_fence nat
  | DoLeave "(string \<times> string option) list" nat
  | DoCommit "member_fence option" "offset_commit list" log_io nat
  | DoDeleteOffsets "partition list" log_io nat
  | DoFetch "partition list option" nat
  | DoDescribe nat
  | DoDelete nat
  | DoReload i64 nat

text \<open>The group with its log; a reload that cannot read the log leaves both as they are.\<close>

fun group_exec :: "group_op \<Rightarrow> group \<times> bytes list \<Rightarrow> (group \<times> bytes list) \<times> answer list" where
  "group_exec (DoJoin req input uuid now) (g, log) = (let (g, a, _) = join g req input uuid now in ((g, log), a))"
| "group_exec (DoWatch rid deadline now) (g, log) = (let (g, a, _) = watch_rebalance g rid deadline now in ((g, log), a))"
| "group_exec (DoSync req input now) (g, log) = (let (g, a) = sync g req input now in ((g, log), a))"
| "group_exec (DoAssignment f now) (g, log) = (let (g, a, _) = assignment g f now in ((g, log), a))"
| "group_exec (DoHeartbeat f now) (g, log) = (let (g, a, _) = heartbeat g f now in ((g, log), a))"
| "group_exec (DoLeave ms now) (g, log) = (let (g, a, _) = leave g ms now in ((g, log), a))"
| "group_exec (DoCommit f cs io now) (g, log) = (let (g, log, a, _) = commit_offsets g log f cs io now in ((g, log), a))"
| "group_exec (DoDeleteOffsets ps io now) (g, log) = (let (g, log, _) = delete_offsets g log ps io now in ((g, log), []))"
| "group_exec (DoFetch ps now) (g, log) = (let (g, _) = fetch_offsets g ps now in ((g, log), []))"
| "group_exec (DoDescribe now) (g, log) = (let (g, a) = expire_members g now in ((g, log), a))"
| "group_exec (DoDelete now) (g, log) = (let (g, a, _) = delete_group g now in ((g, log), a))"
| "group_exec (DoReload epoch now) (g, log) =
    (case reload_group g epoch log now of Inl _ \<Rightarrow> ((g, log), []) | Inr (g, a) \<Rightarrow> ((g, log), a))"

fun requests_of :: "group_op \<Rightarrow> nat multiset" where
  "requests_of (DoJoin req _ _ _) = {#req#}"
| "requests_of (DoSync req _ _) = {#req#}"
| "requests_of _ = {#}"

lemma group_exec_ok:
  assumes "group_ok g"
  shows "group_ok (fst (fst (group_exec x (g, log)))) \<and>
    pending_requests (fst (fst (group_exec x (g, log)))) + answered (snd (group_exec x (g, log))) =
      pending_requests g + requests_of x"
proof (cases x)
  case (DoReload epoch now)
  show ?thesis
    using assms loaded_ok unload_pending [of g]
    by (simp add: DoReload reload_group_def case_prod_unfold Let_def split: sum.split)
qed (use assms join_ok [OF assms] watch_rebalance_ok [OF assms] sync_ok [OF assms] heartbeat_ok [OF assms]
    leave_ok [OF assms] commit_offsets_ok [OF assms] delete_offsets_ok [OF assms] expire_members_ok [OF assms] in
    \<open>simp_all add: case_prod_unfold Let_def assignment_def fetch_offsets_def delete_group_def\<close>)

fun group_run :: "group_op list \<Rightarrow> group \<times> bytes list \<Rightarrow> (group \<times> bytes list) \<times> answer list" where
  "group_run [] s = (s, [])"
| "group_run (x # xs) s = (let (s, a) = group_exec x s; (s, b) = group_run xs s in (s, a @ b))"

lemma group_run_ok:
  "group_ok (fst s) \<Longrightarrow> group_ok (fst (fst (group_run xs s))) \<and>
    pending_requests (fst (fst (group_run xs s))) + answered (snd (group_run xs s)) =
      pending_requests (fst s) + sum_list (map requests_of xs)"
proof (induction xs arbitrary: s)
  case (Cons x xs)
  obtain g log where s: "s = (g, log)" by (cases s)
  have e: "group_ok (fst (fst (group_exec x s)))"
    "pending_requests (fst (fst (group_exec x s))) + answered (snd (group_exec x s)) = pending_requests (fst s) + requests_of x"
    using group_exec_ok [of g x log] Cons.prems by (simp_all add: s)
  from Cons.IH [OF e(1)] e(2) show ?case
    by (simp add: case_prod_unfold Let_def) (metis (no_types, lifting) add.assoc add.commute)
qed simp

end
