(* ===== verification/Grp_Watch.thy ===== *)
theory Grp_Watch
  imports Grp_Steps
begin

text \<open>
  The task that watches a rebalance, \<^verbatim>\<open>watch_rebalance\<close> of \<^verbatim>\<open>group/mod.rs\<close>: before the
  deadline it sleeps until a later instant not beyond the deadline, and at the deadline no request is left
  waiting in the rebalance.
\<close>

section \<open>Sync waiters are not added\<close>

abbreviation sync_requests :: "group \<Rightarrow> nat multiset" where
  "sync_requests g \<equiv> mset (ovals (g_sync_waiters g))"

lemma mset_odel_sub: "mset (ovals (odel k m)) \<subseteq># mset (ovals m)"
  by (cases "oget m k") (auto simp: mset_odel om.del_absent simp del: mset_map oentries_eval)

lemma syncs_depart_all: "sync_requests (fst (depart_all g ids e)) \<subseteq># sync_requests g"
proof (induction ids arbitrary: g)
  case (Cons i ids)
  from Cons [of "fst (depart g i e)"] mset_odel_sub [of i "g_sync_waiters g"] show ?case
    by (simp add: case_prod_unfold Let_def del: mset_map oentries_eval)
qed simp

lemma syncs_complete:
  "g_rebalance g \<noteq> None \<Longrightarrow> g_sync_waiters (fst (complete_rebalance g now)) = oempty"
  by (auto simp: complete_rebalance_def complete_subscribed_def complete_client_def reset_empty_def case_prod_unfold Let_def
    split: option.split mode.split)

lemma syncs_settle: "sync_requests (fst (settle g now)) \<subseteq># sync_requests g"
  by (auto simp: settle_def Let_def syncs_complete reset_empty_def simp del: mset_map split: option.split)

lemma syncs_depart_settle: "sync_requests (fst (settle (fst (depart_all g ids e)) now)) \<subseteq># sync_requests g"
  by (rule subset_mset.order_trans [OF syncs_settle syncs_depart_all])

lemma syncs_expire: "sync_requests (fst (expire_members g now)) \<subseteq># sync_requests g"
  using syncs_depart_settle by (simp add: expire_members_def Let_def case_prod_unfold del: mset_map)

lemma syncs_watch: "sync_requests (fst (watch_rebalance g rid deadline now)) \<subseteq># sync_requests g"
  using syncs_expire [of g now] subset_mset.order_trans [OF syncs_depart_settle syncs_expire]
  by (simp add: watch_rebalance_def Let_def case_prod_unfold del: mset_map split: option.split)

section \<open>At the deadline\<close>

lemma depart_all_rebalance:
  "g_rebalance (fst (depart_all g ids e)) = map_option (\<lambda>r. r\<lparr>rb_expected := fold odel ids (rb_expected r),
     rb_joined := fold odel ids (rb_joined r), rb_waiters := fold odel ids (rb_waiters r)\<rparr>) (g_rebalance g)"
  by (induction ids arbitrary: g) (simp_all add: case_prod_unfold Let_def option.map_comp comp_def option.map_ident)

lemma ohas_fold_odel: "ohas (fold odel ids m) k \<longleftrightarrow> k \<notin> set ids \<and> ohas m k"
  by (induction ids arbitrary: m) auto

lemma settle_no_waiters:
  assumes core: "group_core g" and r: "g_rebalance g = Some r" and all: "rb_joined r = rb_expected r"
    and s: "g_rebalance (fst (settle g now)) = Some r'"
  shows "rb_waiters r' = oempty"
proof -
  have ne: "g_members g \<noteq> oempty"
    using s by (auto simp: settle_def reset_empty_def)
  have nr: "\<not> rebalance_ready r"
  proof
    assume "rebalance_ready r"
    then have "g_rebalance (fst (settle g now)) = None"
      using ne r core complete_rebalance_ok(3) [of "sweep g" r now] by (simp add: settle_def Let_def)
    with s show False by simp
  qed
  with s ne r have "r' = r" by (simp add: settle_def Let_def)
  moreover have "rb_joined r = oempty"
    using nr all by (simp add: rebalance_ready_def)
  ultimately show ?thesis
    using group_coreD(1) [OF core r] by (auto simp: rebalance_ok_def oempty_iff)
qed

lemma settle_id:
  assumes "group_core g" and "g_rebalance (fst (settle g now)) = Some r'"
  obtains r where "g_rebalance g = Some r" and "r' = r" and "g_members (fst (settle g now)) = g_members g"
proof -
  have ne: "g_members g \<noteq> oempty"
    using assms(2) by (auto simp: settle_def reset_empty_def)
  show ?thesis
  proof (cases "g_rebalance g")
    case None
    with assms(2) ne show ?thesis by (simp add: settle_def Let_def split: if_splits)
  next
    case (Some r)
    have "\<not> rebalance_ready r"
    proof
      assume "rebalance_ready r"
      then have "g_rebalance (fst (settle g now)) = None"
        using ne Some assms(1) complete_rebalance_ok(3) [of "sweep g" r now] by (simp add: settle_def Let_def)
      with assms(2) show False by simp
    qed
    with assms(2) ne Some have "r' = r" "g_members (fst (settle g now)) = g_members g" by (simp_all add: settle_def Let_def)
    with Some that show ?thesis by blast
  qed
qed

lemma expire_id:
  assumes "group_ok g" and "g_rebalance (fst (expire_members g now)) = Some r'"
  obtains r where "g_rebalance g = Some r" and "rb_id r' = rb_id r"
    and "\<And>i m. oget (g_members (fst (expire_members g now))) i = Some m \<Longrightarrow> now < m_last_heartbeat m + m_session_timeout m"
proof -
  let ?old = "map fst (filter (\<lambda>(_, m). now - m_last_heartbeat m \<ge> m_session_timeout m) (oentries (g_members g)))"
  have core: "group_core g" using assms(1) by (simp add: group_ok_def)
  have young: "now < m_last_heartbeat m + m_session_timeout m" if "i \<notin> set ?old" "oget (g_members g) i = Some m" for i m
  proof -
    have "(i, m) \<in> set (oentries (g_members g))" using that(2) by (simp add: om.in_entries_iff)
    with that(1) have "\<not> now - m_last_heartbeat m \<ge> m_session_timeout m" by force
    then show ?thesis by linarith
  qed
  show ?thesis
  proof (cases "?old = []")
    case True
    then have e: "fst (expire_members g now) = g" by (simp add: expire_members_def Let_def)
    show ?thesis
    proof (rule that [of r'])
      show "g_rebalance g = Some r'" using assms(2) by (simp add: e)
      show "now < m_last_heartbeat m + m_session_timeout m" if "oget (g_members (fst (expire_members g now))) i = Some m" for i m
        by (rule young [of i]) (use True that e in auto)
    qed simp
  next
    case False
    let ?d = "fst (depart_all g ?old UnknownMember)"
    have e: "fst (expire_members g now) = fst (settle ?d now)"
      using False by (simp add: expire_members_def Let_def case_prod_unfold)
    obtain r where r: "g_rebalance ?d = Some r" "r' = r" "g_members (fst (settle ?d now)) = g_members ?d"
      by (rule settle_id [OF depart_all_core [OF core] assms(2) [unfolded e]]) blast
    from r(1) obtain r0 where r0: "g_rebalance g = Some r0" "rb_id r = rb_id r0"
      by (auto simp: depart_all_rebalance)
    show ?thesis
    proof (rule that [OF r0(1)])
      show "rb_id r' = rb_id r0" using r(2) r0(2) by simp
      show "now < m_last_heartbeat m + m_session_timeout m" if "oget (g_members (fst (expire_members g now))) i = Some m" for i m
        using that young unfolding e r(3) depart_all_members by (simp split: if_splits)
    qed
  qed
qed

lemma watch_at_deadline:
  assumes ok: "group_ok g" and due: "deadline \<le> now" and r: "g_rebalance g = Some r" "rb_id r = rid"
    and after: "g_rebalance (fst (watch_rebalance g rid deadline now)) = Some r'"
  shows "rb_waiters r' = oempty"
proof -
  define e where "e = expire_members g now"
  have eok: "group_ok (fst e)" using expire_members_ok [OF ok] by (simp add: e_def)
  show ?thesis
  proof (cases "g_rebalance (fst e)")
    case None
    with after show ?thesis by (simp add: watch_rebalance_def e_def [symmetric] case_prod_unfold)
  next
    case (Some q)
    have "rb_id q = rid"
      by (rule expire_id [OF ok Some [unfolded e_def]]) (use r in simp)
    let ?missing = "odifference (rb_expected q) (rb_joined q)"
    let ?d = "fst (depart_all (fst e) ?missing UnknownMember)"
    let ?q = "q\<lparr>rb_expected := fold odel ?missing (rb_expected q), rb_joined := fold odel ?missing (rb_joined q),
      rb_waiters := fold odel ?missing (rb_waiters q)\<rparr>"
    have w: "fst (watch_rebalance g rid deadline now) = fst (settle ?d now)"
      using Some due \<open>rb_id q = rid\<close> by (simp add: watch_rebalance_def e_def [symmetric] case_prod_unfold Let_def)
    have core: "group_core (fst e)" using eok by (simp add: group_ok_def)
    have d: "g_rebalance ?d = Some ?q"
      using Some by (simp add: depart_all_rebalance)
    have "rb_joined ?q = rb_expected ?q"
      by (rule oset_eqI) (use group_coreD(1) [OF core Some] in \<open>auto simp: ohas_fold_odel rebalance_ok_def\<close>)
    from settle_no_waiters [OF depart_all_core [OF core] d this] after show ?thesis
      unfolding w by blast
  qed
qed

lemma fold_min_bounds:
  fixes b :: "'a::linorder"
  shows "fold min xs b \<le> b" and "x < b \<Longrightarrow> (\<And>y. y \<in> set xs \<Longrightarrow> x < y) \<Longrightarrow> x < fold min xs b"
proof -
  show "fold min xs b \<le> b"
  proof (induction xs arbitrary: b)
    case (Cons y xs)
    from order_trans [OF Cons [of "min y b"]] show ?case by simp
  qed simp
  show "x < fold min xs b" if "x < b" "\<And>y. y \<in> set xs \<Longrightarrow> x < y"
    using that by (induction xs arbitrary: b) simp_all
qed

lemma watch_wakes:
  assumes ok: "group_ok g" and w: "snd (snd (watch_rebalance g rid deadline now)) = Some t"
  shows "now < t" and "t \<le> deadline"
proof -
  define e where "e = expire_members g now"
  from w obtain q where q: "g_rebalance (fst e) = Some q"
    by (auto simp: watch_rebalance_def e_def [symmetric] case_prod_unfold split: option.splits)
  let ?wakes = "List.map_filter (\<lambda>mid. map_option (\<lambda>m. m_last_heartbeat m + m_session_timeout m)
    (oget (g_members (fst e)) mid)) (odifference (rb_expected q) (rb_joined q))"
  have t: "t = fold min ?wakes deadline" "now < deadline"
    using w q by (auto simp: watch_rebalance_def e_def [symmetric] case_prod_unfold Let_def split: if_splits)
  have "now < m_last_heartbeat m + m_session_timeout m" if "oget (g_members (fst e)) i = Some m" for i m
    by (rule expire_id [OF ok q [unfolded e_def]]) (use that in \<open>simp add: e_def\<close>)
  then have "now < y" if "y \<in> set ?wakes" for y
    using that by (auto simp: List.map_filter_def)
  with t fold_min_bounds(2) [of now deadline ?wakes] show "now < t" by simp
  show "t \<le> deadline" using t fold_min_bounds(1) by simp
qed

end
