(* ===== verification/Grp_Caps.thy ===== *)
theory Grp_Caps
  imports Grp_Steps
begin

text \<open>
  The capacity limits of a group: members, distinct stream names, subscription entries and committed
  partitions stay within their constants, whatever operations run.
\<close>

section \<open>Sizes\<close>

lemma osize_mset: "osize m = size (mset (ovals m))"
  by simp

lemma osize_odel_le: "osize (odel k m) \<le> osize m"
  by (simp add: al_del_def)

lemma osize_oput_le: "osize (oput k v m) \<le> Suc (osize m)"
  using osize_odel_le [of k m] mset_oput [of k v m] by (simp only: osize_mset size_add_mset Suc_le_mono)

lemma osize_oput_has: "ohas m k \<Longrightarrow> osize (oput k v m) = osize m"
  using mset_oput [of k v m] mset_odel [of m k] by (elim ohasE) (simp only: osize_mset size_add_mset)

lemma osize_oretain_le: "osize (oretain P m) \<le> osize m"
  by simp

lemma osize_ovmap [simp]: "osize (ovmap f m) = osize m"
  by simp

lemma fold_odel_le: "osize (fold odel ks m) \<le> osize m"
  by (induction ks arbitrary: m) (auto intro: order_trans [OF _ osize_odel_le] simp del: oentries_eval)

lemma finite_keys: "finite {k. ohas m k}"
proof -
  have "{k. ohas m k} = set (okeys m)" using okeys_iff by blast
  then show ?thesis by simp
qed

lemma osize_card: "osize m = card {k. ohas m k}"
proof -
  have "{k. ohas m k} = set (okeys m)" using okeys_iff by blast
  moreover have "card (set (okeys m)) = length (okeys m)"
    using om.distinct_entries distinct_card by blast
  ultimately show ?thesis by simp
qed

lemma fold_insert_osize:
  "osize (fold (\<lambda>x. oput (key x) (val x)) xs m) \<le> osize m + osize (ofrom (map key (filter (\<lambda>x. \<not> ohas m (key x)) xs)))"
proof -
  have has: "ohas (fold (\<lambda>x. oput (key x) (val x)) xs m) k \<longleftrightarrow> ohas m k \<or> k \<in> key ` set xs" for k m
    by (induction xs arbitrary: m) auto
  have "{k. ohas (fold (\<lambda>x. oput (key x) (val x)) xs m) k} \<subseteq>
      {k. ohas m k} \<union> {k. ohas (ofrom (map key (filter (\<lambda>x. \<not> ohas m (key x)) xs))) k}"
    by (auto simp: has)
  then have "card {k. ohas (fold (\<lambda>x. oput (key x) (val x)) xs m) k} \<le>
      card ({k. ohas m k} \<union> {k. ohas (ofrom (map key (filter (\<lambda>x. \<not> ohas m (key x)) xs))) k})"
    by (intro card_mono finite_UnI finite_keys)
  also have "\<dots> \<le> card {k. ohas m k} + card {k. ohas (ofrom (map key (filter (\<lambda>x. \<not> ohas m (key x)) xs))) k}"
    by (rule card_Un_le)
  finally show ?thesis
    unfolding osize_card .
qed

section \<open>Limits\<close>

definition entries_of :: "(string, member) omap \<Rightarrow> nat" where
  "entries_of ms = (\<Sum>m \<leftarrow> ovals ms. length (subscribed m))"

text \<open>
  \<open>lim\<close> says whether the offset table is bounded: what a reload reads may hold records of commits that
  failed and landed, which no capacity check has counted.
\<close>

definition caps_ok :: "bool \<Rightarrow> group \<Rightarrow> bool" where
  "caps_ok lim g \<longleftrightarrow> osize (g_members g) \<le> max_members_per_group \<and> osize (g_names g) \<le> max_streams_per_group \<and>
    entries_of (g_members g) \<le> max_subscription_entries \<and> (lim \<longrightarrow> osize (g_offsets g) \<le> max_partitions_per_group)"

lemma subscription_entries_alt: "subscription_entries g = entries_of (g_members g)"
  by (simp add: subscription_entries_def entries_of_def)

lemma entries_mset: "entries_of ms = (\<Sum>m \<in># mset (ovals ms). length (subscribed m))"
  by (metis entries_of_def mset_map sum_mset_sum_list)

lemma entries_odel: "entries_of (odel k ms) + (case oget ms k of Some m \<Rightarrow> length (subscribed m) | None \<Rightarrow> 0) = entries_of ms"
  using mset_odel [of ms k] by (cases "oget ms k") (simp_all add: entries_mset om.del_absent del: mset_map oentries_eval)

lemma entries_oput:
  "entries_of (oput k m ms) = entries_of ms - (case oget ms k of Some m \<Rightarrow> length (subscribed m) | None \<Rightarrow> 0) + length (subscribed m)"
  using entries_odel [of k ms] by (simp add: entries_mset mset_oput del: mset_map oentries_eval)

lemma entries_ovmap: "(\<And>i m. subscribed (f i m) = subscribed m) \<Longrightarrow> entries_of (ovmap f ms) = entries_of ms"
  by (simp add: entries_of_def comp_def case_prod_unfold)

lemma osize_fold_set: "osize (fold (\<lambda>n. oput n ()) ns names) \<le> osize names + osize (ofrom (filter (\<lambda>n. \<not> ohas names n) ns))"
  using fold_insert_osize [of "\<lambda>n. n" "\<lambda>_. ()" ns names] by simp

lemma subscribed_input:
  "length (subscribed (member_from_input input now)) \<le> (case ji_membership input of Subscribed ns \<Rightarrow> length ns | Client _ _ \<Rightarrow> 0)"
proof (cases "ji_membership input")
  case (Subscribed ns)
  have "osize (ofrom ns) \<le> length ns"
    unfolding osize_card ohas_ofrom by (simp add: card_length)
  with Subscribed show ?thesis
    by (simp add: subscribed_def subscription_def member_from_input_def)
qed (simp add: subscribed_def subscription_def member_from_input_def)

section \<open>Operations\<close>

lemma caps_frame [simp]:
  "caps_ok lim (g\<lparr>g_phase := p\<rparr>) = caps_ok lim g" "caps_ok lim (g\<lparr>g_mode := mo\<rparr>) = caps_ok lim g"
  "caps_ok lim (g\<lparr>g_last_activity := t\<rparr>) = caps_ok lim g" "caps_ok lim (g\<lparr>g_rebalance := r\<rparr>) = caps_ok lim g"
  "caps_ok lim (g\<lparr>g_sync_waiters := w\<rparr>) = caps_ok lim g" "caps_ok lim (g\<lparr>g_generation := n\<rparr>) = caps_ok lim g"
  "caps_ok lim (g\<lparr>g_appends_since_snapshot := x\<rparr>) = caps_ok lim g" "caps_ok lim (g\<lparr>g_next_rebalance_id := y\<rparr>) = caps_ok lim g"
  by (simp_all add: caps_ok_def)

lemma caps_sweep: "caps_ok lim g \<Longrightarrow> caps_ok lim (sweep g)"
  using osize_oretain_le [of _ "g_names g"] by (auto simp: caps_ok_def sweep_def simp del: oentries_oretain intro: order_trans)

lemma caps_members:
  "caps_ok lim g \<Longrightarrow> osize ms \<le> osize (g_members g) \<Longrightarrow> entries_of ms \<le> entries_of (g_members g) \<Longrightarrow> caps_ok lim (g\<lparr>g_members := ms\<rparr>)"
  by (simp add: caps_ok_def)

lemma caps_ovmap:
  "caps_ok lim g \<Longrightarrow> (\<And>i m. subscribed (f i m) = subscribed m) \<Longrightarrow> caps_ok lim (g\<lparr>g_members := ovmap f (g_members g)\<rparr>)"
  by (rule caps_members) (simp_all add: entries_ovmap)

lemma caps_answer_syncs: "caps_ok lim g \<Longrightarrow> caps_ok lim (fst (answer_syncs g e))"
  by (simp add: answer_syncs_def)

lemma caps_reset: "caps_ok lim g \<Longrightarrow> caps_ok lim (reset_empty g)"
  by (simp add: reset_empty_def caps_sweep)

lemma caps_depart:
  assumes "caps_ok lim g"
  shows "caps_ok lim (fst (depart g mid e))"
proof -
  have "entries_of (odel mid (g_members g)) \<le> entries_of (g_members g)"
    using entries_odel [of mid "g_members g"] by linarith
  with assms caps_members [OF assms osize_odel_le, of mid] show ?thesis
    by (simp add: depart_def Let_def caps_ok_def del: oentries_eval)
qed

lemma caps_depart_all: "caps_ok lim g \<Longrightarrow> caps_ok lim (fst (depart_all g ids e))"
  by (induction ids arbitrary: g) (simp_all add: case_prod_unfold Let_def caps_depart)

lemma caps_complete_client:
  assumes "caps_ok lim g"
  shows "caps_ok lim (fst (complete_client g r t l now))"
proof -
  have "caps_ok lim (g\<lparr>g_members := oempty\<rparr>)"
    using assms by (intro caps_members) (simp_all add: entries_of_def)
  moreover have "caps_ok lim (g\<lparr>g_mode := mo, g_phase := p, g_members := ovmap (\<lambda>_. clear_assignment now) (g_members g)\<rparr>)" for mo p
    using caps_ovmap [of lim "g\<lparr>g_mode := mo, g_phase := p\<rparr>" "\<lambda>_. clear_assignment now"] assms by simp
  ultimately show ?thesis
    by (simp add: complete_client_def Let_def caps_reset split: option.split)
qed

lemma caps_complete_subscribed:
  assumes "caps_ok lim g"
  shows "caps_ok lim (fst (complete_subscribed g r now))"
proof -
  let ?f = "\<lambda>mid m. set_assignment now (case oget (assign (g_members g)) mid of Some l \<Rightarrow> l | None \<Rightarrow> []) m"
  have "caps_ok lim (g\<lparr>g_phase := GroupStable, g_members := ovmap ?f (g_members g)\<rparr>)"
    using caps_ovmap [of lim "g\<lparr>g_phase := GroupStable\<rparr>" ?f] assms by simp
  then show ?thesis
    by (simp add: complete_subscribed_def Let_def caps_sweep)
qed

lemma caps_complete:
  assumes "caps_ok lim g"
  shows "caps_ok lim (fst (complete_rebalance g now))"
proof (cases "g_rebalance g")
  case (Some r)
  have "caps_ok lim (fst (answer_syncs (g\<lparr>g_rebalance := None, g_generation := max (g_generation g + 1) 1\<rparr>) RebalanceInProgress))"
    using assms by (intro caps_answer_syncs) simp
  with Some show ?thesis
    by (simp add: complete_rebalance_def case_prod_unfold Let_def caps_complete_subscribed caps_complete_client
      split: option.split mode.split)
qed (use assms in \<open>simp add: complete_rebalance_def\<close>)

lemma caps_settle: "caps_ok lim g \<Longrightarrow> caps_ok lim (fst (settle g now))"
  by (simp add: settle_def Let_def caps_reset caps_sweep caps_complete caps_answer_syncs split: option.split)

lemma caps_expire: "caps_ok lim g \<Longrightarrow> caps_ok lim (fst (expire_members g now))"
  by (simp add: expire_members_def Let_def case_prod_unfold caps_settle caps_depart_all)

lemma caps_insert:
  assumes caps: "caps_ok lim g" and room: "ohas (g_members g) mid \<or> osize (g_members g) < max_members_per_group"
    and fits: "\<not> over_capacity g mid (ji_membership input)"
  shows "caps_ok lim (insert_member g mid input now)"
proof -
  let ?m = "member_from_input input now"
  have members: "osize (oput mid ?m (g_members g)) \<le> max_members_per_group"
  proof (cases "ohas (g_members g) mid")
    case True
    with caps osize_oput_has [OF True, of ?m] show ?thesis by (simp only: caps_ok_def)
  next
    case False
    with room osize_oput_le [of mid ?m "g_members g"] show ?thesis by simp
  qed
  have names: "osize (intern_all (ji_membership input) (g_names g)) \<le> max_streams_per_group"
  proof (cases "ji_membership input")
    case (Subscribed ns)
    with fits have "osize (g_names g) + osize (ofrom (filter (\<lambda>n. \<not> ohas (g_names g) n) ns)) \<le> max_streams_per_group"
      by (simp add: over_capacity_def Let_def del: oentries_eval)
    with Subscribed osize_fold_set [of ns "g_names g"] show ?thesis
      by (simp add: intern_all_def)
  qed (use caps in \<open>simp add: intern_all_def caps_ok_def\<close>)
  have entries: "entries_of (oput mid ?m (g_members g)) \<le> max_subscription_entries"
  proof (cases "ji_membership input")
    case (Subscribed ns)
    with fits have "entries_of (g_members g) - (case oget (g_members g) mid of Some m \<Rightarrow> length (subscribed m) | None \<Rightarrow> 0) +
        length ns \<le> max_subscription_entries"
      by (simp add: over_capacity_def Let_def subscription_entries_alt)
    with Subscribed subscribed_input [of input now] show ?thesis
      by (simp add: entries_oput)
  next
    case (Client t ps)
    with subscribed_input [of input now] caps show ?thesis
      by (simp add: entries_oput caps_ok_def le_diff_conv trans_le_add1)
  qed
  from members names entries caps show ?thesis
    by (simp add: caps_ok_def insert_member_def)
qed

lemma entries_depart_all:
  "entries_of (g_members (fst (depart_all g ids e))) \<le> entries_of (g_members g)"
proof (induction ids arbitrary: g)
  case (Cons i ids)
  have "entries_of (odel i (g_members g)) \<le> entries_of (g_members g)"
    using entries_odel [of i "g_members g"] by linarith
  with Cons [of "fst (depart g i e)"] show ?case
    by (simp add: case_prod_unfold Let_def)
qed simp

lemma names_depart_all [simp]: "g_names (fst (depart_all g ids e)) = g_names g"
  by (induction ids arbitrary: g) (simp_all add: case_prod_unfold Let_def depart_def)

lemma over_capacity_depart:
  assumes "\<not> over_capacity g mid ms" and "mid \<notin> set ids"
  shows "\<not> over_capacity (fst (depart_all g ids e)) mid ms"
proof (cases ms)
  case (Subscribed ns)
  let ?prev = "case oget (g_members g) mid of Some m \<Rightarrow> length (subscribed m) | None \<Rightarrow> 0"
  have "entries_of (g_members (fst (depart_all g ids e))) - ?prev + length ns \<le> entries_of (g_members g) - ?prev + length ns"
    using entries_depart_all [of g ids e] by simp
  with assms Subscribed show ?thesis
    by (simp add: over_capacity_def Let_def subscription_entries_alt depart_all_members del: oentries_eval)
qed (simp add: over_capacity_def)

lemma caps_start: "caps_ok lim g \<Longrightarrow> caps_ok lim (fst (start_rebalance g now))"
  by (simp add: start_rebalance_def Let_def split: option.split)

lemma caps_enqueue: "caps_ok lim g \<Longrightarrow> caps_ok lim (fst (enqueue_join g mid req))"
  by (simp add: enqueue_join_def split: option.split)

lemma caps_admit:
  assumes caps: "caps_ok lim g" and room: "ohas (g_members g) mid \<or> osize (g_members g) < max_members_per_group"
    and known: "is_new \<or> ohas (g_members g) mid" and fits: "\<not> over_capacity g mid (ji_membership input)"
  shows "caps_ok lim (fst (admit_join g req input mid is_new now))"
proof -
  define h where "h = (if is_new then insert_member g mid input now else g)"
  have h: "caps_ok lim h"
    using caps caps_insert [OF caps room fits] by (simp add: h_def)
  define ids where "ids = stale_instances h mid (ji_instance_id input)"
  define d where "d = depart_all h ids FencedInstance"
  have d: "caps_ok lim (fst d)"
    unfolding d_def by (rule caps_depart_all [OF h])
  have k: "caps_ok lim (insert_member (fst d) mid input now)" if "\<not> is_new"
  proof -
    have hg: "h = g" using that by (simp add: h_def)
    have mem: "ohas (g_members (fst d)) mid"
      using known that stale_not_self [of mid h]
      by (simp add: d_def ids_def ohas_def depart_all_members hg)
    have "\<not> over_capacity (fst d) mid (ji_membership input)"
      unfolding d_def hg by (rule over_capacity_depart [OF fits]) (simp add: ids_def stale_not_self)
    with caps_insert [OF d] mem show ?thesis by blast
  qed
  from h d k show ?thesis
    unfolding admit_join_def h_def [symmetric]
    by (simp add: Let_def ids_def [symmetric] d_def [symmetric] case_prod_unfold caps_settle caps_enqueue caps_start
      split: option.split)
qed

lemma caps_join:
  assumes "caps_ok lim g"
  shows "caps_ok lim (fst (join g req input uuid now))"
proof -
  define e where "e = expire_members g now"
  define h where "h = (fst e)\<lparr>g_last_activity := now\<rparr>"
  have h: "caps_ok lim h"
    using caps_expire [OF assms] by (simp add: h_def e_def)
  let ?known = "resolve_member_id h input"
  let ?mid = "if ?known = [] then new_member_id (ji_client_id input) uuid else ?known"
  let ?a = "admit_join h req input ?mid (?known = []) now"
  have "caps_ok lim (fst ?a)"
    if "\<not> (?known = [] \<and> osize (g_members h) \<ge> max_members_per_group)" "\<not> (?known \<noteq> [] \<and> \<not> ohas (g_members h) ?mid)"
      "\<not> over_capacity h ?mid (ji_membership input)"
    by (rule caps_admit [OF h]) (use that in auto)
  with h show ?thesis
    unfolding join_def e_def [symmetric] case_prod_unfold Let_def h_def [symmetric] by (auto split: option.splits)
qed

lemma caps_watch: "caps_ok lim g \<Longrightarrow> caps_ok lim (fst (watch_rebalance g rid deadline now))"
  by (simp add: watch_rebalance_def case_prod_unfold Let_def caps_expire caps_settle caps_depart_all split: option.split)

lemma caps_sync:
  assumes "caps_ok lim g"
  shows "caps_ok lim (fst (sync g req input now))"
proof -
  have d: "caps_ok lim (fst (distribute h req mid asg now))" if "caps_ok lim h" for h mid asg
  proof -
    have "caps_ok lim (h\<lparr>g_members := ovmap (\<lambda>i. assign_bytes now (f i)) (g_members h)\<rparr>)" for f
      by (rule caps_ovmap [OF that]) simp
    with that show ?thesis by (simp add: distribute_def Let_def)
  qed
  from caps_expire [OF assms, of now] d show ?thesis
    by (simp add: sync_def case_prod_unfold Let_def split: sum.split option.split mode.split)
qed

lemma caps_heartbeat:
  assumes "caps_ok lim g"
  shows "caps_ok lim (fst (heartbeat g f now))"
proof -
  have "caps_ok lim (h\<lparr>g_members := ovmap (\<lambda>i m. if i = mid then m\<lparr>m_last_heartbeat := now\<rparr> else m) (g_members h)\<rparr>)"
    if "caps_ok lim h" for h mid
    by (rule caps_ovmap [OF that]) (simp add: subscribed_def subscription_def)
  with caps_expire [OF assms, of now] show ?thesis
    by (simp add: heartbeat_def case_prod_unfold Let_def split: sum.split)
qed

lemma caps_leave_each: "caps_ok lim g \<Longrightarrow> caps_ok lim (fst (leave_each g ms))"
  by (induction ms arbitrary: g) (auto simp: case_prod_unfold Let_def caps_depart split: option.split)

lemma caps_leave:
  assumes "caps_ok lim g"
  shows "caps_ok lim (fst (leave g ms now))"
proof -
  have "caps_ok lim (fst (leave_each ((fst (expire_members g now))\<lparr>g_last_activity := now\<rparr>) ms))"
    using caps_expire [OF assms] by (intro caps_leave_each) simp
  then show ?thesis
    by (simp add: leave_def case_prod_unfold Let_def caps_settle)
qed

lemma caps_offsets: "caps_ok lim g \<Longrightarrow> lim \<longrightarrow> osize t \<le> max_partitions_per_group \<Longrightarrow> caps_ok lim (g\<lparr>g_offsets := t\<rparr>)"
  by (simp add: caps_ok_def)

lemma caps_recorded:
  assumes "caps_ok lim g"
  shows "caps_ok lim (fst (recorded g log io))"
proof -
  have one: "caps_ok lim (g\<lparr>g_offsets := oretain P (g_offsets g)\<rparr>)" for P
    using assms osize_oretain_le [of P "g_offsets g"] by (intro caps_offsets) (auto simp: caps_ok_def simp del: oentries_oretain)
  then have "caps_ok lim (g\<lparr>g_appends_since_snapshot := x, g_offsets := oretain P (g_offsets g)\<rparr>)" for P x
    by (simp add: caps_ok_def)
  with assms one show ?thesis
    by (simp add: recorded_def snapshot_and_trim_def Let_def)
qed

lemma caps_commit:
  assumes "caps_ok lim g"
  shows "caps_ok lim (fst (commit_offsets g log fence cs io now))"
proof -
  define h where "h = (fst (expire_members g now))\<lparr>g_last_activity := now\<rparr>"
  have h: "caps_ok lim h"
    using caps_expire [OF assms] by (simp add: h_def)
  have "caps_ok lim (fst (recorded (h\<lparr>g_offsets := fold (\<lambda>c. oput (oc_partition c) (oc_value c)) cs (g_offsets h)\<rparr>) log' io))"
    if "osize (g_offsets h) + osize (ofrom (map oc_partition (filter (\<lambda>c. \<not> ohas (g_offsets h) (oc_partition c)) cs)))
      \<le> max_partitions_per_group" for log'
    using fold_insert_osize [of oc_partition oc_value cs "g_offsets h"] that
    by (intro caps_recorded caps_offsets [OF h]) linarith
  with h show ?thesis
    unfolding commit_offsets_def case_prod_unfold Let_def h_def [symmetric]
    by (auto simp: record_append_def not_less split: sum.splits option.splits)
qed

lemma caps_delete_offsets:
  assumes "caps_ok lim g"
  shows "caps_ok lim (fst (delete_offsets g log ps io now))"
proof -
  have "caps_ok lim (fst (recorded (g\<lparr>g_last_activity := now, g_offsets := fold odel ks (g_offsets g)\<rparr>) log' io))" for ks log'
    using fold_odel_le [of ks "g_offsets g"] assms
    by (intro caps_recorded caps_offsets) (auto simp: caps_ok_def)
  with assms show ?thesis
    by (simp add: delete_offsets_def case_prod_unfold Let_def record_append_def split: sum.split option.split)
qed

lemma caps_loaded: "caps_ok False (loaded epoch offsets n now)"
  by (simp add: caps_ok_def loaded_def entries_of_def)

fun is_reload :: "group_op \<Rightarrow> bool" where
  "is_reload (DoReload _ _) = True"
| "is_reload _ = False"

lemma caps_exec:
  assumes caps: "caps_ok lim g" and reload: "lim \<Longrightarrow> \<not> is_reload x"
  shows "caps_ok lim (fst (fst (group_exec x (g, log))))"
proof (cases x)
  case (DoReload epoch now)
  with reload have "\<not> lim" by auto
  with caps caps_loaded show ?thesis
    by (simp add: DoReload reload_group_def case_prod_unfold Let_def split: sum.split)
qed (use caps caps_join caps_watch caps_sync caps_heartbeat caps_leave caps_commit caps_delete_offsets caps_expire in
    \<open>simp_all add: case_prod_unfold Let_def assignment_def fetch_offsets_def delete_group_def\<close>)

lemma caps_run:
  "caps_ok lim (fst s) \<Longrightarrow> (lim \<longrightarrow> \<not> list_ex is_reload xs) \<Longrightarrow> caps_ok lim (fst (fst (group_run xs s)))"
proof (induction xs arbitrary: s)
  case (Cons x xs)
  obtain g log where s: "s = (g, log)" by (cases s)
  have "caps_ok lim (fst (fst (group_exec x s)))"
    using caps_exec [of lim g x log] Cons.prems by (auto simp: s)
  from Cons.IH [OF this] Cons.prems(2) show ?case
    by (simp add: case_prod_unfold Let_def)
qed simp

end
