(* ===== verification/Grp_Log.thy ===== *)
theory Grp_Log
  imports Grp_Caps
begin

text \<open>
  The offset table of a group and the log it is rebuilt from. An append that fails may still have reached
  the log, and a snapshot that fails comes after vanished topics have been dropped from the table: until the
  next acknowledged record or snapshot, such partitions are in doubt. On every other partition the table and
  a replay of the log agree.
\<close>

section \<open>Replay\<close>

lemma replay_snoc:
  "replay_offsets (log @ [r]) t0 =
    rbind (replay_offsets log t0) (\<lambda>(t, n). rbind (decode_into r t) (\<lambda>t. Inr (t, Suc n)))"
  by (induction log arbitrary: t0) (simp_all add: rbind_def split: sum.splits prod.splits)

definition table_ok :: "offset_table \<Rightarrow> bool" where
  "table_ok t \<longleftrightarrow> (\<forall>p v. oget t p = Some v \<longrightarrow> entry_ok (p, v))"

lemma table_ok_entries: "table_ok t \<Longrightarrow> list_all entry_ok (oentries t)"
  by (auto simp: table_ok_def list_all_iff om.in_entries_iff)

lemma table_ok_simps [simp]: "table_ok oempty" "table_ok t \<Longrightarrow> table_ok (odel p t)"
  "table_ok t \<Longrightarrow> table_ok (oretain P t)" "table_ok t \<Longrightarrow> entry_ok (p, v) \<Longrightarrow> table_ok (oput p v t)"
  by (auto simp: table_ok_def oget_oretain split: if_splits option.splits)

lemma table_ok_commits: "table_ok t \<Longrightarrow> list_all commit_ok cs \<Longrightarrow> table_ok (fold (\<lambda>c. oput (oc_partition c) (oc_value c)) cs t)"
  by (induction cs arbitrary: t) (simp_all add: commit_ok_def)

lemma table_ok_deletes: "table_ok t \<Longrightarrow> table_ok (fold odel ps t)"
  by (induction ps arbitrary: t) simp_all

text \<open>What a replay reads is fit to be written again.\<close>

lemma unat_byte_mod: "unat (x :: u8) mod 256 = unat x"
  by (rule mod_less) (use unsigned_less [of x] in simp)

lemma str_bytes_inv: "str_bytes (bytes_str bs) = bs" "length (bytes_str bs) = length bs"
  by (simp_all add: str_bytes_def bytes_str_def comp_def unat_byte_mod)

lemma take_string_ok:
  "take_string bs = Inr (s, rest) \<Longrightarrow> utf8 (str_bytes s) \<and> length s \<le> max_string_bytes"
  by (auto simp: take_string_def gbind_def rbind_def str_bytes_inv split: sum.splits if_splits)

lemma take_metadata_ok:
  "take_metadata bs = Inr (Some s, rest) \<Longrightarrow> utf8 (str_bytes s) \<and> length s \<le> max_string_bytes"
  by (auto simp: take_metadata_def gsimps gbind_def rbind_def split: sum.splits if_splits dest: take_string_ok)

lemma take_entry_ok: "take_entry bs = Inr (e, rest) \<Longrightarrow> entry_ok e"
  by (auto simp: take_entry_def take_partition_def take_id_def get_raw_def entry_ok_def committed_ok_def gsimps gbind_def rbind_def
    split: sum.splits if_splits) (use take_metadata_ok in blast)+

lemma get_loop_inv:
  "get_loop n body s bs = Inr (s', rest) \<Longrightarrow> P s \<Longrightarrow>
    (\<And>s bs s' rest. P s \<Longrightarrow> body s bs = Inr (s', rest) \<Longrightarrow> P s') \<Longrightarrow> P s'"
proof (induction n arbitrary: s bs)
  case (Suc n)
  then obtain s1 r1 where b: "body s bs = Inr (s1, r1)" "get_loop n body s1 r1 = Inr (s', rest)"
    by (auto simp: gbind_def rbind_def split: sum.splits)
  show ?case
    by (rule Suc.IH [OF b(2) Suc.prems(3) [OF Suc.prems(2) b(1)] Suc.prems(3)])
qed (simp add: gsimps)

lemma decode_into_ok:
  assumes "decode_into r t = Inr t'" and "table_ok t"
  shows "table_ok t'"
proof -
  have put: "table_ok s'" if "get_loop n (\<lambda>t. gbind take_entry (\<lambda>e. gret (oput (fst e) (snd e) t))) s bs = Inr (s', rest)" "table_ok s"
    for n s bs s' rest
    using that by (rule get_loop_inv [where P = table_ok]) (auto simp: gbind_def rbind_def gsimps split: sum.splits dest: take_entry_ok)
  have del: "table_ok s'" if "get_loop n (\<lambda>t. gbind take_partition (\<lambda>p. gret (odel p t))) s bs = Inr (s', rest)" "table_ok s"
    for n s bs s' rest
    using that by (rule get_loop_inv [where P = table_ok]) (auto simp: gbind_def rbind_def gsimps split: sum.splits)
  show ?thesis
    using assms by (auto simp: decode_into_def at_end_def gbind_def rbind_def gfail_def split: sum.splits if_splits prod.splits
      intro: put del)
qed

lemma replay_ok: "replay_offsets log t0 = Inr (t, n) \<Longrightarrow> table_ok t0 \<Longrightarrow> table_ok t"
  by (induction log arbitrary: t0 n) (auto simp: rbind_def split: sum.splits prod.splits dest: decode_into_ok)

section \<open>Agreement\<close>

definition agrees :: "partition set \<Rightarrow> offset_table \<Rightarrow> bytes list \<Rightarrow> bool" where
  "agrees D t log \<longleftrightarrow> table_ok t \<and>
    (\<exists>t' n. replay_offsets log oempty = Inr (t', n) \<and> (\<forall>p. p \<notin> D \<longrightarrow> oget t' p = oget t p))"

lemma agreesI: "table_ok t \<Longrightarrow> replay_offsets log oempty = Inr (t', n) \<Longrightarrow> (\<And>p. p \<notin> D \<Longrightarrow> oget t' p = oget t p) \<Longrightarrow>
    agrees D t log"
  by (auto simp: agrees_def)

lemma agrees_mono: "agrees D t log \<Longrightarrow> D \<subseteq> E \<Longrightarrow> agrees E t log"
  by (auto simp: agrees_def)

lemma fold_put_get:
  "p \<notin> oc_partition ` set cs \<Longrightarrow> oget (fold (\<lambda>c. oput (oc_partition c) (oc_value c)) cs t) p = oget t p"
  by (induction cs arbitrary: t) auto

lemma fold_put_same:
  "p \<in> oc_partition ` set cs \<or> oget t p = oget u p \<Longrightarrow>
    oget (fold (\<lambda>c. oput (oc_partition c) (oc_value c)) cs t) p = oget (fold (\<lambda>c. oput (oc_partition c) (oc_value c)) cs u) p"
  by (induction cs arbitrary: t u) auto

lemma fold_del_get: "oget (fold odel ps t) p = (if p \<in> set ps then None else oget t p)"
  by (induction ps arbitrary: t) auto

text \<open>A record changes the replayed table by a function that leaves the partitions it does not name alone.\<close>

definition changes :: "bytes \<Rightarrow> partition set \<Rightarrow> (offset_table \<Rightarrow> offset_table) \<Rightarrow> bool" where
  "changes r ps f \<longleftrightarrow> (\<forall>t. decode_into r t = Inr (f t)) \<and> (\<forall>t p. p \<notin> ps \<longrightarrow> oget (f t) p = oget t p) \<and>
    (\<forall>t u p. p \<in> ps \<longrightarrow> oget (f t) p = oget (f u) p) \<and> (\<forall>t. table_ok t \<longrightarrow> table_ok (f t))"

lemma changes_commits:
  "list_all commit_ok cs \<Longrightarrow> length cs \<le> unat max_entries_per_record \<Longrightarrow>
    changes (encode_commits cs) (oc_partition ` set cs) (fold (\<lambda>c. oput (oc_partition c) (oc_value c)) cs)"
  unfolding changes_def by (intro conjI allI impI decode_commits fold_put_get fold_put_same table_ok_commits) auto

lemma changes_deletes:
  "\<forall>p \<in> set ps. length (fst p) = 16 \<Longrightarrow> length ps \<le> unat max_entries_per_record \<Longrightarrow>
    changes (encode_deletes ps) (set ps) (fold odel ps)"
  unfolding changes_def by (intro conjI allI impI decode_deletes table_ok_deletes) (simp_all add: fold_del_get)

lemma agrees_acked:
  assumes "agrees D t log" and c: "changes r ps f"
  shows "agrees (D - ps) (f t) (log @ [r])"
proof -
  from assms(1) obtain t' n where t: "table_ok t" "replay_offsets log oempty = Inr (t', n)"
    "\<And>p. p \<notin> D \<Longrightarrow> oget t' p = oget t p" by (auto simp: agrees_def)
  show ?thesis
  proof (rule agreesI)
    show "replay_offsets (log @ [r]) oempty = Inr (f t', Suc n)"
      using t(2) c by (simp add: replay_snoc rbind_def changes_def)
    show "oget (f t') p = oget (f t) p" if "p \<notin> D - ps" for p
      using that t(3) [of p] c unfolding changes_def by (metis DiffI)
    show "table_ok (f t)"
      using t(1) c by (simp add: changes_def)
  qed
qed

lemma agrees_landed:
  assumes "agrees D t log" and c: "changes r ps f"
  shows "agrees (D \<union> ps) t (log @ [r])"
proof -
  from assms(1) obtain t' n where t: "table_ok t" "replay_offsets log oempty = Inr (t', n)"
    "\<And>p. p \<notin> D \<Longrightarrow> oget t' p = oget t p" by (auto simp: agrees_def)
  show ?thesis
  proof (rule agreesI [OF t(1)])
    show "replay_offsets (log @ [r]) oempty = Inr (f t', Suc n)"
      using t(2) c by (simp add: replay_snoc rbind_def changes_def)
    show "oget (f t') p = oget t p" if "p \<notin> D \<union> ps" for p
      using that t(3) [of p] c unfolding changes_def by (metis UnI1 UnI2)
  qed
qed

lemma agrees_snapshot:
  assumes "agrees D t log" and "osize t \<le> max_partitions_per_group"
  shows "agrees {} t (log @ [encode_snapshot t])" and "agrees {} t [encode_snapshot t]"
proof -
  have ok: "table_ok t" using assms(1) by (simp add: agrees_def)
  have d: "decode_into (encode_snapshot t) u = Inr t" for u
    by (rule decode_snapshot_record [OF table_ok_entries [OF ok]])
      (use assms(2) in \<open>simp add: max_partitions_per_group_def max_entries_per_record_def\<close>)
  from assms(1) obtain t' n where "replay_offsets log oempty = Inr (t', n)" by (auto simp: agrees_def)
  then have "replay_offsets (log @ [encode_snapshot t]) oempty = Inr (t, Suc n)"
    by (simp add: replay_snoc rbind_def d)
  then show "agrees {} t (log @ [encode_snapshot t])" by (rule agreesI [OF ok]) simp
  have "replay_offsets [encode_snapshot t] oempty = Inr (t, Suc 0)"
    by (simp add: rbind_def d)
  then show "agrees {} t [encode_snapshot t]" by (rule agreesI [OF ok]) simp
qed

text \<open>The partitions in doubt after a record has been acknowledged and the counter has been moved on.\<close>

definition doubt_recorded :: "group \<Rightarrow> log_io \<Rightarrow> partition set \<Rightarrow> partition set" where
  "doubt_recorded g io D =
    (if g_appends_since_snapshot g + 1 \<ge> offset_snapshot_interval then
       (if io_snapshot io then {} else D \<union> set (filter (\<lambda>p. \<not> io_exists io (fst p)) (okeys (g_offsets g))))
     else D)"

lemma agrees_recorded:
  assumes ag: "agrees D (g_offsets g) log" and size: "osize (g_offsets g) \<le> max_partitions_per_group"
  shows "agrees (doubt_recorded g io D) (g_offsets (fst (recorded g log io))) (snd (recorded g log io))"
proof (cases "g_appends_since_snapshot g + 1 \<ge> offset_snapshot_interval")
  case True
  let ?t = "oretain (\<lambda>p _. io_exists io (fst p)) (g_offsets g)"
  let ?gone = "set (filter (\<lambda>p. \<not> io_exists io (fst p)) (okeys (g_offsets g)))"
  have gone: "oget (g_offsets g) p = oget ?t p" if "p \<notin> ?gone" for p
    using that okeys_iff [of p "g_offsets g"]
    by (cases "oget (g_offsets g) p") (auto simp: oget_oretain ohas_def)
  from ag obtain t' n where t: "table_ok (g_offsets g)" "replay_offsets log oempty = Inr (t', n)"
    "\<And>p. p \<notin> D \<Longrightarrow> oget t' p = oget (g_offsets g) p" by (auto simp: agrees_def)
  have dropped: "agrees (D \<union> ?gone) ?t log"
    by (rule agreesI [OF _ t(2)]) (use t gone in auto)
  have small: "osize ?t \<le> max_partitions_per_group"
    using size osize_oretain_le [of _ "g_offsets g"] le_trans by blast
  from agrees_snapshot [OF dropped small] dropped True show ?thesis
    by (simp add: recorded_def snapshot_and_trim_def Let_def doubt_recorded_def del: oentries_oretain)
qed (use ag in \<open>simp add: recorded_def doubt_recorded_def Let_def\<close>)

section \<open>Runs\<close>

definition doubt_written :: "group \<Rightarrow> bytes list \<Rightarrow> bytes list \<Rightarrow> log_io \<Rightarrow> group_error + unit \<Rightarrow> partition list
    \<Rightarrow> offset_table \<Rightarrow> partition set \<Rightarrow> partition set" where
  "doubt_written g log log' io res ps t D =
    (case res of
       Inl _ \<Rightarrow> if log' = log then D else D \<union> set ps
     | Inr _ \<Rightarrow> if ps = [] then D else doubt_recorded (g\<lparr>g_offsets := t\<rparr>) io (D - set ps))"

fun in_doubt :: "group_op \<Rightarrow> group \<times> bytes list \<Rightarrow> partition set \<Rightarrow> partition set" where
  "in_doubt (DoCommit f cs io now) (g, log) D =
    (case commit_offsets g log f cs io now of (_, log', _, res) \<Rightarrow>
       doubt_written g log log' io res (map oc_partition cs)
         (fold (\<lambda>c. oput (oc_partition c) (oc_value c)) cs (g_offsets g)) D)"
| "in_doubt (DoDeleteOffsets ps io now) (g, log) D =
    (case delete_offsets g log ps io now of (_, log', res) \<Rightarrow>
       (let ps = filter (ohas (g_offsets g)) ps
        in doubt_written g log log' io res ps (fold odel ps (g_offsets g)) D))"
| "in_doubt _ _ D = D"

fun run_doubt :: "group_op list \<Rightarrow> group \<times> bytes list \<Rightarrow> partition set \<Rightarrow> partition set" where
  "run_doubt [] s D = D"
| "run_doubt (x # xs) s D = run_doubt xs (fst (group_exec x s)) (in_doubt x s D)"

fun op_ok :: "group_op \<Rightarrow> bool" where
  "op_ok (DoCommit _ cs _ _) \<longleftrightarrow> list_all commit_ok cs \<and> length cs \<le> unat max_entries_per_record"
| "op_ok (DoDeleteOffsets ps _ _) \<longleftrightarrow> length ps \<le> unat max_entries_per_record"
| "op_ok (DoReload _ _) \<longleftrightarrow> False"
| "op_ok _ \<longleftrightarrow> True"

text \<open>Nothing but a commit, a delete or a reload touches the table or its counter.\<close>

definition same_table :: "group \<Rightarrow> group \<Rightarrow> bool" where
  "same_table h g \<longleftrightarrow> g_offsets h = g_offsets g \<and> g_appends_since_snapshot h = g_appends_since_snapshot g"

lemma same_frame [simp]:
  "same_table g g" "same_table (h\<lparr>g_members := ms\<rparr>) g = same_table h g" "same_table (h\<lparr>g_phase := ph\<rparr>) g = same_table h g"
  "same_table (h\<lparr>g_mode := md\<rparr>) g = same_table h g" "same_table (h\<lparr>g_rebalance := r\<rparr>) g = same_table h g"
  "same_table (h\<lparr>g_sync_waiters := w\<rparr>) g = same_table h g" "same_table (h\<lparr>g_names := ns\<rparr>) g = same_table h g"
  "same_table (h\<lparr>g_generation := n\<rparr>) g = same_table h g" "same_table (h\<lparr>g_next_rebalance_id := y\<rparr>) g = same_table h g"
  "same_table (h\<lparr>g_last_activity := t\<rparr>) g = same_table h g"
  by (simp_all add: same_table_def)

lemma same_sweep [simp]: "same_table (sweep h) g = same_table h g"
  by (simp add: sweep_def)

lemma same_reset [simp]: "same_table (reset_empty h) g = same_table h g"
  by (simp add: reset_empty_def)

lemma same_answer_syncs [simp]: "same_table (fst (answer_syncs h e)) g = same_table h g"
  by (simp add: answer_syncs_def)

lemma same_depart_all [simp]: "same_table (fst (depart_all h ids e)) g = same_table h g"
  by (induction ids arbitrary: h) (simp_all add: case_prod_unfold Let_def depart_def)

lemma same_complete: "same_table h g \<Longrightarrow> same_table (fst (complete_rebalance h now)) g"
  by (simp add: complete_rebalance_def complete_subscribed_def complete_client_def case_prod_unfold Let_def
    split: option.split mode.split)

lemma same_settle: "same_table h g \<Longrightarrow> same_table (fst (settle h now)) g"
  by (simp add: settle_def Let_def same_complete split: option.split)

lemma same_expire: "same_table (fst (expire_members g now)) g"
  by (simp add: expire_members_def Let_def case_prod_unfold same_settle)

lemma same_start: "same_table h g \<Longrightarrow> same_table (fst (start_rebalance h now)) g"
  by (simp add: start_rebalance_def Let_def split: option.split)

lemma same_enqueue: "same_table h g \<Longrightarrow> same_table (fst (enqueue_join h mid req)) g"
  by (simp add: enqueue_join_def split: option.split)

lemma same_insert [simp]: "same_table (insert_member h mid input now) g = same_table h g"
  by (simp add: insert_member_def)

lemma same_admit: "same_table h g \<Longrightarrow> same_table (fst (admit_join h req input mid is_new now)) g"
  by (simp add: admit_join_def Let_def case_prod_unfold same_settle same_enqueue same_start split: option.split)

lemma same_join: "same_table (fst (join g req input uuid now)) g"
  using same_expire [of g now] by (simp add: join_def Let_def case_prod_unfold same_admit split: option.split)

lemma same_watch: "same_table (fst (watch_rebalance g rid deadline now)) g"
  using same_expire [of g now] by (simp add: watch_rebalance_def Let_def case_prod_unfold same_settle split: option.split)

lemma same_sync: "same_table (fst (sync g req input now)) g"
  using same_expire [of g now]
  by (simp add: sync_def distribute_def Let_def case_prod_unfold split: sum.split option.split mode.split)

lemma same_heartbeat: "same_table (fst (heartbeat g f now)) g"
  using same_expire [of g now] by (simp add: heartbeat_def Let_def case_prod_unfold split: sum.split)

lemma same_leave_each: "same_table h g \<Longrightarrow> same_table (fst (leave_each h ms)) g"
proof (induction ms arbitrary: h)
  case (Cons x ms)
  have "same_table (fst (depart h i e)) g" for i e
    using Cons.prems by (simp add: depart_def Let_def)
  with Cons show ?case by (cases x) (simp add: case_prod_unfold Let_def split: option.split)
qed simp

lemma same_leave: "same_table (fst (leave g ms now)) g"
  using same_expire [of g now] by (simp add: leave_def Let_def case_prod_unfold same_settle same_leave_each)

lemma agrees_written:
  assumes ag: "agrees D (g_offsets g) log" and c: "changes r (set ps) f" and ps: "ps \<noteq> []"
    and same: "g_offsets h = f (g_offsets g)" "g_appends_since_snapshot h = g_appends_since_snapshot g"
    and size: "osize (g_offsets h) \<le> max_partitions_per_group" and io: "io_error io = None"
  shows "agrees (doubt_written g log log' io (Inr ()) ps (f (g_offsets g)) D)
    (g_offsets (fst (recorded h (log @ [r]) io))) (snd (recorded h (log @ [r]) io))"
proof -
  have "doubt_recorded (g\<lparr>g_offsets := f (g_offsets g)\<rparr>) io E = doubt_recorded h io E" for E
    using same by (simp add: doubt_recorded_def)
  moreover have "agrees (D - set ps) (g_offsets h) (log @ [r])"
    unfolding same(1) by (rule agrees_acked [OF ag c])
  ultimately show ?thesis
    using agrees_recorded [of "D - set ps" h "log @ [r]" io] size ps by (simp add: doubt_written_def)
qed

lemma agrees_commit:
  assumes caps: "caps_ok True g" and ag: "agrees D (g_offsets g) log"
    and ok: "list_all commit_ok cs" "length cs \<le> unat max_entries_per_record"
  shows "agrees (in_doubt (DoCommit fence cs io now) (g, log) D) (g_offsets (fst (commit_offsets g log fence cs io now)))
    (fst (snd (commit_offsets g log fence cs io now)))"
proof -
  define h where "h = (fst (expire_members g now))\<lparr>g_last_activity := now\<rparr>"
  have h: "g_offsets h = g_offsets g" "g_appends_since_snapshot h = g_appends_since_snapshot g"
    using same_expire [of g now] by (simp_all add: h_def same_table_def)
  let ?f = "fold (\<lambda>c. oput (oc_partition c) (oc_value c)) cs"
  let ?ps = "map oc_partition cs"
  let ?h = "h\<lparr>g_offsets := ?f (g_offsets h)\<rparr>"
  have c: "changes (encode_commits cs) (set ?ps) ?f"
    using changes_commits [OF ok] by simp
  have landed: "agrees (D \<union> set ?ps) (g_offsets g) (log @ [encode_commits cs])"
    by (rule agrees_landed [OF ag c])
  have written: "agrees (doubt_written g log log' io (Inr ()) ?ps (?f (g_offsets g)) D)
      (g_offsets (fst (recorded ?h (log @ [encode_commits cs]) io))) (snd (recorded ?h (log @ [encode_commits cs]) io))"
    if "cs \<noteq> []" "io_error io = None" "osize (g_offsets h) +
      osize (ofrom (map oc_partition (filter (\<lambda>c. \<not> ohas (g_offsets h) (oc_partition c)) cs))) \<le> max_partitions_per_group"
    for log'
  proof (rule agrees_written [OF ag c])
    show "osize (g_offsets ?h) \<le> max_partitions_per_group"
      using fold_insert_osize [of oc_partition oc_value cs "g_offsets h"] that(3) by simp
  qed (use that h in simp_all)
  show ?thesis
    using ag landed written h
    unfolding in_doubt.simps commit_offsets_def case_prod_unfold Let_def h_def [symmetric]
    by (auto simp: record_append_def not_less doubt_written_def split: sum.splits option.splits)
qed

lemma agrees_delete:
  assumes caps: "caps_ok True g" and ag: "agrees D (g_offsets g) log" and len: "length ps \<le> unat max_entries_per_record"
  shows "agrees (in_doubt (DoDeleteOffsets ps io now) (g, log) D) (g_offsets (fst (delete_offsets g log ps io now)))
    (fst (snd (delete_offsets g log ps io now)))"
proof -
  let ?ps = "filter (ohas (g_offsets g)) ps"
  let ?h = "g\<lparr>g_last_activity := now, g_offsets := fold odel ?ps (g_offsets g)\<rparr>"
  have "table_ok (g_offsets g)" using ag by (simp add: agrees_def)
  then have "\<forall>p \<in> set ?ps. length (fst p) = 16"
    by (auto simp: table_ok_def entry_ok_def ohas_def)
  then have c: "changes (encode_deletes ?ps) (set ?ps) (fold odel ?ps)"
    by (rule changes_deletes) (use len length_filter_le le_trans in blast)
  have landed: "agrees (D \<union> set ?ps) (g_offsets g) (log @ [encode_deletes ?ps])"
    by (rule agrees_landed [OF ag c])
  have size: "osize (g_offsets ?h) \<le> max_partitions_per_group"
    using fold_odel_le [of ?ps "g_offsets g"] caps by (simp add: caps_ok_def)
  have written: "agrees (doubt_written g log log' io (Inr ()) ?ps (fold odel ?ps (g_offsets g)) D)
      (g_offsets (fst (recorded ?h (log @ [encode_deletes ?ps]) io))) (snd (recorded ?h (log @ [encode_deletes ?ps]) io))"
    if "?ps \<noteq> []" "io_error io = None" for log'
    by (rule agrees_written [OF ag c that(1) _ _ size that(2)]) simp_all
  show ?thesis
    using ag landed written
    unfolding in_doubt.simps delete_offsets_def case_prod_unfold Let_def
    by (auto simp: record_append_def doubt_written_def split: sum.splits option.splits)
qed

lemma agrees_exec:
  assumes caps: "caps_ok True g" and ag: "agrees D (g_offsets g) log" and ok: "op_ok x"
  shows "agrees (in_doubt x (g, log) D) (g_offsets (fst (fst (group_exec x (g, log))))) (snd (fst (group_exec x (g, log))))"
proof (cases x)
  case (DoCommit f cs io now)
  with agrees_commit [OF caps ag] ok show ?thesis by (simp add: case_prod_unfold Let_def del: in_doubt.simps)
next
  case (DoDeleteOffsets ps io now)
  with agrees_delete [OF caps ag] ok show ?thesis by (simp add: case_prod_unfold Let_def del: in_doubt.simps)
next
  case (DoReload epoch now)
  with ok show ?thesis by simp
qed (use ag same_join [of g] same_watch [of g] same_sync [of g] same_heartbeat [of g] same_leave [of g] same_expire [of g] in
    \<open>simp_all add: case_prod_unfold Let_def same_table_def assignment_def fetch_offsets_def delete_group_def\<close>)

lemma op_ok_reload: "op_ok x \<Longrightarrow> \<not> is_reload x"
  by (cases x) simp_all

lemma agrees_run:
  "caps_ok True (fst s) \<Longrightarrow> agrees D (g_offsets (fst s)) (snd s) \<Longrightarrow> list_all op_ok xs \<Longrightarrow>
    agrees (run_doubt xs s D) (g_offsets (fst (fst (group_run xs s)))) (snd (fst (group_run xs s)))"
proof (induction xs arbitrary: s D)
  case (Cons x xs)
  obtain g log where s: "s = (g, log)" by (cases s)
  have ok: "op_ok x" "list_all op_ok xs" using Cons.prems(3) by simp_all
  have "caps_ok True (fst (fst (group_exec x s)))"
    using caps_exec [of True g x log] op_ok_reload [OF ok(1)] Cons.prems(1) by (simp add: s)
  moreover have "agrees (in_doubt x s D) (g_offsets (fst (fst (group_exec x s)))) (snd (fst (group_exec x s)))"
    using agrees_exec [of g D log x] ok(1) Cons.prems(1,2) by (simp add: s)
  ultimately show ?case
    using Cons.IH [OF _ _ ok(2)] by (simp add: case_prod_unfold Let_def)
qed simp

text \<open>A group just loaded from a log agrees with it.\<close>

lemma agrees_loaded:
  "replay_offsets log oempty = Inr (t, n) \<Longrightarrow> agrees {} t log"
  by (rule agreesI) (auto intro: replay_ok)

lemma caps_session:
  "osize t \<le> max_partitions_per_group \<Longrightarrow> caps_ok True (loaded epoch t n now)"
  by (simp add: caps_ok_def loaded_def entries_of_def)

text \<open>
  A commit with metadata beyond the limit of the reader is written and can never be read back.
\<close>

lemma long_metadata_unreadable:
  assumes len: "max_string_bytes < length m" "length m < 2 ^ 32" and topic: "length (fst (oc_partition c)) = 16"
    and meta: "co_metadata (oc_value c) = Some m"
  shows "decode_into (encode_commits [c]) t = Inl ()"
proof -
  obtain topic index where p: "oc_partition c = (topic, index)" by (cases "oc_partition c")
  have part: "take_partition (topic @ put_u32_be index @ rest) = Inr ((topic, index), rest)" for rest
    using take_put_partition [of "(topic, index)" rest] topic by (simp add: p put_partition_def)
  have un: "unat (of_nat (length m) :: u32) = length m"
    by (rule unat_length_u32 [OF len(2)])
  have "take_string (put_string m @ rest) = Inl ()" for rest
    using len(1) by (simp add: take_string_def put_string_def gbind_def un del: unat_of_nat)
  then have "take_entry (put_entry (oc_partition c, oc_value c) @ rest) = Inl ()" for rest
    by (simp add: p take_entry_def put_entry_def meta gsimps part take_metadata_def)
  from this [of "[]"] show ?thesis
    by (simp add: decode_into_def encode_commits_def at_end_def gsimps kind_delta_def kind_delete_def kind_snapshot_def
      max_entries_per_record_def gbind_def)
qed

end
