(* ===== verification/Grp_Props.thy ===== *)
theory Grp_Props
  imports Grp_Assign Grp_Watch Grp_Log
begin

text \<open>The properties of consumer groups, over every run of a coordinator from a freshly loaded group.\<close>

section \<open>A small run\<close>

text \<open>
  A member \<open>a-1\<close> joins two streams and is alone; ten milliseconds later \<open>b-2\<close> joins one of them and waits for
  \<open>a-1\<close> to join again.
\<close>

definition sample_join :: "string \<Rightarrow> string \<Rightarrow> string option \<Rightarrow> string list \<Rightarrow> join_input" where
  "sample_join client mid inst streams =
    \<lparr>ji_group_id = ''g'', ji_member_id = mid, ji_instance_id = inst, ji_client_id = client, ji_client_host = ''h'',
     ji_membership = Subscribed streams, ji_session_timeout_ms = 300000, ji_rebalance_timeout_ms = 1000,
     ji_require_known_member_id = False\<rparr>"

definition sample_run :: "group_op list" where
  "sample_run = [DoJoin 1 (sample_join ''a'' [] None [''s'', ''t'']) ''1'' 0, DoJoin 2 (sample_join ''b'' [] None [''s'']) ''2'' 10]"

lemmas join_eval = join_def expire_members_def loaded_def resolve_member_id_def over_capacity_def admit_join_def
  insert_member_def intern_all_def member_from_input_def stale_instances_def depart_def start_rebalance_def
  enqueue_join_def settle_def sweep_def reset_empty_def rebalance_ready_def complete_rebalance_def complete_subscribed_def
  answer_syncs_def set_assignment_def new_member_id_def mode_of_def compatible_def ofrom_def uses_name_def join_error_def
  subscription_entries_def subscribed_def subscription_def rebalance_timeout_of_def as_millis_def
  assign_def subscribers_def assign_one_def assign_load_def
  max_members_per_group_def max_streams_per_group_def max_subscription_entries_def Let_def sword_eval omap_eval

lemma sample_waits:
  "g_rebalance (fst (fst (group_run sample_run (loaded 1 oempty 0 0, [])))) =
    Some \<lparr>rb_id = 2, rb_expected = oput ''b-2'' () (oput ''a-1'' () oempty), rb_joined = oput ''b-2'' () oempty,
      rb_waiters = oput ''b-2'' 2 oempty\<rparr>"
  by (simp add: sample_run_def sample_join_def join_eval)

section \<open>Requests\<close>


text \<open>
  C33. A group is well formed after any run: the phase fits the mode, the waiting requests and the members; who
  has joined a running rebalance is expected in it, is a member and waits for its answer; only members wait;
  the generation is not negative; and no stream is assigned to two members at once.
\<close>

theorem group_stays_wellformed:
  "group_ok (fst (fst (group_run ops (loaded epoch offsets n start, log)))) \<and>
    \<not> (\<exists>i j m m' s. i \<noteq> j \<and>
      oget (g_members (fst (fst (group_run ops (loaded epoch offsets n start, log))))) i = Some m \<and>
      oget (g_members (fst (fst (group_run ops (loaded epoch offsets n start, log))))) j = Some m' \<and>
      s \<in> set (assigned m) \<and> s \<in> set (assigned m'))"
proof -
  let ?g = "fst (fst (group_run ops (loaded epoch offsets n start, log)))"
  have ok: "group_ok ?g"
    using group_run_ok [of "(loaded epoch offsets n start, log)" ops] loaded_ok [of epoch offsets n start] by simp
  then have "members_ok (g_members ?g)"
    by (intro group_coreD(3)) (simp add: group_ok_def)
  from members_okD(3) [OF this] ok show ?thesis by blast
qed

section \<open>Assignment\<close>

text \<open>
  C34. The assignment of streams is exact: a stream somebody subscribes to is held by exactly one member, a
  member holds only streams it subscribes to, every list is sorted without repetition, and between members with
  the same subscriptions the sizes differ by at most one.
\<close>

theorem assign_is_exact:
  "(\<forall>i m s. oget ms i = Some m \<and> s \<in> set (subscribed m) \<longrightarrow> (\<exists>!mid. holds (assign ms) s mid)) \<and>
   (\<forall>s mid. holds (assign ms) s mid \<longrightarrow> (\<exists>m. oget ms mid = Some m \<and> s \<in> set (subscribed m))) \<and>
   (\<forall>mid l. oget (assign ms) mid = Some l \<longrightarrow> sorted l \<and> distinct l) \<and>
   (\<forall>S i j k l. (\<forall>i m. oget ms i = Some m \<longrightarrow> set (subscribed m) = S) \<and>
      oget (assign ms) i = Some k \<and> oget (assign ms) j = Some l \<longrightarrow> length k \<le> length l + 1)"
proof (intro conjI allI impI)
  fix i m s assume "oget ms i = Some m \<and> s \<in> set (subscribed m)"
  then show "\<exists>!mid. holds (assign ms) s mid" by (elim conjE) (rule assign_unique)
next
  fix s mid assume "holds (assign ms) s mid"
  then show "\<exists>m. oget ms mid = Some m \<and> s \<in> set (subscribed m)" by (rule assign_subscribed) blast
next
  fix mid l assume l: "oget (assign ms) mid = Some l"
  show "sorted l" "distinct l" using assign_sorted [OF l] by simp_all
next
  fix S i j k l
  assume a: "(\<forall>i m. oget ms i = Some m \<longrightarrow> set (subscribed m) = S) \<and> oget (assign ms) i = Some k \<and> oget (assign ms) j = Some l"
  show "length k \<le> length l + 1"
  proof (rule assign_balanced [of ms S i k j l])
    show "set (subscribed m) = S" if "oget ms i = Some m" for i m
      using a that by simp
  qed (use a in simp_all)
qed

definition sample_members :: "(string, member) omap" where
  "sample_members = oput ''a'' (member_from_input (sample_join ''a'' [] None [''s'', ''t'', ''u'']) 0)
    (oput ''b'' (member_from_input (sample_join ''b'' [] None [''s'', ''t'', ''u'']) 0) oempty)"

lemma sample_members_simps:
  "set (subscribed (member_from_input (sample_join c [] None [''s'', ''t'', ''u'']) 0)) = {''s'', ''t'', ''u''}"
  "oget sample_members ''a'' = Some (member_from_input (sample_join ''a'' [] None [''s'', ''t'', ''u'']) 0)"
  by (simp_all add: sample_members_def subscribed_def subscription_def member_from_input_def sample_join_def ofrom_def insert_commute)

lemma sample_members_same:
  assumes "oget sample_members i = Some m"
  shows "set (subscribed m) = {''s'', ''t'', ''u''}"
proof -
  from assms obtain c where "m = member_from_input (sample_join c [] None [''s'', ''t'', ''u'']) 0"
    by (auto simp: sample_members_def split: if_splits)
  then show ?thesis by (simp only: sample_members_simps(1))
qed

theorem assign_is_exact_witness:
  "(\<exists>!mid. holds (assign sample_members) ''t'' mid) \<and>
   (\<exists>k l. oget (assign sample_members) ''a'' = Some k \<and> oget (assign sample_members) ''b'' = Some l \<and>
      sorted k \<and> distinct k \<and> length k \<le> length l + 1)"
proof -
  note exact = assign_is_exact [of sample_members]
  have "''t'' \<in> set (subscribed (member_from_input (sample_join ''a'' [] None [''s'', ''t'', ''u'']) 0))"
    by (simp add: sample_members_simps(1))
  with sample_members_simps(2) have one: "\<exists>!mid. holds (assign sample_members) ''t'' mid"
    by (intro exact [THEN conjunct1, rule_format, of "''a''"] conjI)
  have "ohas (assign sample_members) ''a''" "ohas (assign sample_members) ''b''"
    by (simp_all add: sample_members_def)
  then obtain k l where kl: "oget (assign sample_members) ''a'' = Some k" "oget (assign sample_members) ''b'' = Some l"
    by (elim ohasE)
  from kl(1) exact [THEN conjunct2, THEN conjunct2, THEN conjunct1] have "sorted k \<and> distinct k"
    by meson
  moreover have "length k \<le> length l + 1"
    using exact [THEN conjunct2, THEN conjunct2, THEN conjunct2, rule_format, of "{''s'', ''t'', ''u''}"] sample_members_same kl
    by meson
  ultimately show ?thesis
    using one kl by meson
qed

section \<open>Progress\<close>



section \<open>Offsets\<close>


definition sample_io :: "group_error option \<Rightarrow> log_io" where
  "sample_io e = \<lparr>io_error = e, io_landed = True, io_exists = (\<lambda>_. True), io_snapshot = True, io_trim = True\<rparr>"

definition sample_commit :: "u32 \<Rightarrow> u64 \<Rightarrow> offset_commit" where
  "sample_commit i pos = \<lparr>oc_partition = (replicate 16 7, i),
    oc_value = \<lparr>co_position = pos, co_leader_epoch = None, co_metadata = None\<rparr>\<rparr>"

text \<open>Two commits, the second of them failed and landed: only its partition is in doubt.\<close>

definition sample_commits :: "group_op list" where
  "sample_commits = [DoCommit None [sample_commit 0 5] (sample_io None) 1,
    DoCommit None [sample_commit 1 6] (sample_io (Some GroupStorage)) 2]"

lemma interval_late: "\<not> offset_snapshot_interval \<le> 1"
  by (simp add: offset_snapshot_interval_def word_le_nat_alt)

lemmas commit_eval = sample_commits_def sample_commit_def sample_io_def commit_offsets_def expire_members_def loaded_def
  record_append_def recorded_def interval_late max_partitions_per_group_def ofrom_def Let_def omap_eval

lemma sample_commits_table:
  "g_offsets (fst (fst (group_run sample_commits (loaded 1 oempty 0 0, [])))) =
    oput (replicate 16 7, 0) \<lparr>co_position = 5, co_leader_epoch = None, co_metadata = None\<rparr> oempty"
  by (simp add: commit_eval)

lemma sample_commits_doubt:
  "(replicate 16 7, 0) \<notin> run_doubt sample_commits (loaded 1 oempty 0 0, []) {}"
  by (simp add: commit_eval doubt_written_def doubt_recorded_def)


section \<open>Capacity\<close>

text \<open>
  C37. A group stays within its limits over any run: members, distinct stream names and subscription entries
  never exceed their constants; and between reloads the offset table, which starts within its limit, never
  exceeds its own.
\<close>

theorem group_within_capacity:
  "osize (g_members (fst (fst (group_run ops (loaded epoch offsets n start, log))))) \<le> max_members_per_group \<and>
   osize (g_names (fst (fst (group_run ops (loaded epoch offsets n start, log))))) \<le> max_streams_per_group \<and>
   subscription_entries (fst (fst (group_run ops (loaded epoch offsets n start, log)))) \<le> max_subscription_entries \<and>
   (osize offsets \<le> max_partitions_per_group \<and> \<not> list_ex is_reload ops \<longrightarrow>
     osize (g_offsets (fst (fst (group_run ops (loaded epoch offsets n start, log))))) \<le> max_partitions_per_group)"
  using caps_run [of False "(loaded epoch offsets n start, log)" ops] caps_loaded [of epoch offsets n start]
    caps_run [of True "(loaded epoch offsets n start, log)" ops] caps_session [of offsets epoch n start]
  by (simp add: caps_ok_def subscription_entries_alt)

theorem group_within_capacity_witness:
  "osize (g_offsets (fst (fst (group_run sample_commits (loaded 1 oempty 0 0, []))))) \<le> max_partitions_per_group"
  using group_within_capacity [of sample_commits 1 oempty 0 0 "[]"] by (simp add: sample_commits_def max_partitions_per_group_def)

section \<open>A join that leaves the group unsettled\<close>

text \<open>
  Members with the instance id of a joining client are removed before the client's own instance id is compared.
  When that comparison fails, the join is refused as fenced, yet the healthy static member is gone and the
  group, without a rebalance, stays stable with its stream held by nobody.
\<close>

definition static_group :: group where
  "static_group = (loaded 1 oempty 0 0)
    \<lparr>g_phase := GroupStable, g_generation := 1, g_mode := Some ModeSubscribed,
      g_names := oput ''s'' () (oput ''t'' () oempty),
      g_members := oput ''a'' \<lparr>m_instance_id = Some ''i'', m_client_id = ''a'', m_client_host = ''h'',
          m_role = RoleSubscribed (oput ''s'' () oempty) [''s''], m_session_timeout = 300000,
          m_rebalance_timeout = 1000, m_last_heartbeat = 0\<rparr>
        (oput ''b'' \<lparr>m_instance_id = None, m_client_id = ''b'', m_client_host = ''h'',
          m_role = RoleSubscribed (oput ''t'' () oempty) [''t''], m_session_timeout = 300000,
          m_rebalance_timeout = 1000, m_last_heartbeat = 0\<rparr> oempty)\<rparr>"

lemma fenced_join_evicts:
  "let (g, answers, _) = join static_group 7 (sample_join ''b'' ''b'' (Some ''i'') [''t'']) ''9'' 5
   in answers = [JoinAnswer 7 (join_error FencedInstance ''b'')] \<and> \<not> ohas (g_members g) ''a'' \<and>
      g_phase g = GroupStable \<and> g_rebalance g = None"
  by (simp add: static_group_def sample_join_def join_eval)

end
