(* ===== verification/Srv_Page.thy ===== *)
theory Srv_Page
  imports Prelude
begin

text \<open>
  Pages of a listing, \<^verbatim>\<open>pico-server/src/page.rs\<close>: a scan keeps entries until the page is full or
  ten times the page size has been looked at, and says where the next page starts. \<^verbatim>\<open>usize\<close> is 64
  bits wide; its saturating arithmetic is a minimum.
\<close>

definition usize_max :: nat where
  "usize_max = 2 ^ 64 - 1"

definition page_budget :: nat where
  "page_budget = 10"

definition fetch_count :: "nat \<Rightarrow> nat" where
  "fetch_count limit = min (min (limit * page_budget) usize_max + 1) usize_max"

record ('k, 't) page =
  pg_items :: "('k \<times> 't) list"
  pg_next :: "'k option"

fun page_loop :: "nat \<Rightarrow> nat \<Rightarrow> ('k \<Rightarrow> 't \<Rightarrow> bool) \<Rightarrow> ('k \<times> 't) list \<Rightarrow> ('k \<times> 't) list \<Rightarrow> 'k option \<Rightarrow> ('k, 't) page" where
  "page_loop 0 limit keep entries items tip = \<lparr>pg_items = items, pg_next = if entries = [] then None else tip\<rparr>"
| "page_loop (Suc n) limit keep entries items tip =
    (if length items = limit then \<lparr>pg_items = items, pg_next = if entries = [] then None else tip\<rparr>
     else case entries of
       [] \<Rightarrow> \<lparr>pg_items = items, pg_next = None\<rparr>
     | (key, item) # entries \<Rightarrow>
         page_loop n limit keep entries (if keep key item then items @ [(key, item)] else items) (Some key))"

definition page_scan :: "('k \<times> 't) list \<Rightarrow> nat \<Rightarrow> ('k \<Rightarrow> 't \<Rightarrow> bool) \<Rightarrow> ('k, 't) page" where
  "page_scan entries limit keep = page_loop (min (limit * page_budget) usize_max) limit keep entries [] None"

definition page_truncate :: "nat \<Rightarrow> ('k, 't) page \<Rightarrow> ('k, 't) page" where
  "page_truncate len p =
    (if len \<ge> length (pg_items p) then p
     else \<lparr>pg_items = take len (pg_items p),
       pg_next = (case rev (take len (pg_items p)) of [] \<Rightarrow> None | (key, _) # _ \<Rightarrow> Some key)\<rparr>)"

text \<open>What a scan has looked at is a prefix of the entries.\<close>

definition page_covers :: "('k \<Rightarrow> 't \<Rightarrow> bool) \<Rightarrow> ('k \<times> 't) list \<Rightarrow> ('k \<times> 't) list \<Rightarrow> ('k, 't) page \<Rightarrow> bool" where
  "page_covers keep pre suf p \<longleftrightarrow> pg_items p = filter (case_prod keep) pre \<and>
    pg_next p = (if suf = [] \<or> pre = [] then None else Some (fst (last pre)))"

lemma page_loop_prefix:
  assumes "length (filter (case_prod keep) pre0) \<le> limit" and "tip = (if pre0 = [] then None else Some (fst (last pre0)))"
  shows "\<exists>pre suf. entries = pre @ suf \<and>
    page_covers keep (pre0 @ pre) suf (page_loop n limit keep entries (filter (case_prod keep) pre0) tip) \<and>
    length pre \<le> n \<and> length (filter (case_prod keep) (pre0 @ pre)) \<le> limit \<and>
    (suf = [] \<or> length pre = n \<or> length (filter (case_prod keep) (pre0 @ pre)) = limit)"
  using assms
proof (induction n arbitrary: entries pre0 tip)
  case 0
  then show ?case by (intro exI [of _ "[]"] exI [of _ entries]) (simp add: page_covers_def)
next
  case (Suc n)
  show ?case
  proof (cases "length (filter (case_prod keep) pre0) = limit \<or> entries = []")
    case True
    with Suc.prems show ?thesis
      by (intro exI [of _ "[]"] exI [of _ entries]) (auto simp: page_covers_def)
  next
    case False
    then obtain key item rest where e: "entries = (key, item) # rest" by (cases entries) auto
    let ?pre0 = "pre0 @ [(key, item)]"
    have short: "length (filter (case_prod keep) ?pre0) \<le> limit"
      using Suc.prems False by auto
    have "Some key = (if ?pre0 = [] then None else Some (fst (last ?pre0)))" by simp
    from Suc.IH [OF short this, of rest] obtain pre suf where p: "rest = pre @ suf"
      "page_covers keep (?pre0 @ pre) suf (page_loop n limit keep rest (filter (case_prod keep) ?pre0) (Some key))"
      "length pre \<le> n" "length (filter (case_prod keep) (?pre0 @ pre)) \<le> limit"
      "suf = [] \<or> length pre = n \<or> length (filter (case_prod keep) (?pre0 @ pre)) = limit"
      by (elim exE conjE)
    have "page_loop (Suc n) limit keep entries (filter (case_prod keep) pre0) tip =
        page_loop n limit keep rest (filter (case_prod keep) ?pre0) (Some key)" for tip
      using False by (simp add: e)
    with p e show ?thesis
      by (intro exI [of _ "(key, item) # pre"] exI [of _ suf]) simp
  qed
qed

text \<open>
  A page is exact: it holds the kept entries of a prefix, at most as many as asked for; the rest starts after the
  key it names, and no key is named when nothing is left. A page that asks for anything makes progress.
\<close>

lemma page_scan_exact:
  assumes "0 < limit"
  shows "\<exists>pre suf. entries = pre @ suf \<and> page_covers keep pre suf (page_scan entries limit keep) \<and>
    length (pg_items (page_scan entries limit keep)) \<le> limit \<and> length pre \<le> limit * page_budget \<and>
    (entries \<noteq> [] \<longrightarrow> pre \<noteq> [])"
proof -
  let ?n = "min (limit * page_budget) usize_max"
  have n: "0 < ?n" using assms by (simp add: page_budget_def usize_max_def)
  have "length (filter (case_prod keep) []) \<le> limit" "None = (if [] = ([] :: ('a \<times> 'b) list) then None else Some (fst (last [])))"
    by simp_all
  from page_loop_prefix [OF this, of entries ?n] obtain pre suf where p: "entries = pre @ suf"
    "page_covers keep pre suf (page_scan entries limit keep)" "length pre \<le> ?n"
    "length (filter (case_prod keep) pre) \<le> limit"
    "suf = [] \<or> length pre = ?n \<or> length (filter (case_prod keep) pre) = limit"
    unfolding page_scan_def append_Nil filter.simps by (elim exE conjE)
  have "pre \<noteq> []" if "entries \<noteq> []"
  proof
    assume "pre = []"
    with p(1,5) that have "0 = ?n \<or> 0 = limit" by auto
    with n assms show False by (elim disjE) linarith+
  qed
  note ne = this
  have items: "pg_items (page_scan entries limit keep) = filter (case_prod keep) pre"
    using p(2) unfolding page_covers_def by (elim conjE)
  show ?thesis
  proof (intro exI conjI impI)
    show "entries = pre @ suf" by (rule p(1))
    show "page_covers keep pre suf (page_scan entries limit keep)" by (rule p(2))
    show "length (pg_items (page_scan entries limit keep)) \<le> limit" unfolding items by (rule p(4))
    show "length pre \<le> limit * page_budget" using p(3) by linarith
  qed (rule ne)
qed

text \<open>The pages of a listing, each starting after the key the one before it names.\<close>

primrec page_walk :: "nat \<Rightarrow> ('k::linorder \<times> 't) list \<Rightarrow> nat \<Rightarrow> ('k \<Rightarrow> 't \<Rightarrow> bool) \<Rightarrow> ('k \<times> 't) list option" where
  "page_walk 0 entries limit keep = None"
| "page_walk (Suc n) entries limit keep =
    (let p = page_scan entries limit keep in
     case pg_next p of
       None \<Rightarrow> Some (pg_items p)
     | Some k \<Rightarrow> map_option ((@) (pg_items p)) (page_walk n (filter (\<lambda>(key, _). k < key) entries) limit keep))"

lemma filter_after_last:
  fixes pre suf :: "('k::linorder \<times> 't) list"
  assumes "sorted_wrt (<) (map fst (pre @ suf))" and "pre \<noteq> []"
  shows "filter (\<lambda>(key, _). fst (last pre) < key) (pre @ suf) = suf"
proof -
  have "fst x \<le> fst (last pre)" if x: "x \<in> set pre" for x
  proof -
    obtain i where i: "i < length pre" "x = pre ! i" using x by (auto simp: in_set_conv_nth)
    have s: "sorted_wrt (<) (map fst pre)" using assms(1) by (simp add: sorted_wrt_append)
    show ?thesis
    proof (cases "i = length pre - 1")
      case True
      with i assms(2) show ?thesis by (simp add: last_conv_nth)
    next
      case False
      with i have "map fst pre ! i < map fst pre ! (length pre - 1)"
        by (intro sorted_wrt_nth_less [OF s]) auto
      with i assms(2) show ?thesis by (simp add: last_conv_nth)
    qed
  qed
  then have "\<not> fst (last pre) < fst x" if "x \<in> set pre" for x
    using that by (simp add: not_less)
  then have "filter (\<lambda>(key, _). fst (last pre) < key) pre = []"
    by (auto simp: filter_empty_conv)
  moreover have "filter (\<lambda>(key, _). fst (last pre) < key) suf = suf"
  proof -
    have "fst (last pre) < fst x" if "x \<in> set suf" for x
      using assms(1) last_in_set [OF assms(2)] that unfolding map_append sorted_wrt_append by simp
    then show ?thesis by (auto simp: filter_id_conv)
  qed
  ultimately show ?thesis by simp
qed

lemma page_walk_complete:
  assumes "sorted_wrt (<) (map fst entries)" and "0 < limit" and "length entries < n"
  shows "page_walk n entries limit keep = Some (filter (case_prod keep) entries)"
  using assms
proof (induction n arbitrary: entries)
  case (Suc n)
  from page_scan_exact [OF Suc.prems(2), of entries keep] obtain pre suf where p: "entries = pre @ suf"
    "page_covers keep pre suf (page_scan entries limit keep)" "entries \<noteq> [] \<longrightarrow> pre \<noteq> []" by blast
  show ?case
  proof (cases "suf = []")
    case True
    with p show ?thesis by (simp add: page_covers_def Let_def)
  next
    case False
    with p(1,3) have ne: "pre \<noteq> []" by auto
    have rest: "filter (\<lambda>(key, _). fst (last pre) < key) entries = suf"
      unfolding p(1) by (rule filter_after_last) (use Suc.prems(1) p(1) ne in simp_all)
    have "page_walk n suf limit keep = Some (filter (case_prod keep) suf)"
    proof (rule Suc.IH)
      show "sorted_wrt (<) (map fst suf)" using Suc.prems(1) by (simp add: p(1) sorted_wrt_append)
      show "length suf < n" using Suc.prems(3) ne by (cases pre) (simp_all add: p(1))
    qed (rule Suc.prems(2))
    with p(2) False ne show ?thesis
      unfolding page_covers_def by (simp add: Let_def rest) (simp add: p(1))
  qed
qed simp

end
