(* ===== verification/Grp_Table.thy ===== *)
theory Grp_Table
  imports Grp_Watch Srv_Page
begin

text \<open>
  The coordinator's table of loaded groups, \<^verbatim>\<open>group/mod.rs\<close> and \<^verbatim>\<open>evict_idle_groups\<close> of
  \<^verbatim>\<open>state.rs\<close>: how a group is found, loaded, reloaded and evicted, and what is listed. The table is a
  \<^verbatim>\<open>HashMap\<close> in the code; nothing depends on its order. A group whose lock is held elsewhere is left
  alone by eviction: \<open>locked\<close> says which.
\<close>

type_synonym groups = "(string, group) omap"

definition default_max_groups :: nat where
  "default_max_groups = 10000"

definition never_loaded :: i64 where
  "never_loaded = SW (push_bit 63 1)"

fun max_idle :: "(nat \<times> string) list \<Rightarrow> (nat \<times> string) option" where
  "max_idle [] = None"
| "max_idle (x # xs) = (case max_idle xs of None \<Rightarrow> Some x | Some y \<Rightarrow> Some (max x y))"

definition evict_idle_groups :: "(string \<Rightarrow> bool) \<Rightarrow> groups \<Rightarrow> nat \<Rightarrow> nat \<Rightarrow> groups \<times> answer list" where
  "evict_idle_groups locked groups now limit =
    (let expired = ovmap (\<lambda>i g. if locked i then g else fst (expire_members g now)) groups;
         answers = concat (map (\<lambda>(i, g). if locked i then [] else snd (expire_members g now)) (oentries groups));
         kept = oretain (\<lambda>i g. locked i \<or> (case idle_since g now of None \<Rightarrow> True | Some idle \<Rightarrow> idle < idle_group_ttl)) expired
     in if osize kept < limit then (kept, answers)
        else
          (let idlest = max_idle (List.map_filter (\<lambda>(i, g). if locked i then None
                 else map_option (\<lambda>idle. (idle, i)) (idle_since g now)) (oentries kept))
           in (case idlest of Some (_, i) \<Rightarrow> odel i kept | None \<Rightarrow> kept, answers)))"

text \<open>
  What \<^verbatim>\<open>local_group\<close> asks of the log service, in order: create the log or look it up, ask who owns
  it, open it for its epoch, and read it.
\<close>

record local_io =
  li_create :: bool
  li_stream :: "unit + bool"
  li_owner :: "(bool \<times> bool) option"
  li_epoch :: "i64 option"
  li_log :: "bytes list option"

definition local_group :: "local_io \<Rightarrow> (string \<Rightarrow> bool) \<Rightarrow> nat \<Rightarrow> groups \<Rightarrow> string \<Rightarrow> bool \<Rightarrow> nat
    \<Rightarrow> groups \<times> answer list \<times> (group_error + unit)" where
  "local_group io locked max_groups groups group_id create now =
    (case validate_group_id group_id of
       Inl e \<Rightarrow> (groups, [], Inl e)
     | Inr _ \<Rightarrow>
         if create \<and> \<not> li_create io then (groups, [], Inl CoordinatorNotAvailable)
         else if \<not> create \<and> li_stream io = Inl () then (groups, [], Inl NotCoordinator)
         else if \<not> create \<and> li_stream io = Inr False then (groups, [], Inl GroupNotFound)
         else
           (case li_owner io of
              None \<Rightarrow> (groups, [], Inl NotCoordinator)
            | Some (local, registered) \<Rightarrow>
                if \<not> local \<or> \<not> registered then (groups, [], Inl NotCoordinator)
                else
                  (case li_epoch io of
                     None \<Rightarrow> (groups, [], Inl CoordinatorNotAvailable)
                   | Some epoch \<Rightarrow>
                       (let (groups, a) = (if ohas groups group_id then (groups, [])
                              else evict_idle_groups locked groups now max_groups)
                        in if \<not> ohas groups group_id \<and> osize groups \<ge> max_groups
                           then (groups, a, Inl CapacityExceeded)
                           else
                             (let g = (case oget groups group_id of Some g \<Rightarrow> g
                                    | None \<Rightarrow> loaded never_loaded oempty 0 now);
                                  groups = oput group_id g groups
                              in if g_loaded_epoch g = epoch then (groups, a, Inr ())
                                 else (case li_log io of
                                    None \<Rightarrow> (groups, a, Inl NotCoordinator)
                                  | Some log \<Rightarrow>
                                      (case reload_group g epoch log now of
                                         Inl e \<Rightarrow> (groups, a, Inl e)
                                       | Inr (g, b) \<Rightarrow> (oput group_id g groups, a @ b, Inr ()))))))))"

section \<open>Listing\<close>

record listed_group =
  lg_group_id :: string
  lg_state :: group_state
  lg_protocol_type :: string
  lg_protocol_name :: string
  lg_generation :: i32
  lg_members :: nat

definition listed_unloaded :: "string \<Rightarrow> listed_group" where
  "listed_unloaded group_id = \<lparr>lg_group_id = group_id, lg_state = GroupEmpty, lg_protocol_type = [], lg_protocol_name = [],
    lg_generation = 0, lg_members = 0\<rparr>"

definition list_group :: "string \<Rightarrow> group \<Rightarrow> nat \<Rightarrow> group \<times> answer list \<times> listed_group" where
  "list_group group_id g now =
    (let (g, a) = expire_members g now
     in (g, a, \<lparr>lg_group_id = group_id, lg_state = g_phase g, lg_protocol_type = protocol_type g,
       lg_protocol_name = protocol_name g, lg_generation = g_generation g, lg_members = osize (g_members g)\<rparr>))"

datatype member_role =
    DescribedSubscribed "string list" "string list"
  | DescribedClient bytes bytes "(string \<times> i32 list) list option"

record member_description =
  md_member_id :: string
  md_instance_id :: "string option"
  md_client_id :: string
  md_client_host :: string
  md_role :: member_role

text \<open>The decoder of consumer assignments is a third-party one: an argument.\<close>

definition describe_member :: "(bytes \<Rightarrow> (string \<times> i32 list) list option) \<Rightarrow> string \<Rightarrow> member \<Rightarrow> group \<Rightarrow> member_description" where
  "describe_member consumer_assignment mid m g =
    \<lparr>md_member_id = mid, md_instance_id = m_instance_id m, md_client_id = m_client_id m, md_client_host = m_client_host m,
     md_role = (case m_role m of
       RoleSubscribed s streams \<Rightarrow> DescribedSubscribed (okeys s) streams
     | RoleClient protocols asg \<Rightarrow> DescribedClient
         (case find (\<lambda>p. jp_name p = protocol_name g) protocols of Some p \<Rightarrow> jp_metadata p | None \<Rightarrow> [])
         asg (if protocol_type g = ''consumer'' then consumer_assignment asg else None))\<rparr>"

definition members_page :: "(bytes \<Rightarrow> (string \<times> i32 list) list option) \<Rightarrow> group \<Rightarrow> string option \<Rightarrow> nat \<Rightarrow> nat
    \<Rightarrow> group \<times> answer list \<times> (string, member_description) page" where
  "members_page consumer_assignment g after limit now =
    (let (g, a) = expire_members g now;
         from = (case after of None \<Rightarrow> oentries (g_members g)
           | Some k \<Rightarrow> filter (\<lambda>(i, _). k < i) (oentries (g_members g)))
     in (g, a, page_scan (map (\<lambda>(i, m). (i, describe_member consumer_assignment i m g)) from) limit (\<lambda>_ _. True)))"

section \<open>No request is lost with a group\<close>

definition table_pending :: "groups \<Rightarrow> nat multiset" where
  "table_pending groups = sum_list (map (\<lambda>(_, g). pending_requests g) (oentries groups))"

definition groups_ok :: "groups \<Rightarrow> bool" where
  "groups_ok groups \<longleftrightarrow> (\<forall>i g. oget groups i = Some g \<longrightarrow> group_ok g)"

lemma groups_ok_entries: "groups_ok groups \<longleftrightarrow> (\<forall>(i, g) \<in> set (oentries groups). group_ok g)"
  by (auto simp: groups_ok_def om.in_entries_iff)

lemma idle_pending:
  assumes "group_ok g" and "idle_since g now = Some idle"
  shows "pending_requests g = {#}"
proof -
  have "g_members g = oempty" "g_rebalance g = None"
    using assms(2) by (simp_all add: idle_since_def split: if_splits)
  with core_without_members(1) [of g] assms(1) show ?thesis
    by (simp add: pending_requests_def group_ok_def)
qed

lemma table_pending_odel:
  assumes "oget groups i = Some g" and "pending_requests g = {#}"
  shows "table_pending (odel i groups) = table_pending groups"
  using osum_split [OF assms(1), of "\<lambda>_. pending_requests"] assms(2)
  by (simp add: table_pending_def osum_def)

lemma table_pending_oput:
  "oget groups i = None \<Longrightarrow> table_pending (oput i g groups) = pending_requests g + table_pending groups"
  using osum_oput_new [of groups i "\<lambda>_. pending_requests" g] by (simp add: table_pending_def osum_def)

lemma table_pending_oretain:
  assumes "\<And>i g. oget groups i = Some g \<Longrightarrow> \<not> P i g \<Longrightarrow> pending_requests g = {#}"
  shows "table_pending (oretain P groups) = table_pending groups"
proof -
  have "sum_list (map (\<lambda>(_, g). pending_requests g) (filter (case_prod P) xs)) = sum_list (map (\<lambda>(_, g). pending_requests g) xs)"
    if "set xs \<subseteq> set (oentries groups)" for xs
    using that
  proof (induction xs)
    case (Cons x xs)
    then have "oget groups (fst x) = Some (snd x)" by (simp add: om.in_entries_iff [symmetric])
    with assms Cons show ?case by (cases x) auto
  qed simp
  from this [of "oentries groups"] show ?thesis by (simp add: table_pending_def)
qed

lemma evict_expired_pending:
  assumes "groups_ok groups"
  shows "table_pending (ovmap (\<lambda>i g. if locked i then g else fst (expire_members g now)) groups) +
    answered (concat (map (\<lambda>(i, g). if locked i then [] else snd (expire_members g now)) (oentries groups))) = table_pending groups"
proof -
  have "sum_list (map (\<lambda>(i, g). pending_requests (if locked i then g else fst (expire_members g now))) xs) +
      answered (concat (map (\<lambda>(i, g). if locked i then [] else snd (expire_members g now)) xs)) =
      sum_list (map (\<lambda>(_, g). pending_requests g) xs)"
    if "\<forall>(i, g) \<in> set xs. group_ok g" for xs
    using that
  proof (induction xs)
    case (Cons x xs)
    obtain i g where x: "x = (i, g)" by (cases x)
    have "pending_requests (fst (expire_members g now)) + answered (snd (expire_members g now)) = pending_requests g"
      using expire_members_ok(2) [of g now] Cons.prems by (simp add: x)
    with Cons show ?case
      by (simp add: x) (metis (no_types, lifting) add.assoc add.left_commute)
  qed simp
  from this [of "oentries groups"] assms show ?thesis
    by (simp add: table_pending_def groups_ok_entries comp_def case_prod_unfold)
qed

lemma max_idle_in: "max_idle xs = Some x \<Longrightarrow> x \<in> set xs"
  by (induction xs arbitrary: x) (auto simp: max_def split: option.splits if_splits)

lemma evict_ok:
  assumes ok: "groups_ok groups"
  shows "groups_ok (fst (evict_idle_groups locked groups now limit)) \<and>
    table_pending (fst (evict_idle_groups locked groups now limit)) + answered (snd (evict_idle_groups locked groups now limit)) =
      table_pending groups"
proof -
  define expired where "expired = ovmap (\<lambda>i g. if locked i then g else fst (expire_members g now)) groups"
  define kept where "kept = oretain (\<lambda>i g. locked i \<or> (case idle_since g now of None \<Rightarrow> True | Some idle \<Rightarrow> idle < idle_group_ttl)) expired"
  define idlest where "idlest = max_idle (List.map_filter (\<lambda>(i, g). if locked i then None
    else map_option (\<lambda>idle. (idle, i)) (idle_since g now)) (oentries kept))"
  have eok: "groups_ok expired"
    using ok expire_members_ok(1) by (auto simp: expired_def groups_ok_def)
  have kok: "groups_ok kept"
    using eok by (auto simp: kept_def groups_ok_def oget_oretain split: option.splits if_splits)
  have kp: "table_pending kept = table_pending expired"
    unfolding kept_def
    by (rule table_pending_oretain) (use eok idle_pending in \<open>auto simp: groups_ok_def split: option.splits\<close>)
  have cut: "groups_ok (odel i kept) \<and> table_pending (odel i kept) = table_pending kept" if "idlest = Some (n, i)" for n i
  proof -
    from max_idle_in [OF that [unfolded idlest_def]] obtain g where g: "oget kept i = Some g" "idle_since g now = Some n"
      by (auto simp: List.map_filter_def om.in_entries_iff split: if_splits)
    moreover have "groups_ok (odel i kept)"
      using kok by (simp add: groups_ok_def)
    ultimately show ?thesis
      using table_pending_odel [OF g(1)] idle_pending [OF _ g(2)] kok by (simp add: groups_ok_def)
  qed
  show ?thesis
    using kok kp cut evict_expired_pending [OF ok, of locked now]
    unfolding evict_idle_groups_def Let_def expired_def [symmetric] kept_def [symmetric] idlest_def [symmetric]
    by (auto split: option.splits)
qed

lemma evict_room:
  "osize (fst (evict_idle_groups locked groups now limit)) \<le> osize groups"
proof -
  let ?k = "oretain (\<lambda>i g. locked i \<or> (case idle_since g now of None \<Rightarrow> True | Some idle \<Rightarrow> idle < idle_group_ttl))
    (ovmap (\<lambda>i g. if locked i then g else fst (expire_members g now)) groups)"
  have k: "osize ?k \<le> osize groups"
    using length_filter_le [of _ "oentries (ovmap (\<lambda>i g. if locked i then g else fst (expire_members g now)) groups)"] by simp
  have "osize (odel i ?k) \<le> osize groups" for i
    using k length_filter_le [of _ "oentries ?k"] le_trans unfolding oentries_eval al_del_def by blast
  with k show ?thesis
    unfolding evict_idle_groups_def Let_def by (simp split: option.split del: oentries_eval oentries_oretain oentries_ovmap)
qed

text \<open>Loading, reloading and evicting keep every group well formed and lose no request.\<close>

lemma local_group_ok:
  assumes ok: "groups_ok groups"
  shows "groups_ok (fst (local_group io locked max_groups groups group_id create now)) \<and>
    table_pending (fst (local_group io locked max_groups groups group_id create now)) +
      answered (fst (snd (local_group io locked max_groups groups group_id create now))) = table_pending groups"
proof -
  define e where "e = (if ohas groups group_id then (groups, []) else evict_idle_groups locked groups now max_groups)"
  define g where "g = (case oget (fst e) group_id of Some g \<Rightarrow> g | None \<Rightarrow> loaded never_loaded oempty 0 now)"
  have e: "groups_ok (fst e)" "table_pending (fst e) + answered (snd e) = table_pending groups"
    using ok evict_ok [OF ok, of locked now max_groups] by (simp_all add: e_def)
  have gok: "group_ok g"
    using e(1) loaded_ok by (auto simp: g_def groups_ok_def split: option.split)
  have put: "groups_ok (oput group_id h (fst e))" if "group_ok h" for h
    using e(1) that by (auto simp: groups_ok_def)
  have same: "table_pending (oput group_id g (fst e)) = table_pending (fst e)"
  proof (cases "oget (fst e) group_id")
    case None
    then show ?thesis by (simp add: table_pending_oput g_def loaded_ok)
  next
    case (Some h)
    then show ?thesis by (simp add: g_def om.put_same)
  qed
  have changed: "table_pending (oput group_id h (fst e)) + pending_requests g = table_pending (fst e)"
    if "pending_requests h = {#}" for h
  proof -
    have "oput group_id h (fst e) = oput group_id h (odel group_id (fst e))" by (rule oput_odel)
    then have "table_pending (oput group_id h (fst e)) = table_pending (odel group_id (fst e))"
      using that by (simp add: table_pending_oput)
    moreover have "table_pending (odel group_id (fst e)) + pending_requests g = table_pending (fst e)"
    proof (cases "oget (fst e) group_id")
      case None
      then show ?thesis by (simp add: g_def loaded_ok om.del_absent)
    next
      case (Some h)
      with osum_split [OF Some, of "\<lambda>_. pending_requests"] show ?thesis
        by (simp add: table_pending_def osum_def g_def ac_simps)
    qed
    ultimately show ?thesis by simp
  qed
  have reload: "groups_ok (oput group_id h (oput group_id g (fst e))) \<and>
      table_pending (oput group_id h (oput group_id g (fst e))) + (answered (snd e) + answered b) = table_pending groups"
    if "reload_group g epoch log now = Inr (h, b)" "g_loaded_epoch g \<noteq> epoch" for epoch log h b
  proof -
    have h: "group_ok h" "pending_requests h = {#}" "answered b = pending_requests g"
      using that loaded_ok unload_pending [of g]
      by (auto simp: reload_group_def case_prod_unfold Let_def split: sum.splits)
    have "oput group_id h (oput group_id g (fst e)) = oput group_id h (fst e)"
      by (rule omap_eqI) simp
    with put [OF h(1)] changed [OF h(2)] h(3) e(2) show ?thesis
      by simp (metis add.assoc add.commute)
  qed
  show ?thesis
    using ok e put [OF gok] same reload
    unfolding local_group_def e_def [symmetric] case_prod_unfold Let_def g_def [symmetric]
    by (auto split: sum.splits option.splits)
qed

lemma osize_oput_cases: "osize (oput k v m) \<le> (if ohas m k then osize m else Suc (osize m))"
proof -
  have "length (al_put k v xs) \<le> Suc (length xs)" for xs
    by (induction k v xs rule: al_put.induct) auto
  moreover have "length (al_put k v xs) = length xs" if "k \<in> fst ` set xs" "sorted_wrt (<) (map fst xs)" for xs
    using that by (induction k v xs rule: al_put.induct) force+
  ultimately show ?thesis
    using om.sorted_entries [of m] okeys_iff [of k m] by auto
qed

lemma local_group_room:
  assumes "osize groups \<le> max_groups"
  shows "osize (fst (local_group io locked max_groups groups group_id create now)) \<le> max_groups"
proof -
  define e where "e = (if ohas groups group_id then (groups, []) else evict_idle_groups locked groups now max_groups)"
  have e: "osize (fst e) \<le> max_groups"
    using assms evict_room [of locked groups now max_groups] by (simp add: e_def)
  have put: "osize (oput group_id g (fst e)) \<le> max_groups" if "\<not> (\<not> ohas (fst e) group_id \<and> max_groups \<le> osize (fst e))" for g
    using that e osize_oput_cases [of group_id g "fst e"] by (auto split: if_splits)
  have again: "oput group_id h (oput group_id g (fst e)) = oput group_id h (fst e)" for g h
    by (rule omap_eqI) simp
  show ?thesis
    using assms e put
    unfolding local_group_def e_def [symmetric] case_prod_unfold Let_def
    by (auto simp: again simp del: oentries_eval split: sum.splits option.splits)
qed

text \<open>
  C38. The table of loaded groups loses no request and stays within its limit: finding, creating, reloading or
  evicting groups, whatever the log service answers, leaves every group well formed, answers exactly the requests
  that no longer wait in the table, and never holds more groups than the limit.
\<close>

theorem coordinator_keeps_requests:
  assumes "groups_ok groups" and "osize groups \<le> max_groups"
  shows "groups_ok (fst (local_group io locked max_groups groups group_id create now)) \<and>
    table_pending (fst (local_group io locked max_groups groups group_id create now)) +
      answered (fst (snd (local_group io locked max_groups groups group_id create now))) = table_pending groups \<and>
    osize (fst (local_group io locked max_groups groups group_id create now)) \<le> max_groups"
  using local_group_ok [OF assms(1), of io locked max_groups group_id create now]
    local_group_room [OF assms(2), of io locked group_id create now] by blast

definition sample_groups :: groups where
  "sample_groups = oput ''old'' (loaded 1 oempty 0 0) oempty"

definition sample_local_io :: local_io where
  "sample_local_io = \<lparr>li_create = True, li_stream = Inr True, li_owner = Some (True, True), li_epoch = Some 1, li_log = Some []\<rparr>"

text \<open>With room for one group, a new group takes the place of one that has been idle.\<close>

lemma sample_evicts:
  "\<not> ohas (fst (local_group sample_local_io (\<lambda>_. False) 1 sample_groups ''g'' True 400000)) ''old''"
  by (simp add: local_group_def sample_local_io_def sample_groups_def validate_group_id_def max_group_id_bytes_def
    evict_idle_groups_def expire_members_def loaded_def idle_since_def idle_group_ttl_def omap_eval Let_def reload_group_def
    split: sum.split)

theorem coordinator_keeps_requests_witness:
  "groups_ok (fst (local_group sample_local_io (\<lambda>_. False) 1 sample_groups ''g'' True 400000)) \<and>
   osize (fst (local_group sample_local_io (\<lambda>_. False) 1 sample_groups ''g'' True 400000)) \<le> 1"
proof -
  have "groups_ok sample_groups" "osize sample_groups \<le> 1"
    by (simp_all add: groups_ok_def sample_groups_def loaded_ok)
  from coordinator_keeps_requests [OF this, of sample_local_io "\<lambda>_. False" "''g''" True 400000] show ?thesis by blast
qed

end
