(* ===== verification/Srv_Varint.thy ===== *)
theory Srv_Varint
  imports Wire_Be
begin

text \<open>
  The variable-length integers of Kafka records, \<^verbatim>\<open>pico-server/src/record.rs\<close>: seven bits a byte,
  least significant first, with a continuation bit; signed values are zigzag-coded before.
\<close>

unbundle bit_operations_syntax

datatype record_error = Truncated | BadMagic u8 | EmptyBatch | BadCrc | DecodeError

section \<open>Unsigned\<close>

function put_unsigned_varint :: "u64 \<Rightarrow> bytes" where
  "put_unsigned_varint v =
    (if v \<ge> 0x80 then (ucast v AND 0x7F OR 0x80) # put_unsigned_varint (drop_bit 7 v) else [ucast v])"
  by pat_completeness auto
termination
proof (relation "measure unat")
  fix v :: u64 assume "0x80 \<le> v"
  then have "0 < unat v" by (simp add: word_le_nat_alt)
  moreover have "unat (drop_bit 7 v) = unat v div 2 ^ 7"
    by (simp only: unat_drop_bit_eq) (simp only: drop_bit_eq_div)
  ultimately show "(drop_bit 7 v, v) \<in> measure unat"
    by (simp only: in_measure) simp
qed simp

declare put_unsigned_varint.simps [simp del]

fun get_uvarint_loop :: "nat \<Rightarrow> nat \<Rightarrow> u64 \<Rightarrow> (record_error, u64) get" where
  "get_uvarint_loop 0 index value bs = Inl DecodeError"
| "get_uvarint_loop (Suc n) index value bs =
    (case bs of
       [] \<Rightarrow> Inl Truncated
     | byte # bs \<Rightarrow>
         (let value = value OR push_bit (7 * index) (ucast (byte AND 0x7F))
          in if byte AND 0x80 = 0 then Inr (value, bs) else get_uvarint_loop n (Suc index) value bs))"

definition get_unsigned_varint :: "nat \<Rightarrow> (record_error, u64) get" where
  "get_unsigned_varint max_bytes = get_uvarint_loop max_bytes 0 0"

text \<open>The masks as operations on bits.\<close>

lemma and_7F: "(w :: 'a::len word) AND 0x7F = take_bit 7 w"
  by (simp add: take_bit_eq_mask mask_eq_exp_minus_1)

lemma or_80: "(w :: 'a::len word) OR 0x80 = set_bit 7 w"
  by (simp add: set_bit_eq_or push_bit_eq_mult)

lemma and_80: "(w :: 'a::len word) AND 0x80 = 0 \<longleftrightarrow> \<not> bit w 7"
  using bit_iff_and_push_bit_not_eq_0 [of w 7] by (simp add: push_bit_eq_mult)

lemma varint_byte:
  fixes v :: u64
  shows "(ucast v AND 0x7F OR 0x80 :: u8) AND 0x80 \<noteq> 0"
    and "ucast ((ucast v AND 0x7F OR 0x80 :: u8) AND 0x7F) = v AND 0x7F"
  unfolding and_7F or_80 and_80
  by (simp add: bit_simps) (rule bit_word_eqI, auto simp: bit_simps)

lemma small_bits:
  fixes v :: u64
  assumes "\<not> 0x80 \<le> v" and "bit v n"
  shows "n < 7"
proof (rule ccontr)
  assume "\<not> n < 7"
  then have "(2 :: nat) ^ 7 \<le> 2 ^ n" by (intro power_increasing) simp_all
  moreover have "unat v < 2 ^ 7" using assms(1) by (simp add: word_le_nat_alt)
  ultimately have "unat v div 2 ^ n = 0" by simp
  moreover have "bit (unat v) n" using assms(2) by (simp add: bit_unsigned_iff)
  ultimately show False by (simp add: bit_iff_odd)
qed

lemma varint_last:
  fixes v :: u64
  assumes "\<not> 0x80 \<le> v"
  shows "(ucast v :: u8) AND 0x80 = 0" and "ucast ((ucast v :: u8) AND 0x7F) = v"
proof -
  show "(ucast v :: u8) AND 0x80 = 0"
    unfolding and_80 using small_bits [OF assms, of 7] by (auto simp: bit_simps)
  show "ucast ((ucast v :: u8) AND 0x7F) = v"
    unfolding and_7F
  proof (rule bit_word_eqI)
    fix n assume "n < LENGTH(64)"
    show "bit (ucast (take_bit 7 (ucast v :: u8)) :: u64) n = bit v n"
      using small_bits [OF assms, of n] by (auto simp: bit_simps)
  qed
qed

lemma varint_split:
  fixes v :: u64
  shows "push_bit i (v AND 0x7F) OR push_bit (i + 7) (drop_bit 7 v) = push_bit i v"
  unfolding and_7F
proof (rule bit_word_eqI)
  fix n assume "n < LENGTH(64)"
  show "bit (push_bit i (take_bit 7 v) OR push_bit (i + 7) (drop_bit 7 v)) n = bit (push_bit i v) n"
  proof (cases "i + 7 \<le> n")
    case True
    then have "7 + (n - (i + 7)) = n - i" by simp
    with True show ?thesis by (auto simp: bit_simps)
  next
    case False
    then show ?thesis by (auto simp: bit_simps)
  qed
qed

lemma varint_shift:
  fixes v :: u64
  assumes "0x80 \<le> v" and "unat v < 2 ^ (7 * Suc m)"
  shows "0 < m" and "unat (drop_bit 7 v) < 2 ^ (7 * m)"
proof -
  have big: "2 ^ 7 \<le> unat v" using assms(1) by (simp add: word_le_nat_alt)
  show "0 < m"
  proof (rule ccontr)
    assume "\<not> 0 < m"
    with assms(2) big show False by simp
  qed
  have "unat v < 2 ^ (7 * m) * 2 ^ 7" using assms(2) by (simp add: power_add)
  then show "unat (drop_bit 7 v) < 2 ^ (7 * m)"
    unfolding unat_drop_bit_eq by (simp only: drop_bit_eq_div less_mult_imp_div_less)
qed

lemma get_put_uvarint_loop:
  assumes "unat v < 2 ^ (7 * n)" and "0 < n"
  shows "get_uvarint_loop n index acc (put_unsigned_varint v @ rest) = Inr (acc OR push_bit (7 * index) v, rest)"
  using assms
proof (induction v arbitrary: n index acc rule: put_unsigned_varint.induct)
  case (1 v)
  then obtain m where n: "n = Suc m" by (cases n) simp_all
  show ?case
  proof (cases "0x80 \<le> v")
    case True
    with "1.prems" n have "0 < m" "unat (drop_bit 7 v) < 2 ^ (7 * m)" by (auto simp only: varint_shift)
    then have "get_uvarint_loop m (Suc index) w (put_unsigned_varint (drop_bit 7 v) @ rest) =
        Inr (w OR push_bit (7 * Suc index) (drop_bit 7 v), rest)" for w
      using "1.IH" [OF True] by blast
    moreover have "push_bit (7 * index) (v AND 0x7F) OR push_bit (7 * Suc index) (drop_bit 7 v) = push_bit (7 * index) v"
      using varint_split [of "7 * index" v] by (simp add: add.commute)
    ultimately show ?thesis
      unfolding put_unsigned_varint.simps [of v] n
      using True by (simp only: if_True append_Cons get_uvarint_loop.simps list.case Let_def varint_byte if_False or.assoc)
  next
    case False
    then show ?thesis
      unfolding put_unsigned_varint.simps [of v] n
      by (simp only: if_False append_Cons append_Nil get_uvarint_loop.simps list.case Let_def varint_last if_True simp_thms)
  qed
qed

lemma get_put_unsigned_varint:
  "unat v < 2 ^ (7 * n) \<Longrightarrow> 0 < n \<Longrightarrow> get_unsigned_varint n (put_unsigned_varint v @ rest) = Inr (v, rest)"
  by (simp add: get_unsigned_varint_def get_put_uvarint_loop)

lemma length_uvarint: "unat v < 2 ^ (7 * n) \<Longrightarrow> 0 < n \<Longrightarrow> length (put_unsigned_varint v) \<le> n"
proof (induction v arbitrary: n rule: put_unsigned_varint.induct)
  case (1 v)
  then obtain m where n: "n = Suc m" by (cases n) simp_all
  show ?case
  proof (cases "0x80 \<le> v")
    case True
    with "1.prems" n have "0 < m" "unat (drop_bit 7 v) < 2 ^ (7 * m)" by (auto simp only: varint_shift)
    then show ?thesis
      unfolding put_unsigned_varint.simps [of v] n using "1.IH" [OF True] True by simp
  qed (use "1.prems" in \<open>simp add: put_unsigned_varint.simps [of v]\<close>)
qed

section \<open>Signed\<close>

definition put_varint :: "i32 \<Rightarrow> bytes" where
  "put_varint x = put_unsigned_varint (ucast (push_bit 1 (sbits x) XOR signed_drop_bit 31 (sbits x)))"

definition put_varlong :: "i64 \<Rightarrow> bytes" where
  "put_varlong x = put_unsigned_varint (push_bit 1 (sbits x) XOR signed_drop_bit 63 (sbits x))"

definition get_varint :: "(record_error, i32) get" where
  "get_varint = gbind (get_unsigned_varint 5) (\<lambda>raw.
    let raw = ucast raw :: u32 in gret (SW (drop_bit 1 raw XOR - (raw AND 1))))"

definition get_varlong :: "(record_error, i64) get" where
  "get_varlong = gbind (get_unsigned_varint 10) (\<lambda>raw. gret (SW (drop_bit 1 raw XOR - (raw AND 1))))"

lemma zigzag:
  fixes w :: "'a::len word"
  assumes "LENGTH('a) = Suc k"
  defines "raw \<equiv> push_bit 1 w XOR signed_drop_bit k w"
  shows "drop_bit 1 raw XOR - (raw AND 1) = w"
proof -
  have sgn: "bit (signed_drop_bit k w) n \<longleftrightarrow> n < LENGTH('a) \<and> bit w k" for n
  proof (cases "n = 0 \<or> n < LENGTH('a)")
    case True
    then show ?thesis using assms(1) by (auto simp: bit_signed_drop_bit_iff Suc_le_eq)
  next
    case False
    then have "\<not> bit (signed_drop_bit k w) n" using bit_imp_le_length by blast
    with False show ?thesis by simp
  qed
  have "bit raw 0 \<longleftrightarrow> bit w k"
    by (simp only: raw_def bit_xor_iff bit_push_bit_iff sgn) simp
  then have one: "raw AND 1 = (if bit w k then 1 else 0)"
    by (auto simp: and_one_eq bit_0 odd_iff_mod_2_eq_one)
  have "bit (- (raw AND 1)) n \<longleftrightarrow> n < LENGTH('a) \<and> bit w k" for n
    by (simp add: one bit_minus_1_iff possible_bit_word)
  note neg = this
  show ?thesis
  proof (rule bit_word_eqI)
    fix n assume n: "n < LENGTH('a)"
    have "bit (drop_bit 1 raw) n \<longleftrightarrow> n < k \<and> (bit w n \<noteq> bit w k)"
      using n assms(1) by (auto simp: raw_def bit_drop_bit_eq bit_xor_iff bit_push_bit_iff sgn possible_bit_word
        simp del: push_bit_Suc)
    then show "bit (drop_bit 1 raw XOR - (raw AND 1)) n = bit w n"
      using n assms(1) by (cases "n = k") (auto simp: bit_xor_iff neg)
  qed
qed

lemma get_put_varint [simp]: "get_varint (put_varint x @ rest) = Inr (x, rest)"
proof -
  let ?raw = "push_bit 1 (sbits x) XOR signed_drop_bit 31 (sbits x)"
  have "unat ?raw < 2 ^ 32" using unsigned_less [of ?raw, where ?'a = nat] by simp
  then have "unat (ucast ?raw :: u64) < 2 ^ (7 * 5)"
    by (simp add: unsigned_ucast_eq take_bit_nat_eq_self)
  then have "get_unsigned_varint 5 (put_varint x @ rest) = Inr (ucast ?raw, rest)"
    unfolding put_varint_def by (rule get_put_unsigned_varint) simp
  moreover have "ucast (ucast ?raw :: u64) = ?raw"
    by (rule bit_word_eqI) (auto simp: bit_simps)
  ultimately show ?thesis
    using zigzag [of 31 "sbits x"] by (simp add: get_varint_def gsimps Let_def)
qed

lemma get_put_varlong [simp]: "get_varlong (put_varlong x @ rest) = Inr (x, rest)"
proof -
  let ?raw = "push_bit 1 (sbits x) XOR signed_drop_bit 63 (sbits x)"
  have "unat ?raw < 2 ^ (7 * 10)"
    using unsigned_less [of ?raw, where ?'a = nat] by simp
  then have "get_unsigned_varint 10 (put_varlong x @ rest) = Inr (?raw, rest)"
    unfolding put_varlong_def by (rule get_put_unsigned_varint) simp
  then show ?thesis
    using zigzag [of 63 "sbits x"] by (simp add: get_varlong_def gsimps)
qed

lemma length_varint: "length (put_varint x) \<le> 10" "length (put_varlong y) \<le> 10"
proof -
  have "length (put_unsigned_varint v) \<le> 10" for v
    using length_uvarint [of v 10] unsigned_less [of v, where ?'a = nat] by simp
  then show "length (put_varint x) \<le> 10" "length (put_varlong y) \<le> 10"
    by (simp_all add: put_varint_def put_varlong_def)
qed

end
