(* ===== verification/Srv_Record.thy ===== *)
theory Srv_Record
  imports Srv_Varint
begin

text \<open>
  Record batches, \<^verbatim>\<open>pico-server/src/record.rs\<close>: the Kafka format of version 2. The checksum and the
  decompressors are third-party code and arguments here: \<open>crc\<close> for \<^verbatim>\<open>crc32c\<close>, and
  \<open>decompress\<close> from a compression code other than 0 and a section to its contents. Positions in a batch are
  written as in the code; \<open>be_at\<close> reads a big-endian number at a position.
\<close>

section \<open>Data\<close>

record log_record =
  lr_timestamp_ms :: i64
  lr_key :: "bytes option"
  lr_value :: "bytes option"
  lr_headers :: "(string \<times> bytes option) list"

record stream_record =
  sr_offset :: u64
  sr_record :: log_record

record numeric_producer =
  np_id :: i64
  np_epoch :: i16
  np_first_seq :: i32

record batch_header =
  bh_base_offset :: u64
  bh_leader_epoch :: i32
  bh_record_count :: u32
  bh_first_timestamp_ms :: i64
  bh_max_timestamp_ms :: i64
  bh_compression :: "16 word"
  bh_log_append_time :: bool
  bh_transactional_or_control :: bool
  bh_producer :: "numeric_producer option"
  bh_len :: nat

definition batch_header_prefix :: nat where "batch_header_prefix = 12"
definition batch_header_len :: nat where "batch_header_len = 61"
definition magic_v2 :: u8 where "magic_v2 = 2"
definition attr_compression :: "16 word" where "attr_compression = 0x07"
definition attr_log_append_time :: "16 word" where "attr_log_append_time = 0x08"
definition attr_transactional :: "16 word" where "attr_transactional = 0x10"
definition attr_control :: "16 word" where "attr_control = 0x20"

definition size_hint :: "log_record \<Rightarrow> nat" where
  "size_hint r = (case lr_key r of None \<Rightarrow> 0 | Some k \<Rightarrow> length k) + (case lr_value r of None \<Rightarrow> 0 | Some v \<Rightarrow> length v) +
    (\<Sum>(name, v) \<leftarrow> lr_headers r. length name + (case v of None \<Rightarrow> 0 | Some v \<Rightarrow> length v))"

definition leader_epoch :: "u64 \<Rightarrow> i32" where
  "leader_epoch e = (if unat e < 2 ^ 31 then SW (ucast e) else SW 0x7FFFFFFF)"

section \<open>Writing\<close>

definition put_nullable :: "bytes option \<Rightarrow> bytes" where
  "put_nullable v = (case v of Some b \<Rightarrow> put_varint (of_nat (length b)) @ b | None \<Rightarrow> put_varint (-1))"

definition put_record_header :: "string \<times> bytes option \<Rightarrow> bytes" where
  "put_record_header = (\<lambda>(name, v). put_varint (of_nat (length name)) @ str_bytes name @ put_nullable v)"

definition record_body :: "i32 \<Rightarrow> log_record \<Rightarrow> bytes" where
  "record_body offset_delta r =
    put_u8_be 0 @ put_varlong 0 @ put_varint offset_delta @ put_nullable (lr_key r) @ put_nullable (lr_value r) @
    put_varint (of_nat (length (lr_headers r))) @ concat (map put_record_header (lr_headers r))"

definition put_record :: "i32 \<Rightarrow> log_record \<Rightarrow> bytes" where
  "put_record offset_delta r = (let body = record_body offset_delta r in put_varint (of_nat (length body)) @ body)"

definition put_producer :: "numeric_producer option \<Rightarrow> bytes" where
  "put_producer p = (case p of
     Some p \<Rightarrow> put_i64_be (np_id p) @ put_i16_be (np_epoch p) @ put_i32_be (np_first_seq p)
   | None \<Rightarrow> put_i64_be (-1) @ put_i16_be (-1) @ put_i32_be (-1))"

definition put_records :: "log_record list \<Rightarrow> bytes" where
  "put_records records = concat (map (\<lambda>(delta, r). put_record (of_nat delta) r) (enumerate 0 records))"

text \<open>The part of a batch its checksum covers, from position 21 on.\<close>

definition batch_tail :: "i64 \<Rightarrow> numeric_producer option \<Rightarrow> log_record list \<Rightarrow> bytes" where
  "batch_tail timestamp_ms producer records =
    put_i16_be (SW attr_log_append_time) @ put_i32_be (of_nat (length records) - 1) @
    put_i64_be timestamp_ms @ put_i64_be timestamp_ms @ put_producer producer @
    put_i32_be (of_nat (length records)) @ put_records records"

definition encode_batch :: "(bytes \<Rightarrow> u32) \<Rightarrow> u64 \<Rightarrow> i32 \<Rightarrow> i64 \<Rightarrow> numeric_producer option \<Rightarrow> log_record list \<Rightarrow> bytes option"
  where
  "encode_batch crc base_offset epoch timestamp_ms producer records =
    (if records = [] then None
     else
       (let tail = batch_tail timestamp_ms producer records
        in Some (put_i64_be (SW base_offset) @ put_i32_be (of_nat (21 + length tail - batch_header_prefix)) @
             put_i32_be epoch @ put_u8_be magic_v2 @ put_u32_be (crc tail) @ tail)))"

section \<open>Reading\<close>

definition be_at :: "bytes \<Rightarrow> nat \<Rightarrow> nat \<Rightarrow> nat" where
  "be_at bs pos k = le_value (rev (take k (drop pos bs)))"

definition parse_batch_header :: "bytes \<Rightarrow> record_error + batch_header" where
  "parse_batch_header payload =
    (if length payload < batch_header_len then Inl Truncated
     else if payload ! 16 \<noteq> magic_v2 then Inl (BadMagic (payload ! 16))
     else
       (let base_offset = SW (of_nat (be_at payload 0 8)) :: i64;
            batch_length = SW (of_nat (be_at payload 8 4)) :: i32;
            epoch = SW (of_nat (be_at payload 12 4)) :: i32
        in if batch_length < 0 then Inl Truncated
           else
             (let len = batch_header_prefix + unat (sbits batch_length)
              in if len > length payload then Inl Truncated
                 else
                   (let attributes = of_nat (be_at payload 21 2) :: 16 word;
                        producer_id = SW (of_nat (be_at payload 43 8)) :: i64;
                        base_sequence = SW (of_nat (be_at payload 53 4)) :: i32;
                        record_count = SW (of_nat (be_at payload 57 4)) :: i32
                    in if record_count \<le> 0 then Inl EmptyBatch
                       else Inr \<lparr>bh_base_offset = sbits (max base_offset 0), bh_leader_epoch = epoch,
                         bh_record_count = sbits record_count,
                         bh_first_timestamp_ms = SW (of_nat (be_at payload 27 8)),
                         bh_max_timestamp_ms = SW (of_nat (be_at payload 35 8)),
                         bh_compression = attributes AND attr_compression,
                         bh_log_append_time = (attributes AND attr_log_append_time \<noteq> 0),
                         bh_transactional_or_control = (attributes AND (attr_transactional OR attr_control) \<noteq> 0),
                         bh_producer = (if producer_id \<ge> 0 \<and> base_sequence \<ge> 0
                           then Some \<lparr>np_id = producer_id, np_epoch = SW (of_nat (be_at payload 51 2)),
                             np_first_seq = base_sequence\<rparr> else None),
                         bh_len = len\<rparr>))))"

definition verify_crc :: "(bytes \<Rightarrow> u32) \<Rightarrow> bytes \<Rightarrow> record_error + unit" where
  "verify_crc crc batch =
    (if length batch < batch_header_len then Inl Truncated
     else if crc (drop 21 batch) \<noteq> of_nat (be_at batch 17 4) then Inl BadCrc
     else Inr ())"

definition stamp :: "bytes \<Rightarrow> nat \<Rightarrow> u64 \<Rightarrow> i32 \<Rightarrow> bytes" where
  "stamp payload at base_offset epoch =
    take at payload @ put_i64_be (SW base_offset) @ take 4 (drop (at + 8) payload) @ put_i32_be epoch @ drop (at + 16) payload"

lemma parse_len_pos: "parse_batch_header bs = Inr h \<Longrightarrow> 12 \<le> bh_len h \<and> bh_len h \<le> length bs"
  by (auto simp: parse_batch_header_def Let_def batch_header_prefix_def split: if_splits)

function batch_headers :: "bytes \<Rightarrow> record_error + batch_header list" where
  "batch_headers payload =
    (if payload = [] then Inr []
     else case parse_batch_header payload of
       Inl e \<Rightarrow> Inl e
     | Inr h \<Rightarrow> rbind (batch_headers (drop (bh_len h) payload)) (\<lambda>hs. Inr (h # hs)))"
  by pat_completeness auto
termination
  by (relation "measure length") (auto dest: parse_len_pos)

declare batch_headers.simps [simp del]

definition split_to :: "nat \<Rightarrow> (record_error, bytes) get" where
  "split_to n bs = (if n > length bs then Inl Truncated else Inr (take n bs, drop n bs))"

definition get_nullable :: "(record_error, bytes option) get" where
  "get_nullable = gbind get_varint (\<lambda>n. if n < 0 then gret None
    else gbind (split_to (unat (sbits n))) (\<lambda>b. gret (Some b)))"

definition get_record_header :: "(record_error, string \<times> bytes option) get" where
  "get_record_header = gbind get_nullable (\<lambda>name.
    case name of
      None \<Rightarrow> gfail DecodeError
    | Some name \<Rightarrow> if \<not> utf8 name then gfail DecodeError
        else gbind get_nullable (\<lambda>v. gret (bytes_str name, v)))"

definition get_attributes :: "(record_error, u8) get" where
  "get_attributes = get_u8_be Truncated"

definition get_record_body :: "batch_header \<Rightarrow> (record_error, stream_record) get" where
  "get_record_body batch =
    gbind get_attributes (\<lambda>_. gbind get_varlong (\<lambda>timestamp_delta. gbind get_varint (\<lambda>offset_delta.
      if offset_delta < 0 then gfail DecodeError
      else gbind get_nullable (\<lambda>key. gbind get_nullable (\<lambda>v. gbind get_varint (\<lambda>header_count.
        gbind (get_many (if header_count < 0 then 0 else unat (sbits header_count)) get_record_header) (\<lambda>headers.
          gret \<lparr>sr_offset = bh_base_offset batch + ucast (sbits offset_delta),
            sr_record = \<lparr>lr_timestamp_ms = (if bh_log_append_time batch then bh_max_timestamp_ms batch
                else bh_first_timestamp_ms batch + timestamp_delta),
              lr_key = key, lr_value = v, lr_headers = headers\<rparr>\<rparr>)))))))"

definition get_record :: "batch_header \<Rightarrow> (record_error, stream_record) get" where
  "get_record batch = gbind get_varint (\<lambda>n. if n < 0 then gfail DecodeError
    else gbind (split_to (unat (sbits n))) (\<lambda>encoded rest. rbind (get_record_body batch encoded) (\<lambda>(r, _). Inr (r, rest))))"

definition decode_records :: "batch_header \<Rightarrow> bytes \<Rightarrow> record_error + stream_record list" where
  "decode_records batch bs = rbind (get_many (unat (bh_record_count batch)) (get_record batch) bs) (\<lambda>(rs, _). Inr rs)"

definition decode_section :: "(16 word \<Rightarrow> bytes \<Rightarrow> bytes option) \<Rightarrow> batch_header \<Rightarrow> bytes \<Rightarrow> record_error + stream_record list" where
  "decode_section decompress batch section =
    (if bh_compression batch = 0 then decode_records batch section
     else if bh_compression batch > 4 then Inl DecodeError
     else case decompress (bh_compression batch) section of
       None \<Rightarrow> Inl DecodeError
     | Some bs \<Rightarrow> decode_records batch bs)"

function decode_batches :: "(bytes \<Rightarrow> u32) \<Rightarrow> (16 word \<Rightarrow> bytes \<Rightarrow> bytes option) \<Rightarrow> bytes \<Rightarrow> record_error + stream_record list" where
  "decode_batches crc decompress payload =
    (if payload = [] then Inr []
     else case parse_batch_header payload of
       Inl e \<Rightarrow> Inl e
     | Inr h \<Rightarrow>
         rbind (verify_crc crc (take (bh_len h) payload)) (\<lambda>_.
           rbind (decode_section decompress h (drop batch_header_len (take (bh_len h) payload))) (\<lambda>rs.
             rbind (decode_batches crc decompress (drop (bh_len h) payload)) (\<lambda>more. Inr (rs @ more)))))"
  by pat_completeness auto
termination
  by (relation "measure (\<lambda>(_, _, payload). length payload)") (auto dest: parse_len_pos)

declare decode_batches.simps [simp del]

section \<open>Round trips\<close>

lemma be_lengths [simp]:
  "length (put_u8_be a) = 1" "length (put_u32_be b) = 4" "length (put_u64_be c) = 8" "length (put_i16_be d) = 2"
  "length (put_i32_be e) = 4" "length (put_i64_be f) = 8"
  by (simp_all add: put_u8_be_def put_u32_be_def put_u64_be_def put_i16_be_def put_i32_be_def put_i64_be_def)

lemma be_values [simp]:
  "le_value (rev (put_u8_be a)) = unat a" "le_value (rev (put_u32_be b)) = unat b" "le_value (rev (put_u64_be c)) = unat c"
  "le_value (rev (put_i16_be d)) = unat (sbits d)" "le_value (rev (put_i32_be e)) = unat (sbits e)"
  "le_value (rev (put_i64_be f)) = unat (sbits f)"
  by (simp_all only: put_u8_be_def put_u32_be_def put_u64_be_def put_i16_be_def put_i32_be_def put_i64_be_def be_bytes_def
    rev_rev_ident le_value_bytes unat_bounds mod_less)

lemma sint_length: "n < 2 ^ 31 \<Longrightarrow> sint (of_nat n :: u32) = int n"
  by (simp add: signed_of_nat signed_take_bit_int_eq_self)

lemma i32_length:
  assumes "n < 2 ^ 31"
  shows "\<not> (of_nat n :: i32) < 0" and "unat (sbits (of_nat n :: i32)) = n"
  using assms by (simp_all add: sword_eval sint_length unat_of_nat del: of_nat_mod)

lemma i32_minus_one: "(-1 :: i32) < 0"
  by (simp add: sword_eval)

definition bytes_ok :: "bytes option \<Rightarrow> bool" where
  "bytes_ok v \<longleftrightarrow> (case v of None \<Rightarrow> True | Some b \<Rightarrow> length b < 2 ^ 31)"

lemma get_put_nullable: "bytes_ok v \<Longrightarrow> get_nullable (put_nullable v @ rest) = Inr (v, rest)"
  by (cases v) (simp_all add: get_nullable_def put_nullable_def bytes_ok_def gsimps i32_length i32_minus_one split_to_def
    del: sbits_of_nat)

definition record_header_ok :: "string \<times> bytes option \<Rightarrow> bool" where
  "record_header_ok h \<longleftrightarrow> length (fst h) < 2 ^ 31 \<and> utf8 (str_bytes (fst h)) \<and> bytes_ok (snd h)"

lemma get_put_name:
  assumes "length name < 2 ^ 31"
  shows "get_nullable (put_varint (of_nat (length name)) @ str_bytes name @ rest) = Inr (Some (str_bytes name), rest)"
  using get_put_nullable [of "Some (str_bytes name)" rest] assms by (simp add: put_nullable_def bytes_ok_def)

interpretation wire_record_header: wire_codec put_record_header get_record_header record_header_ok
  by unfold_locales
    (auto simp: put_record_header_def get_record_header_def record_header_ok_def gsimps get_put_name get_put_nullable)

definition record_ok :: "log_record \<Rightarrow> bool" where
  "record_ok r \<longleftrightarrow> bytes_ok (lr_key r) \<and> bytes_ok (lr_value r) \<and> list_all record_header_ok (lr_headers r) \<and>
    length (lr_headers r) < 2 ^ 31 \<and> (\<forall>delta. length (record_body delta r) < 2 ^ 31)"

definition stamped_record :: "batch_header \<Rightarrow> nat \<Rightarrow> log_record \<Rightarrow> stream_record" where
  "stamped_record batch delta r = \<lparr>sr_offset = bh_base_offset batch + of_nat delta,
    sr_record = r\<lparr>lr_timestamp_ms := bh_max_timestamp_ms batch\<rparr>\<rparr>"

lemma get_put_record_body:
  assumes ok: "record_ok r" and delta: "delta < 2 ^ 31" and time: "bh_log_append_time batch"
  shows "get_record_body batch (record_body (of_nat delta) r) = Inr (stamped_record batch delta r, [])"
proof -
  have headers: "get_many (length (lr_headers r)) get_record_header (concat (map put_record_header (lr_headers r))) =
      Inr (lr_headers r, [])"
    using wire_record_header.get_many_put [of "lr_headers r" "[]"] ok by (simp add: record_ok_def list_all_iff)
  have "ucast (of_nat delta :: u32) = (of_nat delta :: u64)"
    using delta by (simp add: word_eq_iff_unsigned unsigned_ucast_eq unsigned_of_nat take_bit_nat_eq_self)
  with ok delta time headers show ?thesis
    by (simp add: get_record_body_def record_body_def get_attributes_def gsimps get_put_nullable i32_length stamped_record_def
      record_ok_def del: sbits_of_nat) (simp add: sbits_of_nat)
qed

lemma get_put_record:
  assumes ok: "record_ok r" and delta: "delta < 2 ^ 31" and time: "bh_log_append_time batch"
  shows "get_record batch (put_record (of_nat delta) r @ rest) = Inr (stamped_record batch delta r, rest)"
proof -
  have "length (record_body (of_nat delta) r) < 2 ^ 31"
    using ok by (simp add: record_ok_def)
  then show ?thesis
    by (simp add: get_record_def put_record_def Let_def gsimps i32_length split_to_def get_put_record_body [OF assms]
      del: sbits_of_nat)
qed

lemma get_put_records:
  assumes "list_all record_ok rs" and "n + length rs \<le> 2 ^ 31" and "bh_log_append_time batch"
  shows "get_many (length rs) (get_record batch) (concat (map (\<lambda>(delta, r). put_record (of_nat delta) r) (enumerate n rs)) @ rest) =
    Inr (map (\<lambda>(delta, r). stamped_record batch delta r) (enumerate n rs), rest)"
  using assms
proof (induction rs arbitrary: n)
  case (Cons r rs)
  then show ?case
    using Cons.IH [of "Suc n"] by (simp add: gsimps get_put_record)
qed (simp add: gsimps)

text \<open>A batch laid out field by field; \<open>encode_batch\<close> and \<open>stamp\<close> both produce this form.\<close>

definition lay_batch :: "(bytes \<Rightarrow> u32) \<Rightarrow> u64 \<Rightarrow> i32 \<Rightarrow> bytes \<Rightarrow> bytes" where
  "lay_batch crc base_offset epoch tail =
    put_i64_be (SW base_offset) @ put_i32_be (of_nat (21 + length tail - batch_header_prefix)) @
    put_i32_be epoch @ put_u8_be magic_v2 @ put_u32_be (crc tail) @ tail"

lemma encode_batch_lay:
  "encode_batch crc base_offset epoch ts producer records =
    (if records = [] then None else Some (lay_batch crc base_offset epoch (batch_tail ts producer records)))"
  by (simp add: encode_batch_def lay_batch_def Let_def)

lemma length_lay [simp]: "length (lay_batch crc base_offset epoch tail) = 21 + length tail"
  by (simp add: lay_batch_def)

lemma lay_nonempty [simp]: "lay_batch crc base_offset epoch tail \<noteq> []"
  using length_lay [of crc base_offset epoch tail] by (metis list.size(3) add_is_0 zero_neq_numeral)

lemma stamp_lay:
  "stamp (pre @ lay_batch crc base_offset epoch tail @ rest) (length pre) base_offset' epoch' =
    pre @ lay_batch crc base_offset' epoch' tail @ rest"
  by (simp add: stamp_def lay_batch_def)

lemma verify_lay: "40 \<le> length tail \<Longrightarrow> verify_crc crc (lay_batch crc base_offset epoch tail) = Inr ()"
  by (simp add: verify_crc_def lay_batch_def batch_header_len_def be_at_def)

lemma length_put_producer [simp]: "length (put_producer p) = 14"
  by (simp add: put_producer_def split: option.split)

lemma length_batch_tail: "length (batch_tail ts producer records) = 40 + length (put_records records)"
  by (simp add: batch_tail_def)

definition written_header :: "u64 \<Rightarrow> i32 \<Rightarrow> i64 \<Rightarrow> numeric_producer option \<Rightarrow> log_record list \<Rightarrow> batch_header" where
  "written_header base_offset epoch ts producer records =
    \<lparr>bh_base_offset = base_offset, bh_leader_epoch = epoch, bh_record_count = of_nat (length records),
     bh_first_timestamp_ms = ts, bh_max_timestamp_ms = ts, bh_compression = 0, bh_log_append_time = True,
     bh_transactional_or_control = False, bh_producer = producer,
     bh_len = 61 + length (put_records records)\<rparr>"

definition producer_ok :: "numeric_producer option \<Rightarrow> bool" where
  "producer_ok p \<longleftrightarrow> (case p of None \<Rightarrow> True | Some p \<Rightarrow> 0 \<le> np_id p \<and> 0 \<le> np_first_seq p)"

lemma producer_at:
  assumes "producer_ok producer"
  shows "(if 0 \<le> (SW (of_nat (be_at (put_producer producer @ rest) 0 8)) :: i64) \<and>
      0 \<le> (SW (of_nat (be_at (put_producer producer @ rest) 10 4)) :: i32)
    then Some \<lparr>np_id = SW (of_nat (be_at (put_producer producer @ rest) 0 8)),
      np_epoch = SW (of_nat (be_at (put_producer producer @ rest) 8 2)),
      np_first_seq = SW (of_nat (be_at (put_producer producer @ rest) 10 4))\<rparr> else None) = producer"
proof (cases producer)
  case None
  have "\<not> 0 \<le> (-1 :: i64)" by (simp add: sword_eval)
  with None show ?thesis
    by (simp add: put_producer_def be_at_def del: sbits_simps)
next
  case (Some p)
  with assms show ?thesis
    by (simp add: put_producer_def be_at_def producer_ok_def)
qed

lemma be_at_skip: "length xs = n \<Longrightarrow> n \<le> pos \<Longrightarrow> be_at (xs @ ys) pos k = be_at ys (pos - n) k"
  by (simp add: be_at_def)

lemma attributes_written:
  "(attr_log_append_time AND attr_compression) = 0" "(attr_log_append_time AND attr_log_append_time \<noteq> 0) = True"
  "(attr_log_append_time AND (attr_transactional OR attr_control) \<noteq> 0) = False"
  by (simp_all add: attr_log_append_time_def attr_compression_def attr_transactional_def attr_control_def)

lemma SW_of_nat: "(SW (of_nat n) :: 'a::len sword) = of_nat n"
  by (simp add: sword_eq_iff)

lemma word_of_nat_unat: "of_nat (unat w) = w"
  by simp

lemma sint_u64: "n < 2 ^ 63 \<Longrightarrow> sint (of_nat n :: u64) = int n"
  by (simp add: signed_of_nat signed_take_bit_int_eq_self)

lemma base_not_negative:
  assumes "unat b < 2 ^ 63"
  shows "max (SW b :: i64) 0 = SW b"
proof -
  have "sint b = int (unat b)" using sint_u64 [OF assms] unfolding word_of_nat_unat .
  then have "\<not> (SW b :: i64) < 0" by (simp add: sword_eval)
  then show ?thesis by (simp add: max_def not_less)
qed

lemma parse_fields:
  fixes b :: u64
  assumes "61 \<le> length p" "p ! 16 = magic_v2" "be_at p 0 8 = unat b" "be_at p 8 4 = unat (of_nat n :: u32)"
    "be_at p 12 4 = unat (sbits epoch)" "be_at p 21 2 = unat attr_log_append_time" "be_at p 27 8 = unat (sbits first)"
    "be_at p 35 8 = unat (sbits ts)" "be_at p 57 4 = unat (of_nat count :: u32)"
    "n < 2 ^ 31" "12 + n \<le> length p" "0 < count" "count < 2 ^ 31" "unat b < 2 ^ 63"
    "(if 0 \<le> (SW (of_nat (be_at p 43 8)) :: i64) \<and> 0 \<le> (SW (of_nat (be_at p 53 4)) :: i32)
      then Some \<lparr>np_id = SW (of_nat (be_at p 43 8)), np_epoch = SW (of_nat (be_at p 51 2)),
        np_first_seq = SW (of_nat (be_at p 53 4))\<rparr> else None) = producer"
  shows "parse_batch_header p = Inr \<lparr>bh_base_offset = b, bh_leader_epoch = epoch, bh_record_count = of_nat count,
     bh_first_timestamp_ms = first, bh_max_timestamp_ms = ts, bh_compression = 0, bh_log_append_time = True,
     bh_transactional_or_control = False, bh_producer = producer, bh_len = 12 + n\<rparr>"
proof -
  have n: "\<not> (SW (of_nat n) :: i32) < 0" "unat (of_nat n :: u32) = n"
    using i32_length [OF assms(10)] by (simp_all add: SW_of_nat)
  have count: "\<not> (SW (of_nat count) :: i32) \<le> 0"
    using assms(12,13) by (simp add: sword_eval sint_length)
  have read: "\<not> length p < 61" "\<not> length p < 12 + n"
    using assms(1,11) by simp_all
  show ?thesis
    unfolding parse_batch_header_def Let_def assms(3-9) assms(15) batch_header_len_def assms(2) word_of_nat_unat SW_sbits
    by (simp only: n count read attributes_written batch_header_prefix_def base_not_negative [OF assms(14)] if_False simp_thms
      sbits_SW)
qed

text \<open>A batch the encoder can write: its records, their count and the whole length fit their signed 32-bit fields.\<close>

definition batch_ok :: "numeric_producer option \<Rightarrow> log_record list \<Rightarrow> bool" where
  "batch_ok producer records \<longleftrightarrow> records \<noteq> [] \<and> list_all record_ok records \<and> length records < 2 ^ 31 \<and>
    61 + length (put_records records) < 2 ^ 31 \<and> producer_ok producer"

lemma lay_fields:
  fixes records producer rest crc base_offset epoch ts
  defines "p \<equiv> lay_batch crc base_offset epoch (batch_tail ts producer records) @ rest"
    and "q \<equiv> put_i32_be (of_nat (length records)) @ put_records records @ rest"
  shows "be_at p 0 8 = unat base_offset" "be_at p 8 4 = unat (of_nat (49 + length (put_records records)) :: u32)"
    "be_at p 12 4 = unat (sbits epoch)" "be_at p 21 2 = unat attr_log_append_time" "be_at p 27 8 = unat (sbits ts)"
    "be_at p 35 8 = unat (sbits ts)" "be_at p 57 4 = unat (of_nat (length records) :: u32)"
    "be_at p 43 8 = be_at (put_producer producer @ q) 0 8" "be_at p 51 2 = be_at (put_producer producer @ q) 8 2"
    "be_at p 53 4 = be_at (put_producer producer @ q) 10 4"
  unfolding p_def q_def
  by (simp_all add: lay_batch_def be_at_def batch_tail_def batch_header_prefix_def)

lemma lay_magic: "(lay_batch crc base_offset epoch tail @ rest) ! 16 = magic_v2"
proof -
  have "put_u8_be magic_v2 = [magic_v2]"
    by (simp add: put_u8_be_def be_bytes_def le_bytes_unfold magic_v2_def)
  then show ?thesis
    by (simp add: lay_batch_def nth_append)
qed

lemma parse_lay:
  assumes ok: "batch_ok producer records" and base: "unat base_offset < 2 ^ 63"
  shows "parse_batch_header (lay_batch crc base_offset epoch (batch_tail ts producer records) @ rest) =
    Inr (written_header base_offset epoch ts producer records)"
proof -
  let ?p = "lay_batch crc base_offset epoch (batch_tail ts producer records) @ rest"
  have "parse_batch_header ?p = Inr \<lparr>bh_base_offset = base_offset, bh_leader_epoch = epoch,
      bh_record_count = of_nat (length records), bh_first_timestamp_ms = ts, bh_max_timestamp_ms = ts, bh_compression = 0,
      bh_log_append_time = True, bh_transactional_or_control = False, bh_producer = producer,
      bh_len = 12 + (49 + length (put_records records))\<rparr>"
    by (rule parse_fields)
      (use ok base in \<open>simp_all only: lay_magic lay_fields producer_at batch_ok_def length_append length_lay length_batch_tail,
        simp_all\<close>)
  then show ?thesis by (simp add: written_header_def)
qed

definition written_records :: "u64 \<Rightarrow> i64 \<Rightarrow> log_record list \<Rightarrow> stream_record list" where
  "written_records base_offset ts records =
    map (\<lambda>(delta, r). \<lparr>sr_offset = base_offset + of_nat delta, sr_record = r\<lparr>lr_timestamp_ms := ts\<rparr>\<rparr>) (enumerate 0 records)"

lemma decode_records_lay:
  assumes "batch_ok producer records"
  shows "decode_records (written_header base_offset epoch ts producer records) (put_records records) =
    Inr (written_records base_offset ts records)"
proof -
  let ?h = "written_header base_offset epoch ts producer records"
  have count: "unat (bh_record_count ?h) = length records"
    using assms by (simp add: written_header_def batch_ok_def unat_of_nat)
  have "get_many (length records) (get_record ?h) (put_records records) =
      Inr (map (\<lambda>(delta, r). stamped_record ?h delta r) (enumerate 0 records), [])"
    using get_put_records [of records 0 ?h "[]"] assms by (simp add: batch_ok_def put_records_def written_header_def)
  then show ?thesis
    unfolding decode_records_def count
    by (simp add: written_records_def stamped_record_def written_header_def)
qed

lemma decode_lay:
  assumes ok: "batch_ok producer records" and base: "unat base_offset < 2 ^ 63"
  shows "decode_batches crc decompress (lay_batch crc base_offset epoch (batch_tail ts producer records) @ rest) =
    rbind (decode_batches crc decompress rest) (\<lambda>more. Inr (written_records base_offset ts records @ more))"
proof -
  let ?b = "lay_batch crc base_offset epoch (batch_tail ts producer records)"
  let ?h = "written_header base_offset epoch ts producer records"
  have len: "bh_len ?h = length ?b"
    by (simp add: written_header_def length_batch_tail)
  have body: "drop batch_header_len ?b = put_records records"
    by (simp add: lay_batch_def batch_tail_def batch_header_len_def)
  have plain: "decode_section decompress ?h (put_records records) = Inr (written_records base_offset ts records)"
    using decode_records_lay [OF ok] by (simp add: decode_section_def written_header_def)
  have verified: "verify_crc crc ?b = Inr ()"
    by (rule verify_lay) (simp add: length_batch_tail)
  show ?thesis
    by (subst decode_batches.simps) (simp add: parse_lay [OF assms] len body plain verified)
qed

lemma headers_lay:
  assumes ok: "batch_ok producer records" and base: "unat base_offset < 2 ^ 63"
  shows "batch_headers (lay_batch crc base_offset epoch (batch_tail ts producer records) @ rest) =
    rbind (batch_headers rest) (\<lambda>hs. Inr (written_header base_offset epoch ts producer records # hs))"
proof -
  let ?b = "lay_batch crc base_offset epoch (batch_tail ts producer records)"
  have len: "bh_len (written_header base_offset epoch ts producer records) = length ?b"
    by (simp add: written_header_def length_batch_tail)
  show ?thesis
    by (subst batch_headers.simps) (simp add: parse_lay [OF assms] len)
qed

end
