(* ===== verification/Srv_Batch.thy ===== *)
theory Srv_Batch
  imports Srv_Record
begin

text \<open>
  What \<^verbatim>\<open>pico-server/src/service.rs\<close> does with batches: the check of a produced payload
  (\<^verbatim>\<open>parse_batches\<close>), the offsets it is given (\<^verbatim>\<open>stamp_batches\<close>), the records a read
  returns (\<^verbatim>\<open>collect_records\<close>), and the cache of the newest batches of a log
  (\<^verbatim>\<open>TailCache\<close>). Lengths and positions are natural numbers; offsets are 64-bit words.
\<close>

section \<open>Definitions\<close>

record stream_batch =
  sb_base_offset :: u64
  sb_last_offset :: u64
  sb_count :: u32
  sb_payload :: bytes

datatype batch_refusal = EmptyPayload | BadBatch record_error | TransactionalProduce | ManyIdempotent

definition bad_batch :: "record_error + 'a \<Rightarrow> batch_refusal + 'a" where
  "bad_batch r = (case r of Inl e \<Rightarrow> Inl (BadBatch e) | Inr x \<Rightarrow> Inr x)"

fun verify_all :: "(bytes \<Rightarrow> u32) \<Rightarrow> bytes \<Rightarrow> nat \<Rightarrow> batch_header list \<Rightarrow> record_error + unit" where
  "verify_all crc payload pos [] = Inr ()"
| "verify_all crc payload pos (h # hs) =
    rbind (verify_crc crc (take (bh_len h) (drop pos payload))) (\<lambda>_. verify_all crc payload (pos + bh_len h) hs)"

definition parse_batches :: "(bytes \<Rightarrow> u32) \<Rightarrow> bytes \<Rightarrow> batch_refusal + batch_header list" where
  "parse_batches crc payload =
    (if payload = [] then Inl EmptyPayload
     else rbind (bad_batch (batch_headers payload)) (\<lambda>headers.
       if headers = [] then Inl EmptyPayload
       else rbind (bad_batch (verify_all crc payload 0 headers)) (\<lambda>_.
         if list_ex bh_transactional_or_control headers then Inl TransactionalProduce
         else if length headers > 1 \<and> list_ex (\<lambda>h. bh_producer h \<noteq> None) headers then Inl ManyIdempotent
         else Inr headers)))"

fun stamp_loop :: "i32 \<Rightarrow> batch_header list \<Rightarrow> nat \<Rightarrow> u64 \<Rightarrow> bytes \<Rightarrow> bytes \<times> (nat \<times> nat \<times> u64 \<times> u32) list" where
  "stamp_loop epoch [] pos assigned stamped = (stamped, [])"
| "stamp_loop epoch (h # hs) pos assigned stamped =
    (let (stamped', spans) = stamp_loop epoch hs (pos + bh_len h) (assigned + ucast (bh_record_count h))
           (stamp stamped pos assigned epoch)
     in (stamped', (pos, pos + bh_len h, assigned, bh_record_count h) # spans))"

definition stamp_batches :: "bytes \<Rightarrow> batch_header list \<Rightarrow> u64 \<Rightarrow> i32 \<Rightarrow> bytes \<times> stream_batch list" where
  "stamp_batches payload headers base_offset epoch =
    (let (stamped, spans) = stamp_loop epoch headers 0 base_offset payload
     in (stamped, map (\<lambda>(from, bound, base, count). \<lparr>sb_base_offset = base, sb_last_offset = base + ucast count,
           sb_count = count, sb_payload = take (bound - from) (drop from stamped)\<rparr>) spans))"

record log_read =
  rd_records :: "stream_record list"
  rd_next_offset :: u64
  rd_up_to_date :: bool

text \<open>The loop over the records of a batch; True says the outer loop was left.\<close>

fun collect_inner :: "u64 \<Rightarrow> u64 \<Rightarrow> nat \<Rightarrow> nat \<Rightarrow> stream_record list \<Rightarrow> stream_record list \<times> nat \<times> u64 \<Rightarrow>
    bool \<times> stream_record list \<times> nat \<times> u64" where
  "collect_inner start bound max_bytes max_records [] s = (False, s)"
| "collect_inner start bound max_bytes max_records (r # rs) (records, used, nxt) =
    (let offset = sr_offset r; len = size_hint (sr_record r)
     in if offset < start then collect_inner start bound max_bytes max_records rs (records, used, nxt)
        else if offset \<ge> bound then (True, records, used, nxt)
        else if used + len > max_bytes \<and> used > 0 then (True, records, used, nxt)
        else if used + len \<ge> max_bytes \<or> length records + 1 \<ge> max_records
          then (True, records @ [r], used + len, offset + 1)
        else collect_inner start bound max_bytes max_records rs (records @ [r], used + len, offset + 1))"

fun collect_outer :: "(bytes \<Rightarrow> record_error + stream_record list) \<Rightarrow> u64 \<Rightarrow> u64 \<Rightarrow> nat \<Rightarrow> nat \<Rightarrow> stream_batch list \<Rightarrow>
    stream_record list \<times> nat \<times> u64 \<Rightarrow> record_error + stream_record list \<times> nat \<times> u64" where
  "collect_outer decode start bound max_bytes max_records [] s = Inr s"
| "collect_outer decode start bound max_bytes max_records (b # bs) s =
    (if sb_last_offset b \<le> start then collect_outer decode start bound max_bytes max_records bs s
     else if sb_base_offset b \<ge> bound then Inr s
     else rbind (decode (sb_payload b)) (\<lambda>rs.
       let (stop, s') = collect_inner start bound max_bytes max_records rs s
       in if stop then Inr s' else collect_outer decode start bound max_bytes max_records bs s'))"

definition collect_records :: "(bytes \<Rightarrow> u32) \<Rightarrow> (16 word \<Rightarrow> bytes \<Rightarrow> bytes option) \<Rightarrow> stream_batch list \<Rightarrow> u64 \<Rightarrow> u64 \<Rightarrow>
    nat \<Rightarrow> nat \<Rightarrow> record_error + log_read" where
  "collect_records crc decompress batches start bound max_bytes max_records =
    rbind (collect_outer (decode_batches crc decompress) start bound max_bytes max_records batches ([], 0, start))
      (\<lambda>(records, used, nxt). Inr \<lparr>rd_records = records, rd_next_offset = nxt, rd_up_to_date = (nxt \<ge> bound)\<rparr>)"

section \<open>Produced batches\<close>

text \<open>What a client sends: for each batch its offset and epoch fields, which the broker overwrites, its
  timestamp, its producer and its records.\<close>

type_synonym sent_batch = "u64 \<times> i32 \<times> i64 \<times> numeric_producer option \<times> log_record list"

definition lay_sent :: "(bytes \<Rightarrow> u32) \<Rightarrow> sent_batch \<Rightarrow> bytes" where
  "lay_sent crc = (\<lambda>(b, e, ts, p, rs). lay_batch crc b e (batch_tail ts p rs))"

definition sent_payload :: "(bytes \<Rightarrow> u32) \<Rightarrow> sent_batch list \<Rightarrow> bytes" where
  "sent_payload crc bs = concat (map (lay_sent crc) bs)"

definition sent_header :: "sent_batch \<Rightarrow> batch_header" where
  "sent_header = (\<lambda>(b, e, ts, p, rs). written_header b e ts p rs)"

definition sent_ok :: "sent_batch \<Rightarrow> bool" where
  "sent_ok = (\<lambda>(b, e, ts, p, rs). batch_ok p rs \<and> unat b < 2 ^ 63)"

definition sent_records :: "sent_batch \<Rightarrow> log_record list" where
  "sent_records = (\<lambda>(b, e, ts, p, rs). rs)"

text \<open>The same batches with the offsets the broker gives them.\<close>

fun placed :: "i32 \<Rightarrow> u64 \<Rightarrow> sent_batch list \<Rightarrow> sent_batch list" where
  "placed epoch base [] = []"
| "placed epoch base ((b, e, ts, p, rs) # bs) = (base, epoch, ts, p, rs) # placed epoch (base + of_nat (length rs)) bs"

lemma sent_len: "bh_len (sent_header b) = length (lay_sent crc b)"
  by (cases b) (simp add: sent_header_def lay_sent_def written_header_def length_batch_tail)

lemma sent_count: "sent_ok b \<Longrightarrow> ucast (bh_record_count (sent_header b)) = (of_nat (length (sent_records b)) :: u64)"
  by (cases b) (simp add: sent_header_def sent_ok_def batch_ok_def written_header_def sent_records_def word_eq_iff_unsigned
    unsigned_ucast_eq unsigned_of_nat take_bit_nat_eq_self)

lemma sent_headers: "list_all sent_ok bs \<Longrightarrow> batch_headers (sent_payload crc bs) = Inr (map sent_header bs)"
proof (induction bs)
  case (Cons b bs)
  obtain base e ts p rs where "b = (base, e, ts, p, rs)" by (metis prod_cases5)
  with Cons show ?case
    by (simp add: sent_payload_def lay_sent_def sent_ok_def sent_header_def headers_lay)
qed (simp add: sent_payload_def batch_headers.simps)

lemma sent_verified:
  "list_all sent_ok bs \<Longrightarrow> verify_all crc (pre @ sent_payload crc bs) (length pre) (map sent_header bs) = Inr ()"
proof (induction bs arbitrary: pre)
  case (Cons b bs)
  have "verify_crc crc (lay_sent crc b) = Inr ()"
    by (cases b) (simp add: lay_sent_def verify_lay length_batch_tail)
  then show ?case
    using Cons.IH [of "pre @ lay_sent crc b"] Cons.prems
    by (simp add: sent_payload_def sent_len [of b crc])
qed simp

lemma parse_sent:
  assumes "list_all sent_ok bs" "bs \<noteq> []" "length bs = 1 \<or> list_all (\<lambda>(_, _, _, p, _). p = None) bs"
  shows "parse_batches crc (sent_payload crc bs) = Inr (map sent_header bs)"
proof -
  have payload: "sent_payload crc bs \<noteq> []"
    using assms(2) by (cases bs) (auto simp: sent_payload_def lay_sent_def split: prod.splits)
  have plain: "\<not> list_ex bh_transactional_or_control (map sent_header bs)"
    by (induction bs) (auto simp: sent_header_def written_header_def)
  have one: "\<not> (length (map sent_header bs) > 1 \<and> list_ex (\<lambda>h. bh_producer h \<noteq> None) (map sent_header bs))"
    using assms(3) by (auto simp: list_ex_iff list_all_iff sent_header_def written_header_def)
  show ?thesis
    using sent_headers [OF assms(1), of crc] sent_verified [OF assms(1), of crc "[]"] payload plain one assms(2)
    by (simp add: parse_batches_def bad_batch_def)
qed

fun batch_spans :: "(bytes \<Rightarrow> u32) \<Rightarrow> nat \<Rightarrow> sent_batch list \<Rightarrow> (nat \<times> nat \<times> u64 \<times> u32) list" where
  "batch_spans crc pos [] = []"
| "batch_spans crc pos (b # bs) = (pos, pos + length (lay_sent crc b), fst b, of_nat (length (sent_records b))) #
    batch_spans crc (pos + length (lay_sent crc b)) bs"

definition as_batch :: "(bytes \<Rightarrow> u32) \<Rightarrow> sent_batch \<Rightarrow> stream_batch" where
  "as_batch crc b = \<lparr>sb_base_offset = fst b, sb_last_offset = fst b + of_nat (length (sent_records b)),
    sb_count = of_nat (length (sent_records b)), sb_payload = lay_sent crc b\<rparr>"

lemma sent_Cons: "sent_payload crc (b # bs) = lay_sent crc b @ sent_payload crc bs"
  by (simp add: sent_payload_def)

lemma stamp_loop_sent:
  "list_all sent_ok bs \<Longrightarrow> stamp_loop epoch (map sent_header bs) (length pre) base (pre @ sent_payload crc bs) =
    (pre @ sent_payload crc (placed epoch base bs), batch_spans crc (length pre) (placed epoch base bs))"
proof (induction bs arbitrary: pre base)
  case (Cons b bs)
  obtain b0 e ts p rs where b: "b = (b0, e, ts, p, rs)" by (metis prod_cases5)
  let ?lay = "lay_batch crc base epoch (batch_tail ts p rs)"
  have count: "ucast (bh_record_count (sent_header b)) = (of_nat (length rs) :: u64)"
    using sent_count [of b] Cons.prems by (simp add: b sent_records_def)
  have len: "bh_len (sent_header b) = length ?lay"
    by (simp add: b sent_header_def written_header_def length_batch_tail)
  have stamped: "stamp (pre @ sent_payload crc (b # bs)) (length pre) base epoch = (pre @ ?lay) @ sent_payload crc bs"
    by (simp add: sent_Cons b lay_sent_def stamp_lay)
  have rest: "stamp_loop epoch (map sent_header bs) (length pre + length ?lay) (base + of_nat (length rs))
      ((pre @ ?lay) @ sent_payload crc bs) =
    ((pre @ ?lay) @ sent_payload crc (placed epoch (base + of_nat (length rs)) bs),
     batch_spans crc (length pre + length ?lay) (placed epoch (base + of_nat (length rs)) bs))"
    using Cons.IH [of "pre @ ?lay" "base + of_nat (length rs)"] Cons.prems by simp
  show ?case
    unfolding list.map stamp_loop.simps stamped count len rest
    by (simp add: b sent_Cons lay_sent_def sent_records_def sent_header_def written_header_def)
qed (simp add: sent_payload_def)

lemma slices_sent:
  "map (\<lambda>(from, bound, base, count). \<lparr>sb_base_offset = base, sb_last_offset = base + ucast count, sb_count = count,
      sb_payload = take (bound - from) (drop from (pre @ sent_payload crc bs))\<rparr>) (batch_spans crc (length pre) bs) =
    map (as_batch crc) bs" if "list_all sent_ok bs"
  using that
proof (induction bs arbitrary: pre)
  case (Cons b bs)
  have "ucast (of_nat (length (sent_records b)) :: u32) = (of_nat (length (sent_records b)) :: u64)"
    using sent_count [of b] Cons.prems by (cases b) (simp add: sent_header_def written_header_def sent_records_def)
  then show ?case
    using Cons.IH [of "pre @ lay_sent crc b"] Cons.prems
    by (simp add: sent_Cons as_batch_def)
qed simp

fun sent_total :: "sent_batch list \<Rightarrow> nat" where
  "sent_total [] = 0"
| "sent_total (b # bs) = length (sent_records b) + sent_total bs"

lemma placed_ok:
  "list_all sent_ok bs \<Longrightarrow> unat base + sent_total bs < 2 ^ 63 \<Longrightarrow> list_all sent_ok (placed epoch base bs)"
proof (induction bs arbitrary: base)
  case (Cons b bs)
  obtain b0 e ts p rs where b: "b = (b0, e, ts, p, rs)" by (metis prod_cases5)
  have "unat (base + of_nat (length rs)) = unat base + length rs"
    using Cons.prems(2) by (simp add: b sent_records_def unat_word_ariths unat_of_nat)
  with Cons show ?case
    by (simp add: b sent_ok_def sent_records_def)
qed simp

lemma stamp_sent:
  assumes "list_all sent_ok bs" "unat base + sent_total bs < 2 ^ 63"
  shows "stamp_batches (sent_payload crc bs) (map sent_header bs) base epoch =
    (sent_payload crc (placed epoch base bs), map (as_batch crc) (placed epoch base bs))"
  using stamp_loop_sent [OF assms(1), of epoch "[]" base crc] slices_sent [OF placed_ok [OF assms], of "[]" crc epoch]
  by (simp add: stamp_batches_def)

fun numbered :: "u64 \<Rightarrow> log_record list \<Rightarrow> stream_record list" where
  "numbered base [] = []"
| "numbered base (r # rs) = \<lparr>sr_offset = base, sr_record = r\<rparr> # numbered (base + 1) rs"

lemma numbered_append: "numbered base (xs @ ys) = numbered base xs @ numbered (base + of_nat (length xs)) ys"
  by (induction xs arbitrary: base) (simp_all add: algebra_simps)

lemma written_numbered: "written_records base ts rs = numbered base (map (lr_timestamp_ms_update (\<lambda>_. ts)) rs)"
proof -
  have "map (\<lambda>(delta, r). \<lparr>sr_offset = base + of_nat delta, sr_record = r\<lparr>lr_timestamp_ms := ts\<rparr>\<rparr>) (enumerate n rs) =
      numbered (base + of_nat n) (map (lr_timestamp_ms_update (\<lambda>_. ts)) rs)" for n
    by (induction rs arbitrary: n) (simp_all add: algebra_simps)
  from this [of 0] show ?thesis by (simp add: written_records_def)
qed

text \<open>The records of the batches in order, each with the timestamp of its batch.\<close>

definition timed_records :: "sent_batch list \<Rightarrow> log_record list" where
  "timed_records bs = concat (map (\<lambda>(b, e, ts, p, rs). map (lr_timestamp_ms_update (\<lambda>_. ts)) rs) bs)"

lemma decode_sent:
  "list_all sent_ok bs \<Longrightarrow> decode_batches crc decompress (sent_payload crc bs) =
    Inr (concat (map (\<lambda>(b, e, ts, p, rs). written_records b ts rs) bs))"
proof (induction bs)
  case (Cons b bs)
  obtain b0 e ts p rs where "b = (b0, e, ts, p, rs)" by (metis prod_cases5)
  with Cons show ?case
    by (simp add: sent_Cons lay_sent_def sent_ok_def decode_lay)
qed (simp add: sent_payload_def decode_batches.simps)

lemma placed_numbered:
  "concat (map (\<lambda>(b, e, ts, p, rs). written_records b ts rs) (placed epoch base bs)) = numbered base (timed_records bs)"
proof (induction bs arbitrary: base)
  case (Cons b bs)
  obtain b0 e ts p rs where "b = (b0, e, ts, p, rs)" by (metis prod_cases5)
  with Cons show ?case
    by (simp add: written_numbered timed_records_def numbered_append)
qed (simp add: timed_records_def)

section \<open>Reads\<close>

text \<open>The records a read is after: those with an offset in the range.\<close>

definition wanted :: "u64 \<Rightarrow> u64 \<Rightarrow> stream_record list \<Rightarrow> stream_record list" where
  "wanted start bound rs = filter (\<lambda>r. start \<le> sr_offset r \<and> sr_offset r < bound) rs"

definition sizes :: "stream_record list \<Rightarrow> nat" where
  "sizes rs = (\<Sum>r \<leftarrow> rs. size_hint (sr_record r))"

lemma sizes_simps [simp]: "sizes [] = 0" "sizes (xs @ ys) = sizes xs + sizes ys" "sizes (r # rs) = size_hint (sr_record r) + sizes rs"
  by (simp_all add: sizes_def)

text \<open>What a read may return of the records it is after: a first part that ends at a limit.\<close>

definition cut_at :: "nat \<Rightarrow> nat \<Rightarrow> stream_record list \<Rightarrow> nat \<Rightarrow> stream_record list \<Rightarrow> bool" where
  "cut_at max_bytes max_records W n records \<longleftrightarrow> n \<le> length W \<and> length records \<le> max_records \<and>
    (sizes records \<le> max_bytes \<or> sizes (butlast records) = 0) \<and>
    (n = length W \<or> length records = max_records \<or> max_bytes \<le> sizes records \<or>
     max_bytes < sizes records + size_hint (sr_record (W ! n)))"

lemma wanted_Cons:
  "wanted start bound (r # rs) = (if start \<le> sr_offset r \<and> sr_offset r < bound then r # wanted start bound rs
    else wanted start bound rs)"
  by (simp add: wanted_def)

lemma wanted_past: "sorted (map sr_offset (r # rs)) \<Longrightarrow> bound \<le> sr_offset r \<Longrightarrow> wanted start bound (r # rs) = []"
  by (auto simp: wanted_def filter_empty_conv not_less)

lemma collect_inner_spec:
  assumes "sorted (map sr_offset rs)" "used = sizes records" "used < max_bytes" "length records < max_records"
    "collect_inner start bound max_bytes max_records rs (records, used, nxt) = (stop, records', used', nxt')"
  shows "\<exists>n. records' = records @ take n (wanted start bound rs) \<and> cut_at max_bytes max_records (wanted start bound rs) n records' \<and>
    (wanted start bound rs \<noteq> [] \<and> used = 0 \<longrightarrow> 0 < n) \<and>
    nxt' = (if n = 0 then nxt else sr_offset (wanted start bound rs ! (n - 1)) + 1)"
  using assms
proof (induction rs arbitrary: records used nxt)
  case Nil
  then show ?case by (simp add: wanted_def cut_at_def)
next
  case (Cons r rs)
  let ?len = "size_hint (sr_record r)" and ?W = "wanted start bound rs"
  have sorted: "sorted (map sr_offset rs)" using Cons.prems(1) by simp
  note result = Cons.prems(5)
  consider (skip) "sr_offset r < start" | (past) "start \<le> sr_offset r" "bound \<le> sr_offset r"
    | (big) "start \<le> sr_offset r" "sr_offset r < bound" "used + ?len > max_bytes" "used > 0"
    | (full) "start \<le> sr_offset r" "sr_offset r < bound" "\<not> (used + ?len > max_bytes \<and> used > 0)"
        "used + ?len \<ge> max_bytes \<or> length records + 1 \<ge> max_records"
    | (more) "start \<le> sr_offset r" "sr_offset r < bound" "\<not> (used + ?len > max_bytes \<and> used > 0)"
        "\<not> (used + ?len \<ge> max_bytes \<or> length records + 1 \<ge> max_records)"
    by (meson linorder_not_less)
  then show ?case
  proof cases
    case skip
    then have W: "wanted start bound (r # rs) = ?W" and result':
        "collect_inner start bound max_bytes max_records rs (records, used, nxt) = (stop, records', used', nxt')"
      using result by (simp_all add: wanted_Cons linorder_not_le)
    show ?thesis
      unfolding W by (rule Cons.IH [OF sorted Cons.prems(2-4) result'])
  next
    case past
    then have "records' = records" "nxt' = nxt" using result by (auto simp: Let_def split: if_splits)
    then show ?thesis
      using Cons.prems wanted_past [OF Cons.prems(1) past(2), of start] by (simp add: cut_at_def)
  next
    case big
    then have "records' = records" "nxt' = nxt" using result by (auto simp: Let_def split: if_splits)
    with big Cons.prems show ?thesis
      by (intro exI [of _ 0]) (simp add: wanted_Cons cut_at_def)
  next
    case full
    then have "records' = records @ [r]" "nxt' = sr_offset r + 1" using result by (auto simp: Let_def split: if_splits)
    with full Cons.prems show ?thesis
      by (intro exI [of _ 1]) (auto simp: wanted_Cons cut_at_def)
  next
    case more
    then have result': "collect_inner start bound max_bytes max_records rs (records @ [r], used + ?len, sr_offset r + 1) =
        (stop, records', used', nxt')"
      using result by (auto simp: Let_def split: if_splits)
    obtain n where n: "records' = (records @ [r]) @ take n ?W" "cut_at max_bytes max_records ?W n records'"
        "nxt' = (if n = 0 then sr_offset r + 1 else sr_offset (?W ! (n - 1)) + 1)"
      using Cons.IH [OF sorted _ _ _ result'] more Cons.prems by auto
    then show ?thesis
      using more by (intro exI [of _ "Suc n"]) (auto simp: wanted_Cons cut_at_def nth_Cons')
  qed
qed

lemma collect_inner_append:
  "collect_inner start bound max_bytes max_records (xs @ ys) s =
    (let (stop, s') = collect_inner start bound max_bytes max_records xs s
     in if stop then (True, s') else collect_inner start bound max_bytes max_records ys s')"
  by (induction start bound max_bytes max_records xs s rule: collect_inner.induct) (auto simp: Let_def)

lemma collect_inner_skips:
  "\<forall>r \<in> set rs. sr_offset r < start \<Longrightarrow> collect_inner start bound max_bytes max_records rs s = (False, s)"
  by (induction start bound max_bytes max_records rs s rule: collect_inner.induct) (auto simp: Let_def)

lemma collect_inner_past:
  "\<forall>r \<in> set rs. bound \<le> sr_offset r \<Longrightarrow> snd (collect_inner start bound max_bytes max_records rs s) = s"
  by (induction start bound max_bytes max_records rs s rule: collect_inner.induct) (auto simp: Let_def)

text \<open>A batch says of its records where they lie.\<close>

definition batch_holds :: "(bytes \<Rightarrow> record_error + stream_record list) \<Rightarrow> stream_batch \<Rightarrow> stream_record list \<Rightarrow> bool" where
  "batch_holds decode b rs \<longleftrightarrow> decode (sb_payload b) = Inr rs \<and>
    (\<forall>r \<in> set rs. sb_base_offset b \<le> sr_offset r \<and> sr_offset r < sb_last_offset b)"

lemma holds_from:
  "list_all2 (batch_holds decode) bs rss \<Longrightarrow> r \<in> set (concat rss) \<Longrightarrow> \<exists>b \<in> set bs. sb_base_offset b \<le> sr_offset r"
  by (induction rule: list_all2_induct) (auto simp: batch_holds_def)

lemma collect_outer_flat:
  assumes "list_all2 (batch_holds decode) bs rss" "sorted (map sb_base_offset bs)"
  shows "collect_outer decode start bound max_bytes max_records bs s =
    Inr (snd (collect_inner start bound max_bytes max_records (concat rss) s))"
  using assms
proof (induction arbitrary: s rule: list_all2_induct)
  case (Cons b bs rs rss)
  consider (skip) "sb_last_offset b \<le> start" | (past) "\<not> sb_last_offset b \<le> start" "bound \<le> sb_base_offset b"
    | (inside) "\<not> sb_last_offset b \<le> start" "\<not> bound \<le> sb_base_offset b"
    by blast
  then show ?case
  proof cases
    case skip
    then have "collect_inner start bound max_bytes max_records rs s = (False, s)"
      using Cons.hyps(1) by (intro collect_inner_skips) (auto simp: batch_holds_def)
    with skip Cons show ?thesis by (simp add: collect_inner_append)
  next
    case past
    have "bound \<le> sr_offset r" if r: "r \<in> set (concat (rs # rss))" for r
    proof -
      have all: "list_all2 (batch_holds decode) (b # bs) (rs # rss)" using Cons.hyps by simp
      obtain b' where "b' \<in> set (b # bs)" "sb_base_offset b' \<le> sr_offset r"
        using holds_from [OF all r] by blast
      then show ?thesis
        using past(2) Cons.prems by (auto intro: order_trans)
    qed
    then have "snd (collect_inner start bound max_bytes max_records (concat (rs # rss)) s) = s"
      by (intro collect_inner_past) blast
    with past(1,2) show ?thesis by (simp only: collect_outer.simps if_True if_False)
  next
    case inside
    then have "collect_outer decode start bound max_bytes max_records (b # bs) s =
        (let (stop, s') = collect_inner start bound max_bytes max_records rs s
         in if stop then Inr s' else collect_outer decode start bound max_bytes max_records bs s')"
      using Cons.hyps(1) by (simp only: collect_outer.simps if_False batch_holds_def rbind_simps)
    with Cons show ?thesis
      by (simp add: collect_inner_append split: prod.split)
  qed
qed simp

lemma collect_records_spec:
  assumes held: "list_all2 (batch_holds (decode_batches crc decompress)) bs rss" and order: "sorted (map sb_base_offset bs)"
    and offsets: "sorted (map sr_offset (concat rss))" and limits: "0 < max_bytes" "0 < max_records"
  shows "\<exists>n read. collect_records crc decompress bs start bound max_bytes max_records = Inr read \<and>
    rd_records read = take n (wanted start bound (concat rss)) \<and>
    cut_at max_bytes max_records (wanted start bound (concat rss)) n (rd_records read) \<and>
    (wanted start bound (concat rss) \<noteq> [] \<longrightarrow> 0 < n) \<and>
    rd_next_offset read = (if n = 0 then start else sr_offset (wanted start bound (concat rss) ! (n - 1)) + 1) \<and>
    (rd_up_to_date read \<longleftrightarrow> bound \<le> rd_next_offset read)"
proof -
  obtain stop records used nxt where result:
      "collect_inner start bound max_bytes max_records (concat rss) ([], 0, start) = (stop, records, used, nxt)"
    by (metis prod_cases4)
  obtain n where n: "records = [] @ take n (wanted start bound (concat rss))"
      "cut_at max_bytes max_records (wanted start bound (concat rss)) n records"
      "wanted start bound (concat rss) \<noteq> [] \<and> (0::nat) = 0 \<longrightarrow> 0 < n"
      "nxt = (if n = 0 then start else sr_offset (wanted start bound (concat rss) ! (n - 1)) + 1)"
    using collect_inner_spec [OF offsets _ _ _ result] limits by auto
  have "collect_records crc decompress bs start bound max_bytes max_records =
      Inr \<lparr>rd_records = records, rd_next_offset = nxt, rd_up_to_date = (nxt \<ge> bound)\<rparr>"
    using collect_outer_flat [OF held order, of start bound max_bytes max_records "([], 0, start)"] result
    by (simp add: collect_records_def)
  with n show ?thesis
    by (intro exI [of _ n]) simp
qed

section \<open>The cache of the newest batches\<close>

definition tail_max_bytes :: nat where "tail_max_bytes = 4 * 1024 * 1024"
definition tail_max_records :: nat where "tail_max_records = 4096"

record tail_cache =
  tc_recent :: "stream_batch list"
  tc_recent_bytes :: nat
  tc_recent_records :: nat

definition tail_reset :: tail_cache where
  "tail_reset = \<lparr>tc_recent = [], tc_recent_bytes = 0, tc_recent_records = 0\<rparr>"

definition push_batch :: "stream_batch \<Rightarrow> tail_cache \<Rightarrow> tail_cache" where
  "push_batch b c = \<lparr>tc_recent = tc_recent c @ [b], tc_recent_bytes = tc_recent_bytes c + length (sb_payload b),
    tc_recent_records = tc_recent_records c + unat (sb_count b)\<rparr>"

text \<open>The loop that drops from the front; the subtractions would overflow only if the counters were wrong.\<close>

fun tail_shrink :: "stream_batch list \<Rightarrow> nat \<Rightarrow> nat \<Rightarrow> tail_cache" where
  "tail_shrink (b # b' # bs) bytes records =
    (if records > tail_max_records \<or> bytes > tail_max_bytes
     then tail_shrink (b' # bs) (bytes - length (sb_payload b)) (records - unat (sb_count b))
     else \<lparr>tc_recent = b # b' # bs, tc_recent_bytes = bytes, tc_recent_records = records\<rparr>)"
| "tail_shrink bs bytes records = \<lparr>tc_recent = bs, tc_recent_bytes = bytes, tc_recent_records = records\<rparr>"

definition tail_append :: "stream_batch list \<Rightarrow> tail_cache \<Rightarrow> tail_cache" where
  "tail_append batches c = (case batches of
     [] \<Rightarrow> c
   | first # _ \<Rightarrow>
       if tc_recent c \<noteq> [] \<and> sb_base_offset first < sb_last_offset (last (tc_recent c)) then c
       else
         (let c = (if tc_recent c \<noteq> [] \<and> sb_base_offset first > sb_last_offset (last (tc_recent c)) then tail_reset else c);
              c = fold push_batch batches c
          in tail_shrink (tc_recent c) (tc_recent_bytes c) (tc_recent_records c)))"

definition tail_batches :: "u64 \<Rightarrow> tail_cache \<Rightarrow> stream_batch list option" where
  "tail_batches start c =
    (if tc_recent c = [] then None
     else if start < sb_base_offset (hd (tc_recent c)) \<or> start \<ge> sb_last_offset (last (tc_recent c)) then None
     else Some (filter (\<lambda>b. sb_last_offset b > start) (tc_recent c)))"

text \<open>\<^verbatim>\<open>batches_from\<close>; \<open>fetch\<close> stands for the read of the stream.\<close>

fun take_cached :: "u64 \<Rightarrow> nat \<Rightarrow> stream_batch list \<Rightarrow> nat \<Rightarrow> stream_batch list \<Rightarrow> stream_batch list" where
  "take_cached bound max_bytes [] used out = out"
| "take_cached bound max_bytes (b # bs) used out =
    (if sb_base_offset b \<ge> bound then out
     else if used + length (sb_payload b) > max_bytes \<and> out \<noteq> [] then out
     else take_cached bound max_bytes bs (used + length (sb_payload b)) (out @ [b]))"

definition batches_from :: "(u64 \<Rightarrow> u64 \<Rightarrow> nat \<Rightarrow> 'e + stream_batch list) \<Rightarrow> tail_cache \<Rightarrow> u64 \<Rightarrow> u64 \<Rightarrow> nat \<Rightarrow> 'e + stream_batch list" where
  "batches_from fetch c start bound max_bytes = (case tail_batches start c of
     Some cached \<Rightarrow> Inr (take_cached bound max_bytes cached 0 [])
   | None \<Rightarrow> fetch start bound max_bytes)"

definition payload_bytes :: "stream_batch list \<Rightarrow> nat" where
  "payload_bytes bs = (\<Sum>b \<leftarrow> bs. length (sb_payload b))"

definition record_counts :: "stream_batch list \<Rightarrow> nat" where
  "record_counts bs = (\<Sum>b \<leftarrow> bs. unat (sb_count b))"

lemma tail_shrink_spec:
  assumes "bytes = payload_bytes bs" "records = record_counts bs"
  shows "\<exists>k. tc_recent (tail_shrink bs bytes records) = drop k bs \<and>
    tc_recent_bytes (tail_shrink bs bytes records) = payload_bytes (drop k bs) \<and>
    tc_recent_records (tail_shrink bs bytes records) = record_counts (drop k bs) \<and>
    (bs \<noteq> [] \<longrightarrow> k < length bs) \<and>
    (length (drop k bs) \<le> 1 \<or> record_counts (drop k bs) \<le> tail_max_records \<and> payload_bytes (drop k bs) \<le> tail_max_bytes)"
  using assms
proof (induction bs bytes records rule: tail_shrink.induct)
  case (1 b b' bs bytes records)
  show ?case
  proof (cases "records > tail_max_records \<or> bytes > tail_max_bytes")
    case True
    with 1 obtain k where "tc_recent (tail_shrink (b # b' # bs) bytes records) = drop k (b' # bs)"
      "tc_recent_bytes (tail_shrink (b # b' # bs) bytes records) = payload_bytes (drop k (b' # bs))"
      "tc_recent_records (tail_shrink (b # b' # bs) bytes records) = record_counts (drop k (b' # bs))"
      "k < length (b' # bs)"
      "length (drop k (b' # bs)) \<le> 1 \<or> record_counts (drop k (b' # bs)) \<le> tail_max_records \<and>
        payload_bytes (drop k (b' # bs)) \<le> tail_max_bytes"
      by (auto simp: payload_bytes_def record_counts_def)
    then show ?thesis by (intro exI [of _ "Suc k"]) simp
  next
    case False
    with 1 show ?thesis by (intro exI [of _ 0]) simp
  qed
qed (intro exI [of _ 0], simp add: payload_bytes_def record_counts_def)+

lemma push_batches:
  "tc_recent (fold push_batch bs c) = tc_recent c @ bs"
  "tc_recent_bytes (fold push_batch bs c) = tc_recent_bytes c + payload_bytes bs"
  "tc_recent_records (fold push_batch bs c) = tc_recent_records c + record_counts bs"
  by (induction bs arbitrary: c) (simp_all add: push_batch_def payload_bytes_def record_counts_def)

text \<open>
  A log from offset \<open>base\<close> on: each batch decodes to its records, numbered from the offset the batch before it
  ended at.
\<close>

fun log_holds :: "(bytes \<Rightarrow> record_error + stream_record list) \<Rightarrow> u64 \<Rightarrow> stream_batch list \<Rightarrow> log_record list list \<Rightarrow> bool" where
  "log_holds decode base [] [] \<longleftrightarrow> True"
| "log_holds decode base (b # bs) (rs # rss) \<longleftrightarrow> sb_base_offset b = base \<and> rs \<noteq> [] \<and>
    decode (sb_payload b) = Inr (numbered base rs) \<and> sb_last_offset b = base + of_nat (length rs) \<and>
    log_holds decode (base + of_nat (length rs)) bs rss"
| "log_holds decode base _ _ \<longleftrightarrow> False"

definition mark :: "log_record list list \<Rightarrow> nat \<Rightarrow> nat" where
  "mark rss i = length (concat (take i rss))"

definition piece :: "'a list \<Rightarrow> nat \<Rightarrow> nat \<Rightarrow> 'a list" where
  "piece xs i j = take (j - i) (drop i xs)"

lemma log_length: "log_holds decode base log rss \<Longrightarrow> length log = length rss"
  by (induction decode base log rss rule: log_holds.induct) simp_all

lemma log_nonempty: "log_holds decode base log rss \<Longrightarrow> i < length rss \<Longrightarrow> rss ! i \<noteq> []"
  by (induction decode base log rss arbitrary: i rule: log_holds.induct) (auto simp: nth_Cons')

lemma log_at:
  "log_holds decode base log rss \<Longrightarrow> i < length rss \<Longrightarrow>
    sb_base_offset (log ! i) = base + of_nat (mark rss i) \<and> sb_last_offset (log ! i) = base + of_nat (mark rss (Suc i)) \<and>
    decode (sb_payload (log ! i)) = Inr (numbered (base + of_nat (mark rss i)) (rss ! i))"
proof (induction decode base log rss arbitrary: i rule: log_holds.induct)
  case (2 decode base b bs rs rss)
  then show ?case
    by (cases i) (simp_all add: mark_def algebra_simps)
qed simp_all

lemma mark_Suc: "i < length rss \<Longrightarrow> mark rss (Suc i) = mark rss i + length (rss ! i)"
  by (simp add: mark_def take_Suc_conv_app_nth)

lemma mark_less:
  assumes "log_holds decode base log rss" "i < j" "j \<le> length rss"
  shows "mark rss i < mark rss j"
  using assms(2,3)
proof (induction j)
  case (Suc j)
  have "mark rss j < mark rss (Suc j)"
    using mark_Suc [of j rss] log_nonempty [OF assms(1), of j] Suc.prems by simp
  then show ?case
    using Suc by (cases "i = j") simp_all
qed simp

lemma mark_mono: "i \<le> j \<Longrightarrow> mark rss i \<le> mark rss j"
proof -
  assume "i \<le> j"
  then have "take i (take j rss) = take i rss" by (simp add: min_def)
  then show ?thesis
    unfolding mark_def by (metis append_take_drop_id concat_append le_add1 length_append)
qed

lemma mark_all: "length rss \<le> i \<Longrightarrow> mark rss i = length (concat rss)"
  by (simp add: mark_def)

lemma mark_le: "mark rss i \<le> length (concat rss)"
  using mark_mono [of i "max i (length rss)" rss] mark_all [of rss "max i (length rss)"] by simp

lemma offset_value:
  assumes "unat (base :: u64) + length (concat rss) < 2 ^ 63"
  shows "unat (base + of_nat (mark rss i)) = unat base + mark rss i"
  using mark_le [of rss i] assms by (simp add: unat_word_ariths unat_of_nat)

lemma piece_append: "i \<le> j \<Longrightarrow> j \<le> k \<Longrightarrow> piece xs i j @ piece xs j k = piece xs i k"
proof -
  assume "i \<le> j" "j \<le> k"
  then have "k - i = (j - i) + (k - j)" "drop (j - i) (drop i xs) = drop j xs" by simp_all
  then show ?thesis unfolding piece_def by (metis take_add)
qed

lemma length_piece: "i \<le> j \<Longrightarrow> j \<le> length xs \<Longrightarrow> length (piece xs i j) = j - i"
  by (simp add: piece_def)

lemma drop_piece: "drop k (piece xs i j) = piece xs (i + k) j"
  by (simp add: piece_def drop_take add.commute)

lemma nth_piece: "j \<le> length xs \<Longrightarrow> n < j - i \<Longrightarrow> piece xs i j ! n = xs ! (i + n)"
  by (simp add: piece_def)

section \<open>The cache follows the log\<close>

datatype cache_event = CacheAppend "stream_batch list" | CacheReset

fun cache_step :: "cache_event \<Rightarrow> tail_cache \<Rightarrow> tail_cache" where
  "cache_step (CacheAppend bs) c = tail_append bs c"
| "cache_step CacheReset c = tail_reset"

text \<open>Appends finish in any order, each with the batches it put into the log.\<close>

definition event_of :: "stream_batch list \<Rightarrow> cache_event \<Rightarrow> bool" where
  "event_of log e \<longleftrightarrow> (case e of CacheReset \<Rightarrow> True
   | CacheAppend bs \<Rightarrow> (\<exists>i j. i \<le> j \<and> j \<le> length log \<and> bs = piece log i j))"

definition tail_ok :: "stream_batch list \<Rightarrow> tail_cache \<Rightarrow> bool" where
  "tail_ok log c \<longleftrightarrow> (\<exists>i j. i \<le> j \<and> j \<le> length log \<and> tc_recent c = piece log i j) \<and>
    tc_recent_bytes c = payload_bytes (tc_recent c) \<and> tc_recent_records c = record_counts (tc_recent c)"

lemma tail_ok_reset: "tail_ok log tail_reset"
  unfolding tail_ok_def by (intro conjI exI [of _ 0]) (simp_all add: tail_reset_def piece_def payload_bytes_def record_counts_def)

lemma shrink_ok:
  assumes "i \<le> j" "j \<le> length log" "tc_recent c = piece log i j" "tc_recent_bytes c = payload_bytes (tc_recent c)"
    "tc_recent_records c = record_counts (tc_recent c)"
  shows "tail_ok log (tail_shrink (tc_recent c) (tc_recent_bytes c) (tc_recent_records c))"
proof -
  obtain k where k: "tc_recent (tail_shrink (tc_recent c) (tc_recent_bytes c) (tc_recent_records c)) = drop k (tc_recent c)"
    "tc_recent_bytes (tail_shrink (tc_recent c) (tc_recent_bytes c) (tc_recent_records c)) = payload_bytes (drop k (tc_recent c))"
    "tc_recent_records (tail_shrink (tc_recent c) (tc_recent_bytes c) (tc_recent_records c)) = record_counts (drop k (tc_recent c))"
    "tc_recent c \<noteq> [] \<longrightarrow> k < length (tc_recent c)"
    using tail_shrink_spec [OF assms(4,5)] by blast
  show ?thesis
  proof (cases "tc_recent c = []")
    case True
    with k show ?thesis unfolding tail_ok_def by (auto intro!: exI [of _ 0] simp: piece_def)
  next
    case False
    with k(4) assms(1-3) have "i + k \<le> j" by (simp add: length_piece)
    moreover have "drop k (tc_recent c) = piece log (i + k) j" using assms(3) by (simp add: drop_piece)
    ultimately show ?thesis
      unfolding tail_ok_def k(1-3) using assms(2) by blast
  qed
qed

lemma tail_append_ok:
  assumes log: "log_holds decode base log rss" and small: "unat base + length (concat rss) < 2 ^ 63"
    and bs: "k \<le> l" "l \<le> length log" "bs = piece log k l" and ok: "tail_ok log c"
  shows "tail_ok log (tail_append bs c)"
proof (cases "bs = [] \<or> tc_recent c \<noteq> [] \<and> sb_base_offset (hd bs) < sb_last_offset (last (tc_recent c))")
  case True
  then show ?thesis using ok by (auto simp: tail_append_def split: list.split)
next
  case False
  then obtain first more where first: "bs = first # more" by (cases bs) auto
  define c0 where "c0 = (if tc_recent c \<noteq> [] \<and> sb_base_offset first > sb_last_offset (last (tc_recent c)) then tail_reset else c)"
  have result: "tail_append bs c = tail_shrink (tc_recent c0 @ bs) (tc_recent_bytes c0 + payload_bytes bs)
      (tc_recent_records c0 + record_counts bs)"
  proof -
    have guard: "\<not> (tc_recent c \<noteq> [] \<and> sb_base_offset first < sb_last_offset (last (tc_recent c)))"
      using False first by simp
    show ?thesis
      unfolding tail_append_def first list.case Let_def if_not_P [OF guard] c0_def [symmetric] push_batches ..
  qed
  have "\<exists>i j. i \<le> j \<and> j \<le> length log \<and> tc_recent c0 @ bs = piece log i j"
  proof (cases "tc_recent c0 = []")
    case True
    with bs show ?thesis by auto
  next
    case False
    then have c0: "c0 = c" "\<not> sb_base_offset first > sb_last_offset (last (tc_recent c))"
      by (auto simp: c0_def tail_reset_def split: if_splits)
    obtain i j where ij: "i \<le> j" "j \<le> length log" "tc_recent c = piece log i j"
      using ok by (auto simp: tail_ok_def)
    have size: "i < j" "length (tc_recent c) = j - i"
      using False c0(1) ij by (auto simp: length_piece) (metis length_piece diff_is_0_eq' le_neq_implies_less length_0_conv)
    have last: "last (tc_recent c) = log ! (j - 1)"
      using False c0(1) size ij by (simp add: last_conv_nth nth_piece)
    have "length bs = l - k" using bs by (simp add: length_piece)
    then have "k < l" using first by (cases "k < l") simp_all
    then have head: "first = log ! k" using bs first nth_piece [of l log 0 k] by (metis Nat.add_0_right nth_Cons_0 zero_less_diff)
    have eq: "sb_base_offset first = sb_last_offset (last (tc_recent c))"
      using \<open>\<not> (bs = [] \<or> _)\<close> c0 False first by simp
    have "mark rss k = mark rss j"
    proof -
      have "sb_base_offset first = base + of_nat (mark rss k)" "sb_last_offset (last (tc_recent c)) = base + of_nat (mark rss j)"
        using log_at [OF log] \<open>k < l\<close> bs(2) size ij(2) log_length [OF log] by (simp_all add: head last)
      with eq have "unat (base + of_nat (mark rss k)) = unat (base + of_nat (mark rss j))" by simp
      then show ?thesis by (simp add: offset_value [OF small])
    qed
    then have "k = j"
      using mark_less [OF log] \<open>k < l\<close> bs(2) ij(2) log_length [OF log] by (metis less_irrefl less_le_trans linorder_neqE_nat nat_less_le)
    then have "tc_recent c0 @ bs = piece log i l"
      using piece_append [of i j l log] ij bs c0 by simp
    with bs ij \<open>k = j\<close> show ?thesis by (intro exI [of _ i] exI [of _ l]) auto
  qed
  then obtain i j where ij: "i \<le> j" "j \<le> length log" "tc_recent c0 @ bs = piece log i j" by blast
  have counters: "tc_recent_bytes c0 + payload_bytes bs = payload_bytes (piece log i j)"
      "tc_recent_records c0 + record_counts bs = record_counts (piece log i j)"
    using ok tail_ok_reset [of log] unfolding ij(3) [symmetric]
    by (simp_all add: c0_def tail_ok_def payload_bytes_def record_counts_def)
  show ?thesis
    unfolding result counters ij(3)
    using shrink_ok [OF ij(1,2), of "\<lparr>tc_recent = piece log i j, tc_recent_bytes = payload_bytes (piece log i j),
      tc_recent_records = record_counts (piece log i j)\<rparr>"] by simp
qed

lemma cache_follows:
  assumes log: "log_holds decode base log rss" and small: "unat base + length (concat rss) < 2 ^ 63"
    and events: "list_all (event_of log) es" and ok: "tail_ok log c"
  shows "tail_ok log (fold cache_step es c)"
  using events ok
proof (induction es arbitrary: c)
  case (Cons e es)
  have "tail_ok log (cache_step e c)"
  proof (cases e)
    case (CacheAppend bs)
    then obtain k l where "k \<le> l" "l \<le> length log" "bs = piece log k l"
      using Cons.prems(1) by (auto simp: event_of_def)
    with CacheAppend Cons.prems(2) show ?thesis
      using tail_append_ok [OF log small] by simp
  qed (simp add: tail_ok_reset)
  with Cons show ?case by simp
qed simp

text \<open>What the cache hands out is the log from the batch that holds the offset on.\<close>

lemma tail_batches_piece:
  assumes log: "log_holds decode base log rss" and small: "unat base + length (concat rss) < 2 ^ 63"
    and ok: "tail_ok log c" and cached: "tail_batches start c = Some bs"
  shows "\<exists>i j. i < j \<and> j \<le> length log \<and> bs = piece log i j \<and>
    unat base + mark rss i \<le> unat start \<and> unat start < unat base + mark rss (Suc i)"
proof -
  obtain i j where ij: "i \<le> j" "j \<le> length log" "tc_recent c = piece log i j"
    using ok by (auto simp: tail_ok_def)
  have found: "tc_recent c \<noteq> []" "sb_base_offset (hd (tc_recent c)) \<le> start" "start < sb_last_offset (last (tc_recent c))"
      "bs = filter (\<lambda>b. start < sb_last_offset b) (piece log i j)"
    using cached ij(3) by (auto simp: tail_batches_def split: if_splits)
  then have "i < j" using ij by (cases "i < j") (simp_all add: piece_def)
  have len: "length rss = length log" using log_length [OF log] by simp
  have upper: "start < sb_last_offset (log ! n) \<longleftrightarrow> unat start < unat base + mark rss (Suc n)" if "n < length log" for n
    using log_at [OF log, of n] that len offset_value [OF small] by (simp add: word_less_nat_alt)
  have first: "unat base + mark rss i \<le> unat start"
    using found(1,2) log_at [OF log, of i] ij \<open>i < j\<close> len offset_value [OF small] nth_piece [of j log 0 i]
    by (simp add: hd_conv_nth word_le_nat_alt)
  have lastb: "unat start < unat base + mark rss j"
    using found(1,3) upper [of "j - 1"] ij \<open>i < j\<close> nth_piece [of j log "j - 1 - i" i]
    by (simp add: last_conv_nth length_piece)
  define k where "k = (LEAST n. unat start < unat base + mark rss (Suc n))"
  have k: "unat start < unat base + mark rss (Suc k)"
    unfolding k_def by (rule LeastI [of _ "j - 1"]) (use lastb \<open>i < j\<close> in simp)
  have least: "unat base + mark rss (Suc n) \<le> unat start" if "n < k" for n
    using not_less_Least [of n "\<lambda>n. unat start < unat base + mark rss (Suc n)"] that by (simp add: k_def)
  have "k \<le> j - 1" unfolding k_def by (rule Least_le) (use lastb \<open>i < j\<close> in simp)
  then have "k < j" using \<open>i < j\<close> by simp
  have "i \<le> k"
  proof (rule ccontr)
    assume "\<not> i \<le> k"
    then have "mark rss (Suc k) \<le> mark rss i" by (intro mark_mono) simp
    with k first show False by simp
  qed
  have at: "unat base + mark rss k \<le> unat start"
  proof (cases k)
    case 0
    with first mark_mono [of 0 i rss] show ?thesis by simp
  next
    case (Suc n)
    with least [of n] show ?thesis by simp
  qed
  have "bs = piece log k j"
  proof -
    have split: "piece log i j = piece log i k @ piece log k j"
      using piece_append [of i k j log] \<open>i \<le> k\<close> \<open>k < j\<close> by simp
    have "filter (\<lambda>b. start < sb_last_offset b) (piece log i k) = []"
    proof -
      have "\<not> start < sb_last_offset (piece log i k ! n)" if "n < k - i" for n
      proof -
        have "i + n < k" using that by simp
        with that upper [of "i + n"] least [of "i + n"] \<open>k < j\<close> ij(2) nth_piece [of k log n i] show ?thesis by simp
      qed
      then show ?thesis
        using \<open>i \<le> k\<close> \<open>k < j\<close> ij(2) by (auto simp: filter_empty_conv in_set_conv_nth length_piece)
    qed
    moreover have "filter (\<lambda>b. start < sb_last_offset b) (piece log k j) = piece log k j"
    proof -
      have "start < sb_last_offset (piece log k j ! n)" if "n < j - k" for n
        using that upper [of "k + n"] mark_mono [of "Suc k" "Suc (k + n)" rss] k ij(2) nth_piece [of j log n k] by simp
      then show ?thesis
        using \<open>k < j\<close> ij(2) by (auto simp: filter_id_conv in_set_conv_nth length_piece)
    qed
    ultimately show ?thesis using found(4) split by simp
  qed
  with \<open>k < j\<close> ij(2) at k show ?thesis by blast
qed

section \<open>A read served by the cache\<close>

fun number_all :: "u64 \<Rightarrow> log_record list list \<Rightarrow> stream_record list list" where
  "number_all b [] = []"
| "number_all b (rs # rss) = numbered b rs # number_all (b + of_nat (length rs)) rss"

lemma concat_number_all: "concat (number_all b rss) = numbered b (concat rss)"
  by (induction rss arbitrary: b) (simp_all add: numbered_append)

lemma add_value: "unat (b :: u64) + n < 2 ^ 63 \<Longrightarrow> unat (b + of_nat n) = unat b + n"
  by (simp add: unat_word_ariths unat_of_nat)

lemma numbered_range:
  "unat b + length xs < 2 ^ 63 \<Longrightarrow> r \<in> set (numbered b xs) \<Longrightarrow> unat b \<le> unat (sr_offset r) \<and> unat (sr_offset r) < unat b + length xs"
proof (induction xs arbitrary: b)
  case (Cons x xs)
  have "unat (b + 1) = unat b + 1" using add_value [of b 1] Cons.prems(1) by simp
  with Cons.IH [of "b + 1"] Cons.prems show ?case by auto
qed simp

lemma numbered_sorted: "unat b + length xs < 2 ^ 63 \<Longrightarrow> sorted (map sr_offset (numbered b xs))"
proof (induction xs arbitrary: b)
  case (Cons x xs)
  have one: "unat (b + 1) = unat b + 1" using add_value [of b 1] Cons.prems(1) by simp
  then have "b \<le> sr_offset r" if "r \<in> set (numbered (b + 1) xs)" for r
    using numbered_range [OF _ that] Cons.prems(1) by (simp add: word_le_nat_alt)
  with one Cons show ?case by simp
qed simp

lemma log_held:
  "log_holds decode b bs rss \<Longrightarrow> unat b + length (concat rss) < 2 ^ 63 \<Longrightarrow> list_all2 (batch_holds decode) bs (number_all b rss)"
proof (induction decode b bs rss rule: log_holds.induct)
  case (2 decode base b bs rs rss)
  have top: "unat (base + of_nat (length rs)) = unat base + length rs" using 2 by (intro add_value) simp
  moreover have "batch_holds decode b (numbered base rs)"
    using 2 numbered_range [of base rs] top by (simp add: batch_holds_def word_le_nat_alt word_less_nat_alt)
  ultimately show ?case using 2 by simp
qed simp_all

lemma log_sorted:
  assumes "log_holds decode b bs rss" "unat b + length (concat rss) < 2 ^ 63"
  shows "sorted (map sb_base_offset bs)"
  using log_at [OF assms(1)] log_length [OF assms(1)] offset_value [OF assms(2)] mark_mono [of _ _ rss]
  by (auto simp: sorted_iff_nth_mono word_le_nat_alt)

lemma log_take: "log_holds decode b bs rss \<Longrightarrow> log_holds decode b (take i bs) (take i rss)"
proof (induction decode b bs rss arbitrary: i rule: log_holds.induct)
  case (2 decode base b bs rs rss)
  then show ?case by (cases i) simp_all
qed simp_all

lemma log_drop: "log_holds decode b bs rss \<Longrightarrow> log_holds decode (b + of_nat (mark rss i)) (drop i bs) (drop i rss)"
proof (induction decode b bs rss arbitrary: i rule: log_holds.induct)
  case (2 decode base b bs rs rss)
  then show ?case by (cases i) (simp_all add: mark_def algebra_simps)
qed simp_all

lemma log_piece: "log_holds decode b bs rss \<Longrightarrow> log_holds decode (b + of_nat (mark rss i)) (piece bs i j) (piece rss i j)"
  unfolding piece_def by (intro log_take log_drop)

lemma take_cached_take:
  "\<exists>m. take_cached bound max_bytes bs used out = out @ take m bs \<and>
    (out = [] \<and> bs \<noteq> [] \<and> sb_base_offset (hd bs) < bound \<longrightarrow> 0 < m)"
proof (induction bs arbitrary: used out)
  case (Cons b bs)
  obtain m where m: "take_cached bound max_bytes bs (used + length (sb_payload b)) (out @ [b]) = (out @ [b]) @ take m bs"
    using Cons.IH [of "used + length (sb_payload b)" "out @ [b]"] by blast
  show ?case
  proof (cases "bound \<le> sb_base_offset b \<or> used + length (sb_payload b) > max_bytes \<and> out \<noteq> []")
    case True
    then show ?thesis by (intro exI [of _ 0]) auto
  next
    case False
    then have "take_cached bound max_bytes (b # bs) used out = out @ take (Suc m) (b # bs)"
      using m by (auto simp only: take_cached.simps if_False de_Morgan_disj append_assoc take_Suc_Cons append_Cons append_Nil)
    then show ?thesis by (intro exI [of _ "Suc m"]) simp
  qed
qed simp

lemma wanted_append: "wanted start bound (xs @ ys) = wanted start bound xs @ wanted start bound ys"
  by (simp add: wanted_def)

lemma wanted_from:
  "unat b + length xs < 2 ^ 63 \<Longrightarrow> unat start \<le> unat b \<Longrightarrow>
    wanted start bound (numbered b xs) = numbered b (take (unat bound - unat b) xs)"
proof (induction xs arbitrary: b)
  case (Cons x xs)
  have one: "unat (b + 1) = unat b + 1" using add_value [of b 1] Cons.prems(1) by simp
  have rest: "wanted start bound (numbered (b + 1) xs) = numbered (b + 1) (take (unat bound - (unat b + 1)) xs)"
    using Cons.IH [of "b + 1"] Cons.prems one by simp
  show ?case
  proof (cases "b < bound")
    case True
    then have "unat bound - unat b = Suc (unat bound - (unat b + 1))" by (simp add: word_less_nat_alt)
    with True rest Cons.prems(2) show ?thesis by (simp add: wanted_Cons word_le_nat_alt)
  next
    case False
    then have "unat bound - unat b = 0" "unat bound - (unat b + 1) = 0" by (simp_all add: word_less_nat_alt)
    with False rest show ?thesis by (simp add: wanted_Cons)
  qed
qed (simp add: wanted_def)

lemma wanted_before: "unat b + length xs < 2 ^ 63 \<Longrightarrow> unat b + length xs \<le> unat start \<Longrightarrow> wanted start bound (numbered b xs) = []"
  using numbered_range [of b xs] by (fastforce simp: wanted_def filter_empty_conv word_le_nat_alt)

lemma wanted_numbered:
  assumes "unat b + length xs < 2 ^ 63" "unat b \<le> unat start" "unat start \<le> unat b + length xs"
  shows "wanted start bound (numbered b xs) = numbered start (take (unat bound - unat start) (drop (unat start - unat b) xs))"
proof -
  let ?k = "unat start - unat b"
  have "b + of_nat ?k = start"
    using assms(2) by (metis add_diff_inverse_nat leD of_nat_add word_of_nat_unat)
  then have "numbered b xs = numbered b (take ?k xs) @ numbered start (drop ?k xs)"
    using numbered_append [of b "take ?k xs" "drop ?k xs"] assms by (simp add: min_def)
  moreover have "wanted start bound (numbered b (take ?k xs)) = []"
    using assms by (intro wanted_before) simp_all
  moreover have "wanted start bound (numbered start (drop ?k xs)) = numbered start (take (unat bound - unat start) (drop ?k xs))"
    using assms by (intro wanted_from) simp_all
  ultimately show ?thesis by (simp add: wanted_append)
qed

lemma numbered_take: "take n (numbered b xs) = numbered b (take n xs)"
  by (induction xs arbitrary: n b) (simp_all add: take_Cons')

lemma numbered_simps [simp]: "length (numbered b xs) = length xs" "numbered b xs = [] \<longleftrightarrow> xs = []"
  by (induction xs arbitrary: b) simp_all

lemma numbered_nth: "n < length xs \<Longrightarrow> sr_offset (numbered b xs ! n) = b + of_nat n"
proof (induction xs arbitrary: n b)
  case (Cons x xs)
  then show ?case by (cases n) (simp_all add: algebra_simps)
qed simp

text \<open>The records after the offset, from any piece of the log that starts at the batch with the offset.\<close>

lemma piece_wanted:
  assumes log: "log_holds decode base log rss" and small: "unat base + length (concat rss) < 2 ^ 63"
    and i: "i < j" "j \<le> length rss" "unat base + mark rss i \<le> unat start" "unat start < unat base + mark rss (Suc i)"
  shows "\<exists>k. wanted start bound (numbered (base + of_nat (mark rss i)) (concat (piece rss i j))) =
      numbered start (take (unat bound - unat start) (take k (drop (unat start - unat base) (concat rss)))) \<and>
    0 < k \<and> unat start + k \<le> unat base + length (concat rss)"
proof -
  let ?b = "base + of_nat (mark rss i)" and ?p = "concat (piece rss i j)" and ?s = "unat start - unat base - mark rss i"
  have b: "unat ?b = unat base + mark rss i" by (rule offset_value [OF small])
  have whole: "concat rss = concat (take i rss) @ ?p @ concat (drop j rss)"
  proof -
    have "rss = take i rss @ piece rss i j @ drop j rss"
      using i(1) by (metis append_assoc append_take_drop_id less_or_eq_imp_le piece_append piece_def diff_zero drop0 le0)
    then show ?thesis by (metis concat_append)
  qed
  have len: "length ?p = mark rss j - mark rss i"
  proof -
    have "take j rss = take i rss @ piece rss i j"
      using i(1) piece_append [of 0 i j rss] by (simp add: piece_def)
    then show ?thesis by (simp add: mark_def)
  qed
  have reach: "mark rss (Suc i) \<le> mark rss j" "mark rss j \<le> length (concat rss)"
    using mark_mono [of "Suc i" j rss] i(1) mark_le by simp_all
  have inside: "?s < length ?p" "unat ?b + length ?p < 2 ^ 63"
    using i(3,4) len reach small b by linarith+
  have "drop (unat start - unat base) (concat rss) = drop ?s ?p @ concat (drop j rss)"
    using inside(1) i(3) by (subst whole) (simp add: mark_def)
  then have "drop ?s ?p = take (length ?p - ?s) (drop (unat start - unat base) (concat rss))"
    using inside(1) by simp
  moreover have "unat start - unat ?b = ?s" using b i(3) by simp
  ultimately have "wanted start bound (numbered ?b ?p) =
      numbered start (take (unat bound - unat start) (take (length ?p - ?s) (drop (unat start - unat base) (concat rss))))"
    using wanted_numbered [OF inside(2), of start bound] b i(3) inside(1) by simp
  moreover have "unat start + (length ?p - ?s) \<le> unat base + length (concat rss)"
    using len reach inside(1) i(3) by linarith
  ultimately show ?thesis using inside(1) by (intro exI [of _ "length ?p - ?s"]) simp
qed

lemma cached_read:
  assumes log: "log_holds (decode_batches crc decompress) base log rss" and small: "unat base + length (concat rss) < 2 ^ 63"
    and ok: "tail_ok log c" and cached: "tail_batches start c = Some bs"
    and bound: "start < bound" and limits: "0 < max_bytes" "0 < max_records"
  shows "\<exists>n read. collect_records crc decompress (take_cached bound max_bytes bs 0 []) start bound max_bytes max_records = Inr read \<and>
    rd_records read = numbered start (take n (drop (unat start - unat base) (concat rss))) \<and>
    0 < n \<and> n \<le> max_records \<and> unat start + n \<le> unat bound \<and> unat start + n \<le> unat base + length (concat rss) \<and>
    rd_next_offset read = start + of_nat n \<and> (rd_up_to_date read \<longleftrightarrow> rd_next_offset read = bound)"
proof -
  obtain i j where i: "i < j" "j \<le> length log" "bs = piece log i j" "unat base + mark rss i \<le> unat start"
      "unat start < unat base + mark rss (Suc i)"
    using tail_batches_piece [OF log small ok cached] by blast
  have len: "length log = length rss" by (rule log_length [OF log])
  have "bs \<noteq> []" using i by (metis length_0_conv length_piece less_or_eq_imp_le zero_less_diff less_numeral_extra(3))
  moreover have "sb_base_offset (hd bs) < bound"
  proof -
    have "hd bs = log ! i" using \<open>bs \<noteq> []\<close> i nth_piece [of j log 0 i] by (simp add: hd_conv_nth)
    then show ?thesis
      using log_at [OF log, of i] i len offset_value [OF small, of i] bound by (simp add: word_less_nat_alt)
  qed
  ultimately obtain m where m: "take_cached bound max_bytes bs 0 [] = take m bs" "0 < m"
    using take_cached_take [of bound max_bytes bs 0 "[]"] by auto
  define j' where "j' = min j (i + m)"
  have j': "i < j'" "j' \<le> length rss"
    using i m(2) len by (auto simp: j'_def)
  have "j' - i = min m (j - i)" unfolding j'_def by linarith
  then have pre: "take m bs = piece log i j'"
    using i(3) by (simp add: piece_def)
  have held: "log_holds (decode_batches crc decompress) (base + of_nat (mark rss i)) (piece log i j') (piece rss i j')"
    by (rule log_piece [OF log])
  have fits: "unat (base + of_nat (mark rss i)) + length (concat (piece rss i j')) < 2 ^ 63"
  proof -
    have "take j' rss = take i rss @ piece rss i j'"
      using j'(1) piece_append [of 0 i j' rss] by (simp add: piece_def)
    then have "mark rss i + length (concat (piece rss i j')) = mark rss j'" by (simp add: mark_def)
    with mark_le [of rss j'] small offset_value [OF small, of i] show ?thesis by simp
  qed
  let ?W = "wanted start bound (numbered (base + of_nat (mark rss i)) (concat (piece rss i j')))"
  obtain k where k: "?W = numbered start (take (unat bound - unat start) (take k (drop (unat start - unat base) (concat rss))))"
      "0 < k" "unat start + k \<le> unat base + length (concat rss)"
    using piece_wanted [OF log small j'(1,2) i(4,5), of bound] by blast
  obtain n read where read: "collect_records crc decompress (take m bs) start bound max_bytes max_records = Inr read"
      "rd_records read = take n ?W" "cut_at max_bytes max_records ?W n (rd_records read)" "?W \<noteq> [] \<longrightarrow> 0 < n"
      "rd_next_offset read = (if n = 0 then start else sr_offset (?W ! (n - 1)) + 1)"
      "rd_up_to_date read \<longleftrightarrow> bound \<le> rd_next_offset read"
    using collect_records_spec [OF log_held [OF held fits] log_sorted [OF held fits], of max_bytes max_records start bound]
      numbered_sorted [OF fits] limits
    unfolding concat_number_all pre by blast
  have W: "length ?W = min (unat bound - unat start) k"
    using k i(4) by simp
  have gap: "0 < unat bound - unat start" using bound by (simp add: word_less_nat_alt)
  have n: "0 < n" "n \<le> k" "n \<le> unat bound - unat start" "n \<le> max_records"
    using read(2-4) W gap k(2) by (auto simp: cut_at_def)
  have "rd_records read = numbered start (take n (drop (unat start - unat base) (concat rss)))"
    using read(2) n unfolding k(1) numbered_take by (simp add: min_def)
  moreover have nxt: "rd_next_offset read = start + of_nat n"
  proof -
    have "sr_offset (?W ! (n - 1)) = start + of_nat (n - 1)"
    proof -
      have "n - 1 < length ?W" using n unfolding W by linarith
      then show ?thesis unfolding k(1) by (intro numbered_nth) simp
    qed
    with read(5) n(1) show ?thesis by (simp add: of_nat_diff)
  qed
  moreover have "rd_up_to_date read \<longleftrightarrow> rd_next_offset read = bound"
  proof -
    have "unat (start + of_nat n) = unat start + n" using n k(3) small by (intro add_value) simp
    moreover have "unat start + n \<le> unat bound" using n(3) gap by simp
    ultimately show ?thesis unfolding read(6) nxt by (auto simp: word_le_nat_alt word_unat_eq_iff)
  qed
  ultimately show ?thesis
    using read(1) m(1) n k(3) gap by (intro exI [of _ n] exI [of _ read]) auto
qed

lemma placed_log:
  "list_all sent_ok bs \<Longrightarrow> unat base + sent_total bs < 2 ^ 63 \<Longrightarrow>
    log_holds (decode_batches crc decompress) base (map (as_batch crc) (placed epoch base bs))
      (map (\<lambda>(_, _, ts, _, rs). map (lr_timestamp_ms_update (\<lambda>_. ts)) rs) bs)"
proof (induction bs arbitrary: base)
  case (Cons b bs)
  obtain b0 e ts p rs where b: "b = (b0, e, ts, p, rs)" by (metis prod_cases5)
  have ok: "batch_ok p rs" "unat base < 2 ^ 63" using Cons.prems by (simp_all add: b sent_ok_def)
  have top: "unat (base + of_nat (length rs)) = unat base + length rs"
    using Cons.prems(2) by (intro add_value) (simp add: b sent_records_def)
  have "decode_batches crc decompress (lay_batch crc base epoch (batch_tail ts p rs)) =
      Inr (numbered base (map (lr_timestamp_ms_update (\<lambda>_. ts)) rs))"
    using decode_lay [OF ok, of crc decompress epoch ts "[]"] by (simp add: decode_batches.simps written_numbered)
  moreover have "rs \<noteq> []" using ok(1) by (simp add: batch_ok_def)
  moreover have "log_holds (decode_batches crc decompress) (base + of_nat (length rs))
      (map (as_batch crc) (placed epoch (base + of_nat (length rs)) bs))
      (map (\<lambda>(_, _, ts, _, rs). map (lr_timestamp_ms_update (\<lambda>_. ts)) rs) bs)"
    using Cons.IH [of "base + of_nat (length rs)"] Cons.prems top by (simp add: b sent_records_def)
  moreover have "as_batch crc (base, epoch, ts, p, rs) = \<lparr>sb_base_offset = base, sb_last_offset = base + of_nat (length rs),
      sb_count = of_nat (length rs), sb_payload = lay_batch crc base epoch (batch_tail ts p rs)\<rparr>"
    by (simp add: as_batch_def lay_sent_def sent_records_def)
  ultimately show ?case
    by (simp add: b)
qed simp

section \<open>Properties\<close>


definition sample_sent :: "sent_batch list" where
  "sample_sent = [(0, 0, 7, None, [\<lparr>lr_timestamp_ms = 0, lr_key = None, lr_value = Some [1], lr_headers = []\<rparr>])]"

definition sample_crc :: "bytes \<Rightarrow> u32" where
  "sample_crc bs = of_nat (length bs)"

lemma sample_sent_ok: "list_all sent_ok sample_sent"
proof -
  let ?r = "\<lparr>lr_timestamp_ms = 0, lr_key = None, lr_value = Some [1], lr_headers = []\<rparr>"
  have body: "length (record_body d ?r) \<le> 52" for d
    using length_varint(1) [of d] length_varint(1) [of "-1"] length_varint(1) [of 1] length_varint(1) [of 0] length_varint(2) [of 0]
    by (simp add: record_body_def put_nullable_def)
  have "length (put_records [?r]) \<le> 62"
    using body [of 0] length_varint(1) [of "of_nat (length (record_body 0 ?r))"] by (simp add: put_records_def put_record_def Let_def)
  moreover have "record_ok ?r"
    using le_less_trans [OF body, of "2 ^ 31"] by (simp add: record_ok_def bytes_ok_def)
  ultimately show ?thesis
    by (simp add: sample_sent_def sent_ok_def batch_ok_def producer_ok_def)
qed

lemma sample_total: "sent_total sample_sent = 1" "timed_records sample_sent =
    [\<lparr>lr_timestamp_ms = 7, lr_key = None, lr_value = Some [1], lr_headers = []\<rparr>]"
  by (simp_all add: sample_sent_def sent_records_def timed_records_def)


text \<open>
  C40. A read the cache answers is a read of the log. Whatever order appends finish in, and whatever resets come
  between, the cache holds consecutive batches of the log; a read it answers returns at least one record, the records
  of the log from the offset asked for on, without a gap and up to a limit, and the offset to go on from.
\<close>

theorem cached_read_returns_log:
  assumes "log_holds (decode_batches crc decompress) base log rss" "unat base + length (concat rss) < 2 ^ 63"
    and "list_all (event_of log) es" "tail_batches start (fold cache_step es tail_reset) = Some bs"
    and "start < bound" "0 < max_bytes" "0 < max_records"
  shows "\<exists>n read. collect_records crc decompress (take_cached bound max_bytes bs 0 []) start bound max_bytes max_records = Inr read \<and>
    rd_records read = numbered start (take n (drop (unat start - unat base) (concat rss))) \<and>
    0 < n \<and> n \<le> max_records \<and> unat start + n \<le> unat bound \<and> unat start + n \<le> unat base + length (concat rss) \<and>
    rd_next_offset read = start + of_nat n \<and> (rd_up_to_date read \<longleftrightarrow> rd_next_offset read = bound)"
  by (rule cached_read [OF assms(1,2) cache_follows [OF assms(1-3) tail_ok_reset] assms(4-7)])

definition sample_log :: "stream_batch list" where
  "sample_log = map (as_batch sample_crc) (placed 3 5 sample_sent)"

lemma sample_log_eval: "sample_log = [\<lparr>sb_base_offset = 5, sb_last_offset = 6, sb_count = 1,
    sb_payload = lay_sent sample_crc (5, 3, 7, None, [\<lparr>lr_timestamp_ms = 0, lr_key = None, lr_value = Some [1], lr_headers = []\<rparr>])\<rparr>]"
  by (simp add: sample_log_def sample_sent_def as_batch_def sent_records_def)

theorem cached_read_returns_log_witness:
  "\<exists>n read. collect_records sample_crc (\<lambda>_ _. None) (take_cached 6 100 sample_log 0 []) 5 6 100 10 = Inr read \<and>
    rd_records read = numbered 5 (take n (drop 0 [\<lparr>lr_timestamp_ms = 7, lr_key = None, lr_value = Some [1], lr_headers = []\<rparr>])) \<and>
    0 < n \<and> rd_next_offset read = 5 + of_nat n"
proof -
  let ?rss = "map (\<lambda>(_, _, ts, _, rs). map (lr_timestamp_ms_update (\<lambda>_. ts)) rs) sample_sent"
  have log: "log_holds (decode_batches sample_crc (\<lambda>_ _. None)) 5 sample_log ?rss"
    unfolding sample_log_def by (rule placed_log [OF sample_sent_ok]) (simp add: sample_total)
  have rss: "concat ?rss = [\<lparr>lr_timestamp_ms = 7, lr_key = None, lr_value = Some [1], lr_headers = []\<rparr>]"
    by (simp add: sample_sent_def)
  have events: "list_all (event_of sample_log) [CacheReset, CacheAppend sample_log]"
    by (simp add: event_of_def) (rule exI [of _ 0], rule exI [of _ "length sample_log"], simp add: piece_def)
  have cached: "tail_batches 5 (fold cache_step [CacheReset, CacheAppend sample_log] tail_reset) = Some sample_log"
    by (simp add: sample_log_eval tail_append_def tail_reset_def push_batch_def tail_batches_def)
  show ?thesis
    using cached_read_returns_log [OF log _ events cached, of 6 100 10] by (auto simp: rss)
qed

end
