(* ===== verification/Spec2Isabelle.thy ===== *)
theory Spec2Isabelle
  imports Meta_Query Sql_Cluster Grp_Props Grp_Table Srv_Batch
begin

text \<open>
  A verification library for PicoMQ. The part modelled first is the control plane,
  \<^verbatim>\<open>picomq/pico-metadata\<close>: one deterministic function applies commands to a replicated
  metadata state.
\<close>

end
